theory Spec2Isabelle
  imports Main "HOL-Library.Multiset"
begin

section \<open>Python values, errors and containers\<close>

text \<open>
  The program is a single Python module, \<^verbatim>\<open>hrd.py\<close>.  Its functions are embedded as HOL
  functions.  Every exception the interpreter can raise inside them is a value of
  \<open>py_error\<close>, and a function that can raise returns \<open>py_error + 'a\<close> with \<open>Inl\<close> for the
  exception.
\<close>

datatype py_error = IndexError | KeyError | TypeError | AttributeError

definition bind_err :: "py_error + 'a \<Rightarrow> ('a \<Rightarrow> py_error + 'b) \<Rightarrow> py_error + 'b" where
  "bind_err m k = (case m of Inl e \<Rightarrow> Inl e | Inr v \<Rightarrow> k v)"

text \<open>
  Folding a raising step over a list, left to right; the first exception ends the loop.
\<close>

fun fold_err :: "('a \<Rightarrow> 's \<Rightarrow> py_error + 's) \<Rightarrow> 'a list \<Rightarrow> 's \<Rightarrow> py_error + 's" where
  "fold_err step [] s = Inr s"
| "fold_err step (x # xs) s = bind_err (step x s) (fold_err step xs)"

text \<open>
  Python list indexing: a negative index counts from the end, anything outside
  \<open>[-len, len)\<close> raises \<^verbatim>\<open>IndexError\<close>.
\<close>

definition py_index :: "'a list \<Rightarrow> int \<Rightarrow> nat option" where
  "py_index xs i =
     (let n = int (length xs); j = (if i < 0 then n + i else i)
      in if 0 \<le> j \<and> j < n then Some (nat j) else None)"

text \<open>
  A \<^verbatim>\<open>dict\<close> keeps its keys in insertion order, and the program iterates over it, so it is
  an association list with distinct keys.  \<^verbatim>\<open>d[k] = v\<close> overwrites in place when the key is
  present and appends otherwise; \<^verbatim>\<open>d.pop(k)\<close> raises \<^verbatim>\<open>KeyError\<close> on a missing key.
\<close>

fun dict_set :: "('k \<times> 'v) list \<Rightarrow> 'k \<Rightarrow> 'v \<Rightarrow> ('k \<times> 'v) list" where
  "dict_set [] k v = [(k, v)]"
| "dict_set ((k', v') # kvs) k v =
     (if k' = k then (k, v) # kvs else (k', v') # dict_set kvs k v)"

fun dict_del :: "('k \<times> 'v) list \<Rightarrow> 'k \<Rightarrow> ('k \<times> 'v) list" where
  "dict_del [] k = []"
| "dict_del ((k', v') # kvs) k = (if k' = k then kvs else (k', v') # dict_del kvs k)"

definition dict_get :: "('k \<times> 'v) list \<Rightarrow> 'k \<Rightarrow> py_error + 'v" where
  "dict_get d k = (case map_of d k of None \<Rightarrow> Inl KeyError | Some v \<Rightarrow> Inr v)"

definition dict_pop :: "('k \<times> 'v) list \<Rightarrow> 'k \<Rightarrow> py_error + ('v \<times> ('k \<times> 'v) list)" where
  "dict_pop d k = (case map_of d k of None \<Rightarrow> Inl KeyError | Some v \<Rightarrow> Inr (v, dict_del d k))"

section \<open>Pieces and boards\<close>

text \<open>
  \<^verbatim>\<open>class Piece\<close>.  The orientation is \<^verbatim>\<open>'h'\<close>, \<^verbatim>\<open>'v'\<close> or \<^verbatim>\<open>None\<close>.  The uid is a
  \<^verbatim>\<open>uuid.UUID\<close>; the model uses a natural number for it.
\<close>

record Piece =
  is_2_by_2 :: bool
  is_single :: bool
  coord_x :: int
  coord_y :: int
  orientation :: "string option"
  uid :: nat

definition set_coords :: "Piece \<Rightarrow> int \<Rightarrow> int \<Rightarrow> Piece" where
  "set_coords p x y = p\<lparr>coord_x := x, coord_y := y\<rparr>"

definition char_single :: char where
  "char_single = CHR ''2''"

definition char_empty :: char where
  "char_empty = CHR ''.''"

text \<open>
  \<^verbatim>\<open>class Board\<close>.  \<^verbatim>\<open>self.width\<close> is set to 4 by the constructor and never assigned again.
  The piece dictionary is keyed by the top-left coordinates \<open>(x, y)\<close>.  The goal dictionary
  maps a uid to the goal piece; it is \<^verbatim>\<open>None\<close> on the goal board.
\<close>

definition width :: int where
  "width = 4"

type_synonym grid_t = "char list list"

record Board =
  height :: int
  pieces :: "((int \<times> int) \<times> Piece) list"
  goal_board_dict :: "(nat \<times> Piece) list option"
  grid :: grid_t

text \<open>\<^verbatim>\<open>grid[y][x]\<close> and \<^verbatim>\<open>grid[y][x] = c\<close>.\<close>

definition grid_get :: "grid_t \<Rightarrow> int \<Rightarrow> int \<Rightarrow> py_error + char" where
  "grid_get g y x =
     (case py_index g y of
        None \<Rightarrow> Inl IndexError
      | Some r \<Rightarrow>
          (case py_index (g ! r) x of
             None \<Rightarrow> Inl IndexError
           | Some c \<Rightarrow> Inr (g ! r ! c)))"

definition grid_set :: "grid_t \<Rightarrow> int \<Rightarrow> int \<Rightarrow> char \<Rightarrow> py_error + grid_t" where
  "grid_set g y x ch =
     (case py_index g y of
        None \<Rightarrow> Inl IndexError
      | Some r \<Rightarrow>
          (case py_index (g ! r) x of
             None \<Rightarrow> Inl IndexError
           | Some c \<Rightarrow> Inr (g[r := (g ! r)[c := ch]])))"

text \<open>
  The assignments \<^verbatim>\<open>update_grid\<close> makes for one piece, in the order of the source, each as
  \<open>((x, y), symbol)\<close>.  A piece that is neither 2x2 nor single and whose orientation is
  neither \<^verbatim>\<open>'h'\<close> nor \<^verbatim>\<open>'v'\<close> writes nothing.
\<close>

definition stamp_cells :: "Piece \<Rightarrow> ((int \<times> int) \<times> char) list" where
  "stamp_cells p =
     (let x = coord_x p; y = coord_y p in
      if is_2_by_2 p then
        [((x, y), CHR ''1''), ((x + 1, y), CHR ''1''),
         ((x, y + 1), CHR ''1''), ((x + 1, y + 1), CHR ''1'')]
      else if is_single p then [((x, y), char_single)]
      else if orientation p = Some ''h'' then [((x, y), CHR ''<''), ((x + 1, y), CHR ''>'')]
      else if orientation p = Some ''v'' then [((x, y), CHR ''^''), ((x, y + 1), CHR ''v'')]
      else [])"

definition write_cell :: "(int \<times> int) \<times> char \<Rightarrow> grid_t \<Rightarrow> py_error + grid_t" where
  "write_cell w g = grid_set g (snd (fst w)) (fst (fst w)) (snd w)"

definition blank_grid :: "int \<Rightarrow> grid_t" where
  "blank_grid h = replicate (nat h) (replicate (nat width) CHR ''.'')"

text \<open>
  \<^verbatim>\<open>update_grid\<close>: a fresh grid of \<open>height\<close> rows of \<open>width\<close> dots, then the assignments of
  every piece in the order of \<^verbatim>\<open>self.pieces.values()\<close>.  Nothing looks at what a cell held
  before it is assigned.
\<close>

definition grid_writes :: "((int \<times> int) \<times> Piece) list \<Rightarrow> ((int \<times> int) \<times> char) list" where
  "grid_writes ps = concat (map (\<lambda>kp. stamp_cells (snd kp)) ps)"

definition update_grid :: "int \<Rightarrow> ((int \<times> int) \<times> Piece) list \<Rightarrow> py_error + grid_t" where
  "update_grid h ps = fold_err write_cell (grid_writes ps) (blank_grid h)"

text \<open>\<^verbatim>\<open>Board.__init__\<close>: the grid is derived at once, so construction can raise.\<close>

definition Board_init ::
  "int \<Rightarrow> ((int \<times> int) \<times> Piece) list \<Rightarrow> (nat \<times> Piece) list option \<Rightarrow> py_error + Board" where
  "Board_init h ps gd =
     bind_err (update_grid h ps)
       (\<lambda>g. Inr \<lparr>height = h, pieces = ps, goal_board_dict = gd, grid = g\<rparr>)"

text \<open>
  \<^verbatim>\<open>Board.__eq__\<close> takes any Python value; only another \<^verbatim>\<open>Board\<close> can be equal.
\<close>

datatype py_value = PyBoard Board | PyNone | PyInt int | PyStr string

definition Board_eq :: "Board \<Rightarrow> py_value \<Rightarrow> bool" where
  "Board_eq self other = (case other of PyBoard b \<Rightarrow> grid self = grid b | _ \<Rightarrow> False)"

text \<open>
  \<^verbatim>\<open>Board.__str__\<close> concatenates \<^verbatim>\<open>str(row)\<close> over the rows.  A row is a list of
  one-character strings, printed as \<^verbatim>\<open>['.', '1', ...]\<close> (the symbols the program writes
  need no escaping).
\<close>

fun join_with :: "string \<Rightarrow> string list \<Rightarrow> string" where
  "join_with sep [] = []"
| "join_with sep [s] = s"
| "join_with sep (s # t # ss) = s @ sep @ join_with sep (t # ss)"

definition py_str_row :: "char list \<Rightarrow> string" where
  "py_str_row row = ''['' @ join_with '', '' (map (\<lambda>c. [CHR 0x27, c, CHR 0x27]) row) @ '']''"

definition Board_str :: "Board \<Rightarrow> string" where
  "Board_str b = concat (map py_str_row (grid b))"

text \<open>
  \<^verbatim>\<open>Board.copy_board(new_key, old)\<close>: copy every piece, build a board from the copies, move
  the entry \<open>old\<close> to \<open>new_key\<close>, set the moved piece's coordinates, derive the grid again.
\<close>

definition copy_board :: "Board \<Rightarrow> int \<times> int \<Rightarrow> int \<times> int \<Rightarrow> py_error + Board" where
  "copy_board self new_key old =
     (let ps = map (\<lambda>(piece_key, piece).
                  (piece_key,
                   \<lparr>is_2_by_2 = is_2_by_2 piece, is_single = is_single piece,
                    coord_x = coord_x piece, coord_y = coord_y piece,
                    orientation = orientation piece, uid = uid piece\<rparr>)) (pieces self)
      in bind_err (Board_init (height self) ps (goal_board_dict self)) (\<lambda>board.
         bind_err (dict_pop (pieces board) old) (\<lambda>(moved, rest).
         let ps1 = dict_set rest new_key moved in
         bind_err (dict_get ps1 new_key) (\<lambda>q.
         let ps2 = dict_set ps1 new_key (set_coords q (fst new_key) (snd new_key)) in
         bind_err (update_grid (height board) ps2) (\<lambda>g.
         Inr (board\<lparr>pieces := ps2, grid := g\<rparr>))))))"

section \<open>Search states and successor generation\<close>

text \<open>
  \<^verbatim>\<open>class State\<close>.  The parent is the state object the successor was generated from; states
  are not mutated once they are in a frontier, so the parent is held by value.
\<close>

datatype State =
  State (board: Board) (hfn: int) (f_value: int) (depth: int) (parent: "State option")

definition State_lt :: "State \<Rightarrow> State \<Rightarrow> bool" where
  "State_lt self other = (f_value self < f_value other)"

text \<open>\<^verbatim>\<open>grid[y][x] == char_empty\<close>, and Python's short-circuit \<^verbatim>\<open>and\<close>.\<close>

definition is_empty :: "grid_t \<Rightarrow> int \<Rightarrow> int \<Rightarrow> py_error + bool" where
  "is_empty g y x = bind_err (grid_get g y x) (\<lambda>ch. Inr (ch = char_empty))"

definition and_err :: "py_error + bool \<Rightarrow> py_error + bool \<Rightarrow> py_error + bool" where
  "and_err a b = bind_err a (\<lambda>r. if r then b else Inr False)"

text \<open>
  One of the four \<^verbatim>\<open>if bound: if occupancy: new_keys.append(dest)\<close> blocks: the
  occupancy test is evaluated only when the boundary test holds.
\<close>

definition try_move ::
  "bool \<Rightarrow> (py_error + bool) \<Rightarrow> int \<times> int \<Rightarrow> (int \<times> int) list \<Rightarrow> py_error + (int \<times> int) list" where
  "try_move in_bounds occupancy dest new_keys =
     (if in_bounds
      then bind_err occupancy (\<lambda>ok. Inr (if ok then new_keys @ [dest] else new_keys))
      else Inr new_keys)"

text \<open>
  The move generator: the first half of the loop body of \<^verbatim>\<open>generate_successors\<close>, which
  fills \<^verbatim>\<open>new_keys\<close> for one piece.  The branches are those of the source: 2x2, single,
  orientation \<^verbatim>\<open>'h'\<close>, and everything else (treated as vertical).
\<close>

definition piece_new_keys :: "Board \<Rightarrow> Piece \<Rightarrow> py_error + (int \<times> int) list" where
  "piece_new_keys b piece =
     (let x = coord_x piece; y = coord_y piece; g = grid b in
      if is_2_by_2 piece then
        bind_err (try_move (x - 1 \<ge> 0)
                   (and_err (is_empty g y (x - 1)) (is_empty g (y + 1) (x - 1))) (x - 1, y) []) (\<lambda>ks.
        bind_err (try_move (y - 1 \<ge> 0)
                   (and_err (is_empty g (y - 1) x) (is_empty g (y - 1) (x + 1))) (x, y - 1) ks) (\<lambda>ks.
        bind_err (try_move (x + 2 < width)
                   (and_err (is_empty g y (x + 2)) (is_empty g (y + 1) (x + 2))) (x + 1, y) ks) (\<lambda>ks.
        try_move (y + 2 < height b)
                   (and_err (is_empty g (y + 2) x) (is_empty g (y + 2) (x + 1))) (x, y + 1) ks)))
      else if is_single piece then
        bind_err (try_move (x - 1 \<ge> 0) (is_empty g y (x - 1)) (x - 1, y) []) (\<lambda>ks.
        bind_err (try_move (y - 1 \<ge> 0) (is_empty g (y - 1) x) (x, y - 1) ks) (\<lambda>ks.
        bind_err (try_move (x + 1 < width) (is_empty g y (x + 1)) (x + 1, y) ks) (\<lambda>ks.
        try_move (y + 1 < height b) (is_empty g (y + 1) x) (x, y + 1) ks)))
      else if orientation piece = Some ''h'' then
        bind_err (try_move (x - 1 \<ge> 0) (is_empty g y (x - 1)) (x - 1, y) []) (\<lambda>ks.
        bind_err (try_move (y - 1 \<ge> 0)
                   (and_err (is_empty g (y - 1) x) (is_empty g (y - 1) (x + 1))) (x, y - 1) ks) (\<lambda>ks.
        bind_err (try_move (x + 2 < width) (is_empty g y (x + 2)) (x + 1, y) ks) (\<lambda>ks.
        try_move (y + 1 < height b)
                   (and_err (is_empty g (y + 1) x) (is_empty g (y + 1) (x + 1))) (x, y + 1) ks)))
      else
        bind_err (try_move (x - 1 \<ge> 0)
                   (and_err (is_empty g y (x - 1)) (is_empty g (y + 1) (x - 1))) (x - 1, y) []) (\<lambda>ks.
        bind_err (try_move (y - 1 \<ge> 0) (is_empty g (y - 1) x) (x, y - 1) ks) (\<lambda>ks.
        bind_err (try_move (x + 1 < width)
                   (and_err (is_empty g y (x + 1)) (is_empty g (y + 1) (x + 1))) (x + 1, y) ks) (\<lambda>ks.
        try_move (y + 2 < height b) (is_empty g (y + 2) x) (x, y + 1) ks))))"

text \<open>
  \<^verbatim>\<open>self.board.goal_board_dict[piece.uid]\<close>: subscripting \<^verbatim>\<open>None\<close> is a \<^verbatim>\<open>TypeError\<close>, a
  missing uid a \<^verbatim>\<open>KeyError\<close>.
\<close>

definition goal_lookup :: "Board \<Rightarrow> nat \<Rightarrow> py_error + Piece" where
  "goal_lookup b u =
     (case goal_board_dict b of None \<Rightarrow> Inl TypeError | Some gd \<Rightarrow> dict_get gd u)"

text \<open>
  The second half of the loop body: one successor state per destination, with the heuristic
  maintained incrementally.
\<close>

definition successor_for :: "State \<Rightarrow> Piece \<Rightarrow> int \<times> int \<Rightarrow> py_error + State" where
  "successor_for self piece new_key =
     (let x = coord_x piece; y = coord_y piece in
      bind_err (goal_lookup (board self) (uid piece)) (\<lambda>goal_piece.
      let old_man_dist = \<bar>x - coord_x goal_piece\<bar> + \<bar>y - coord_y goal_piece\<bar>;
          new_man_dist = \<bar>fst new_key - coord_x goal_piece\<bar> + \<bar>snd new_key - coord_y goal_piece\<bar>
      in bind_err (copy_board (board self) new_key (x, y)) (\<lambda>b.
         Inr (State b ((hfn self - old_man_dist) + new_man_dist) (f_value self)
                (depth self + 1) (Some self)))))"

definition piece_successors :: "State \<Rightarrow> Piece \<Rightarrow> State list \<Rightarrow> py_error + State list" where
  "piece_successors self piece new_states =
     bind_err (piece_new_keys (board self) piece) (\<lambda>new_keys.
       fold_err (\<lambda>new_key acc.
           bind_err (successor_for self piece new_key) (\<lambda>s. Inr (acc @ [s])))
         new_keys new_states)"

definition generate_successors :: "State \<Rightarrow> py_error + State list" where
  "generate_successors self =
     fold_err (piece_successors self) (map snd (pieces (board self))) []"

text \<open>\<^verbatim>\<open>init_manhattan_distance\<close>: every pair of a board piece and a goal piece with equal uid.\<close>

definition init_manhattan_distance :: "Board \<Rightarrow> Board \<Rightarrow> int" where
  "init_manhattan_distance b goal_board =
     fold (\<lambda>piece total.
        fold (\<lambda>goal_piece total.
            if uid piece = uid goal_piece
            then total + (\<bar>coord_x goal_piece - coord_x piece\<bar> + \<bar>coord_y goal_piece - coord_y piece\<bar>)
            else total)
          (map snd (pieces goal_board)) total)
       (map snd (pieces b)) 0"

section \<open>The frontier of best-first search: \<^verbatim>\<open>heapq\<close>\<close>

text \<open>
  \<^verbatim>\<open>astar\<close> keeps its frontier in a list managed by the standard library's \<^verbatim>\<open>heapq\<close>.
  The items are tuples \<^verbatim>\<open>(f, state)\<close>.  Python compares tuples lexicographically: the
  first components decide unless they are equal, and then \<^verbatim>\<open>State.__lt__\<close> compares the
  states (a state compared with itself is equal, hence not smaller, which \<open>State_lt\<close> also
  gives).
\<close>

type_synonym heap_item = "int \<times> State"

definition item_lt :: "heap_item \<Rightarrow> heap_item \<Rightarrow> bool" where
  "item_lt a b = (fst a < fst b \<or> (fst a = fst b \<and> State_lt (snd a) (snd b)))"

text \<open>
  \<^verbatim>\<open>heapq._siftdown(heap, startpos, pos)\<close>: the loop carries \<^verbatim>\<open>newitem\<close> towards the root
  while it is smaller than the parent at \<^verbatim>\<open>(pos - 1) >> 1\<close>.
\<close>

function siftdown_loop :: "heap_item list \<Rightarrow> nat \<Rightarrow> nat \<Rightarrow> heap_item \<Rightarrow> heap_item list" where
  "siftdown_loop heap startpos pos newitem =
     (if pos > startpos then
        (let parentpos = (pos - 1) div 2; parent = heap ! parentpos in
         if item_lt newitem parent
         then siftdown_loop (heap[pos := parent]) startpos parentpos newitem
         else heap[pos := newitem])
      else heap[pos := newitem])"
  by pat_completeness auto
termination
  by (relation "measure (\<lambda>(heap, startpos, pos, newitem). pos)") auto

declare siftdown_loop.simps [simp del]

definition siftdown :: "heap_item list \<Rightarrow> nat \<Rightarrow> nat \<Rightarrow> heap_item list" where
  "siftdown heap startpos pos = siftdown_loop heap startpos pos (heap ! pos)"

text \<open>
  \<^verbatim>\<open>heapq._siftup(heap, pos)\<close>: the smaller child moves up until a leaf is reached, then
  \<^verbatim>\<open>newitem\<close> is put there and sifted back towards \<^verbatim>\<open>startpos\<close>.
\<close>

function siftup_loop :: "heap_item list \<Rightarrow> nat \<Rightarrow> heap_item list \<times> nat" where
  "siftup_loop heap pos =
     (let childpos = 2 * pos + 1 in
      if childpos < length heap then
        (let rightpos = childpos + 1;
             childpos = (if rightpos < length heap \<and> \<not> item_lt (heap ! childpos) (heap ! rightpos)
                         then rightpos else childpos)
         in siftup_loop (heap[pos := heap ! childpos]) childpos)
      else (heap, pos))"
  by pat_completeness auto
termination
  by (relation "measure (\<lambda>(heap, pos). length heap - pos)") (auto simp: Let_def)

declare siftup_loop.simps [simp del]

definition siftup :: "heap_item list \<Rightarrow> nat \<Rightarrow> heap_item list" where
  "siftup heap pos =
     (let newitem = heap ! pos;
          (heap', pos') = siftup_loop heap pos
      in siftdown (heap'[pos' := newitem]) pos pos')"

text \<open>\<^verbatim>\<open>heapq.heappush\<close> and \<^verbatim>\<open>heapq.heappop\<close> (the latter is only called on a non-empty list).\<close>

definition heappush :: "heap_item list \<Rightarrow> heap_item \<Rightarrow> heap_item list" where
  "heappush heap item = siftdown (heap @ [item]) 0 (length heap)"

definition heappop :: "heap_item list \<Rightarrow> heap_item \<times> heap_item list" where
  "heappop heap =
     (let lastelt = last heap; heap = butlast heap in
      if heap \<noteq> [] then
        (let returnitem = heap ! 0; heap = heap[0 := lastelt] in (returnitem, siftup heap 0))
      else (lastelt, heap))"

section \<open>The two searches\<close>

text \<open>
  Both searches are \<^verbatim>\<open>while frontier: ...\<close> loops that return from inside the body.  One
  turn of a body either ends the call (with a value or an exception) or hands the next
  loop state on.  A loop that never ends has the value \<open>None\<close>.
\<close>

datatype 'st turn = Done "py_error + State option" | Continue 'st

partial_function (option) while_frontier ::
  "('st \<Rightarrow> bool) \<Rightarrow> ('st \<Rightarrow> 'st turn) \<Rightarrow> 'st \<Rightarrow> (py_error + State option) option" where
  "while_frontier nonempty body st =
     (if nonempty st then
        (case body st of Done r \<Rightarrow> Some r | Continue st' \<Rightarrow> while_frontier nonempty body st')
      else Some (Inr None))"

declare while_frontier.simps [code]

text \<open>\<^verbatim>\<open>state.f = state.depth + state.hfn\<close>.\<close>

definition set_f :: "State \<Rightarrow> int \<Rightarrow> State" where
  "set_f state v = State (board state) (hfn state) v (depth state) (parent state)"

text \<open>The \<^verbatim>\<open>for state in successors\<close> loop of \<^verbatim>\<open>astar\<close>.\<close>

definition astar_push :: "string set \<Rightarrow> State \<Rightarrow> heap_item list \<Rightarrow> heap_item list" where
  "astar_push visited state heap_lst =
     (if Board_str (board state) \<notin> visited then
        (let state = set_f state (depth state + hfn state)
         in heappush heap_lst (f_value state, state))
      else heap_lst)"

definition astar_body :: "Board \<Rightarrow> heap_item list \<times> string set \<Rightarrow> (heap_item list \<times> string set) turn" where
  "astar_body goal_board st =
     (let (heap_lst, visited) = st;
          ((curr_f, curr), heap_lst) = heappop heap_lst in
      if Board_str (board curr) \<notin> visited then
        (let visited = insert (Board_str (board curr)) visited in
         if Board_eq (board curr) (PyBoard goal_board) then Done (Inr (Some curr))
         else
           (case generate_successors curr of
              Inl e \<Rightarrow> Done (Inl e)
            | Inr successors \<Rightarrow> Continue (fold (astar_push visited) successors heap_lst, visited)))
      else Continue (heap_lst, visited))"

definition astar :: "State \<Rightarrow> Board \<Rightarrow> (py_error + State option) option" where
  "astar initial goal_board =
     while_frontier (\<lambda>st. fst st \<noteq> []) (astar_body goal_board)
       (heappush [] (f_value initial, initial), {})"

text \<open>
  \<^verbatim>\<open>dfs\<close>: the stack is a Python list, \<^verbatim>\<open>pop()\<close> takes its last element and \<^verbatim>\<open>append\<close>
  adds at the end.
\<close>

definition dfs_push :: "string set \<Rightarrow> State \<Rightarrow> State list \<Rightarrow> State list" where
  "dfs_push visited state stack =
     (if Board_str (board state) \<notin> visited then stack @ [state] else stack)"

definition dfs_body :: "Board \<Rightarrow> State list \<times> string set \<Rightarrow> (State list \<times> string set) turn" where
  "dfs_body goal_board st =
     (let (stack, visited) = st;
          curr = last stack; stack = butlast stack in
      if Board_str (board curr) \<notin> visited then
        (let visited = insert (Board_str (board curr)) visited in
         if Board_eq (board curr) (PyBoard goal_board) then Done (Inr (Some curr))
         else
           (case generate_successors curr of
              Inl e \<Rightarrow> Done (Inl e)
            | Inr successors \<Rightarrow> Continue (fold (dfs_push visited) successors stack, visited)))
      else Continue (stack, visited))"

definition dfs :: "State \<Rightarrow> Board \<Rightarrow> (py_error + State option) option" where
  "dfs initial goal_board =
     while_frontier (\<lambda>st. fst st \<noteq> []) (dfs_body goal_board) ([initial], {})"


section \<open>Cloning on a store of piece objects\<close>

text \<open>
  Pieces are mutable objects and \<^verbatim>\<open>set_coords\<close> assigns their fields in place, so whether
  \<^verbatim>\<open>copy_board\<close> leaves its source alone depends on which objects the two boards share.
  This second model of \<^verbatim>\<open>copy_board\<close> keeps the piece objects in a store: an address is an
  index into the list of all piece objects, \<^verbatim>\<open>Piece(...)\<close> allocates at the end, and a piece
  dictionary holds addresses.  The grid and the dictionary of the new board are fresh
  objects made by the call (\<^verbatim>\<open>pieces = {}\<close>, the list comprehension of \<^verbatim>\<open>update_grid\<close>);
  the goal dictionary is shared and never assigned.
\<close>

type_synonym addr = nat

type_synonym piece_store = "Piece list"

record Board_ref =
  ref_height :: int
  ref_pieces :: "((int \<times> int) \<times> addr) list"
  ref_goal_board_dict :: "(nat \<times> Piece) list option"
  ref_grid :: grid_t

definition load_pieces :: "piece_store \<Rightarrow> ((int \<times> int) \<times> addr) list \<Rightarrow> ((int \<times> int) \<times> Piece) list" where
  "load_pieces st d = map (\<lambda>ka. (fst ka, st ! snd ka)) d"

definition load_board :: "piece_store \<Rightarrow> Board_ref \<Rightarrow> Board" where
  "load_board st rb =
     \<lparr>height = ref_height rb, pieces = load_pieces st (ref_pieces rb),
      goal_board_dict = ref_goal_board_dict rb, grid = ref_grid rb\<rparr>"

definition alloc_piece :: "piece_store \<Rightarrow> Piece \<Rightarrow> piece_store \<times> addr" where
  "alloc_piece st p = (st @ [p], length st)"

text \<open>The loop \<^verbatim>\<open>for piece_key in self.pieces: pieces[piece_key] = Piece(...)\<close>.\<close>

fun copy_pieces_ref ::
  "piece_store \<Rightarrow> ((int \<times> int) \<times> addr) list \<Rightarrow> ((int \<times> int) \<times> addr) list
   \<Rightarrow> piece_store \<times> ((int \<times> int) \<times> addr) list" where
  "copy_pieces_ref st [] acc = (st, acc)"
| "copy_pieces_ref st ((piece_key, a) # rest) acc =
     (let piece = st ! a;
          (st', a') = alloc_piece st
             \<lparr>is_2_by_2 = is_2_by_2 piece, is_single = is_single piece,
              coord_x = coord_x piece, coord_y = coord_y piece,
              orientation = orientation piece, uid = uid piece\<rparr>
      in copy_pieces_ref st' rest (dict_set acc piece_key a'))"

definition copy_board_ref ::
  "piece_store \<Rightarrow> Board_ref \<Rightarrow> int \<times> int \<Rightarrow> int \<times> int \<Rightarrow> py_error + (piece_store \<times> Board_ref)" where
  "copy_board_ref st self new_key old =
     (let (st1, ps) = copy_pieces_ref st (ref_pieces self) [] in
      bind_err (update_grid (ref_height self) (load_pieces st1 ps)) (\<lambda>g0.
      let board = \<lparr>ref_height = ref_height self, ref_pieces = ps,
                   ref_goal_board_dict = ref_goal_board_dict self, ref_grid = g0\<rparr> in
      bind_err (dict_pop (ref_pieces board) old) (\<lambda>(moved, rest).
      let ps1 = dict_set rest new_key moved in
      bind_err (dict_get ps1 new_key) (\<lambda>a.
      let st2 = st1[a := set_coords (st1 ! a) (fst new_key) (snd new_key)] in
      bind_err (update_grid (ref_height board) (load_pieces st2 ps1)) (\<lambda>g.
      Inr (st2, board\<lparr>ref_pieces := ps1, ref_grid := g\<rparr>))))))"


section \<open>Predicates used in the statements\<close>

text \<open>
  \<^verbatim>\<open>Piece(is_2_by_2, is_single, coord_x, coord_y, orientation, uid)\<close> with an explicit uid.
\<close>

definition Piece_init :: "bool \<Rightarrow> bool \<Rightarrow> int \<Rightarrow> int \<Rightarrow> string option \<Rightarrow> nat \<Rightarrow> Piece" where
  "Piece_init b2 s x y orient u =
     \<lparr>is_2_by_2 = b2, is_single = s, coord_x = x, coord_y = y, orientation = orient, uid = u\<rparr>"

text \<open>A cell \<open>(x, y)\<close> of a board of height \<open>h\<close>: column in \<open>[0, width)\<close>, row in \<open>[0, h)\<close>.\<close>

definition in_grid :: "int \<Rightarrow> int \<times> int \<Rightarrow> bool" where
  "in_grid h c = (0 \<le> fst c \<and> fst c < width \<and> 0 \<le> snd c \<and> snd c < h)"

text \<open>A grid of \<open>h\<close> rows of \<open>width\<close> symbols.\<close>

definition grid_dims :: "int \<Rightarrow> grid_t \<Rightarrow> bool" where
  "grid_dims h g = (length g = nat h \<and> (\<forall>row \<in> set g. length row = nat width))"

text \<open>The cells a piece occupies: the cells \<^verbatim>\<open>update_grid\<close> assigns for it.\<close>

definition footprint :: "Piece \<Rightarrow> (int \<times> int) set" where
  "footprint p = fst ` set (stamp_cells p)"


text \<open>
  A piece of one of the four shapes of the puzzle.  (The constructor accepts any flags; the
  loader only builds these.)
\<close>

definition proper_piece :: "Piece \<Rightarrow> bool" where
  "proper_piece p =
     (is_2_by_2 p \<or> is_single p \<or> orientation p = Some ''h'' \<or> orientation p = Some ''v'')"

text \<open>
  A legal single slide of piece \<open>p\<close> on board \<open>b\<close> to the top-left cell \<open>d\<close>: \<open>d\<close> is one
  step left, up, right or down of the piece; the footprint at \<open>d\<close> lies inside the board;
  and every cell the piece newly covers (its leading edge: the footprint at \<open>d\<close> without
  the current footprint) is empty in the grid.
\<close>

definition slide_steps :: "Piece \<Rightarrow> (int \<times> int) list" where
  "slide_steps p =
     [(coord_x p - 1, coord_y p), (coord_x p, coord_y p - 1),
      (coord_x p + 1, coord_y p), (coord_x p, coord_y p + 1)]"

definition legal_dest :: "Board \<Rightarrow> Piece \<Rightarrow> int \<times> int \<Rightarrow> bool" where
  "legal_dest b p d =
     (d \<in> set (slide_steps p)
      \<and> (\<forall>c \<in> footprint (set_coords p (fst d) (snd d)). in_grid (height b) c)
      \<and> (\<forall>c \<in> footprint (set_coords p (fst d) (snd d)).
            c \<notin> footprint p \<longrightarrow> is_empty (grid b) (snd c) (fst c) = Inr True))"


text \<open>
  The invariant of the data model: the dictionary has distinct keys; each piece is stored
  under its own top-left coordinates, has one of the four shapes and lies on the board;
  no two footprints share a cell; and the grid is the one \<^verbatim>\<open>update_grid\<close> derives from the
  pieces.
\<close>

definition key_of :: "Piece \<Rightarrow> int \<times> int" where
  "key_of p = (coord_x p, coord_y p)"

definition wf_board :: "Board \<Rightarrow> bool" where
  "wf_board b =
     (distinct (map fst (pieces b))
      \<and> (\<forall>kp \<in> set (pieces b).
            fst kp = key_of (snd kp) \<and> proper_piece (snd kp)
            \<and> (\<forall>c \<in> footprint (snd kp). in_grid (height b) c))
      \<and> (\<forall>kp \<in> set (pieces b). \<forall>kq \<in> set (pieces b).
            kp \<noteq> kq \<longrightarrow> footprint (snd kp) \<inter> footprint (snd kq) = {})
      \<and> update_grid (height b) (pieces b) = Inr (grid b))"


text \<open>The successors of one piece: one state per destination, in order.\<close>

definition piece_succ_rel :: "State \<Rightarrow> Piece \<Rightarrow> State list \<Rightarrow> bool" where
  "piece_succ_rel s p ss =
     (\<exists>ks. piece_new_keys (board s) p = Inr ks \<and> map (successor_for s p) ks = map Inr ss)"


text \<open>
  The goal dictionary \<open>gd\<close> and the goal board name the same goal pieces: the goal board's
  pieces have distinct uids, and \<open>gd\<close> maps each of these uids to that piece and no other
  uid to anything.  (The loader stores every goal piece in both under the same uid.)
\<close>

definition goal_consistent :: "(nat \<times> Piece) list \<Rightarrow> Board \<Rightarrow> bool" where
  "goal_consistent gd goal_board =
     (distinct (map (\<lambda>kg. uid (snd kg)) (pieces goal_board))
      \<and> map_of gd = map_of (map (\<lambda>kg. (uid (snd kg), snd kg)) (pieces goal_board)))"

text \<open>
  The heuristic read through the goal dictionary: the sum over the pieces of the Manhattan
  distance to the goal piece of the same uid.
\<close>

definition goal_distance :: "(nat \<times> Piece) list \<Rightarrow> Piece \<Rightarrow> int" where
  "goal_distance gd p =
     (case map_of gd (uid p) of
        None \<Rightarrow> 0
      | Some g \<Rightarrow> \<bar>coord_x g - coord_x p\<bar> + \<bar>coord_y g - coord_y p\<bar>)"

definition heuristic_sum :: "(nat \<times> Piece) list \<Rightarrow> Board \<Rightarrow> int" where
  "heuristic_sum gd b = sum_list (map (\<lambda>kp. goal_distance gd (snd kp)) (pieces b))"


text \<open>
  The heap order of a \<^verbatim>\<open>heapq\<close> list: no item has a smaller first component than its
  parent at \<open>(i - 1) div 2\<close>.
\<close>

definition heap_ok :: "heap_item list \<Rightarrow> bool" where
  "heap_ok h = (\<forall>i < length h. 0 < i \<longrightarrow> fst (h ! ((i - 1) div 2)) \<le> fst (h ! i))"

text \<open>The child \<open>siftup_loop\<close> moves up: the right one when it exists and the left one is not smaller.\<close>

definition smaller_child :: "heap_item list \<Rightarrow> nat \<Rightarrow> nat" where
  "smaller_child h pos =
     (if 2 * pos + 2 < length h \<and> \<not> item_lt (h ! (2 * pos + 1)) (h ! (2 * pos + 2))
      then 2 * pos + 2 else 2 * pos + 1)"


text \<open>
  The state of the frontier of \<^verbatim>\<open>astar\<close>: the list is in heap order and every item carries
  the \<open>f\<close> of its state as its first component.
\<close>

definition astar_heap_ok :: "heap_item list \<Rightarrow> bool" where
  "astar_heap_ok h = (heap_ok h \<and> (\<forall>it \<in> set h. fst it = f_value (snd it)))"


text \<open>
  The loop state after \<open>n\<close> complete turns of a search loop, when the loop gets that far.
\<close>

fun after_turns :: "('st \<Rightarrow> bool) \<Rightarrow> ('st \<Rightarrow> 'st turn) \<Rightarrow> nat \<Rightarrow> 'st \<Rightarrow> 'st option" where
  "after_turns nonempty body 0 st = Some st"
| "after_turns nonempty body (Suc n) st =
     (if nonempty st then
        (case body st of Done r \<Rightarrow> None | Continue st' \<Rightarrow> after_turns nonempty body n st')
      else None)"

text \<open>
  The two loop bodies differ only in how the frontier is popped and pushed: both are this
  body, \<^verbatim>\<open>astar\<close> with the heap operations and \<^verbatim>\<open>dfs\<close> with the list operations.
\<close>

definition search_body ::
  "('fr \<Rightarrow> State \<times> 'fr) \<Rightarrow> (string set \<Rightarrow> State \<Rightarrow> 'fr \<Rightarrow> 'fr) \<Rightarrow> Board
   \<Rightarrow> 'fr \<times> string set \<Rightarrow> ('fr \<times> string set) turn" where
  "search_body pop push goal_board st =
     (let (fr, visited) = st;
          (curr, fr) = pop fr in
      if Board_str (board curr) \<notin> visited then
        (let visited = insert (Board_str (board curr)) visited in
         if Board_eq (board curr) (PyBoard goal_board) then Done (Inr (Some curr))
         else
           (case generate_successors curr of
              Inl e \<Rightarrow> Done (Inl e)
            | Inr successors \<Rightarrow> Continue (fold (push visited) successors fr, visited)))
      else Continue (fr, visited))"

definition astar_pop :: "heap_item list \<Rightarrow> State \<times> heap_item list" where
  "astar_pop heap_lst = (let ((curr_f, curr), heap_lst) = heappop heap_lst in (curr, heap_lst))"

definition dfs_pop :: "State list \<Rightarrow> State \<times> State list" where
  "dfs_pop stack = (last stack, butlast stack)"

text \<open>
  A turn that starts in loop state \<open>st\<close> expands: the frontier is not empty, the popped
  node's grid string is not in the visited set and its board is not the goal, so the body
  calls \<^verbatim>\<open>generate_successors\<close> on it.  The value is the grid string expanded.
\<close>

definition expands ::
  "('fr \<Rightarrow> bool) \<Rightarrow> ('fr \<Rightarrow> State \<times> 'fr) \<Rightarrow> Board \<Rightarrow> 'fr \<times> string set \<Rightarrow> string option" where
  "expands nonempty pop goal_board st =
     (let node = fst (pop (fst st)) in
      if nonempty (fst st) \<and> Board_str (board node) \<notin> snd st
         \<and> \<not> Board_eq (board node) (PyBoard goal_board)
      then Some (Board_str (board node)) else None)"

text \<open>
  How a search call ends with \<open>r\<close>: after some number of complete turns the loop is in a
  state where either the frontier is empty and \<open>r\<close> is \<^verbatim>\<open>None\<close>, or the popped node is not
  yet visited and either its board equals the goal board and \<open>r\<close> is that node, or
  \<^verbatim>\<open>generate_successors\<close> raises on it and \<open>r\<close> is that exception.
\<close>

definition search_outcome ::
  "('fr \<Rightarrow> bool) \<Rightarrow> ('fr \<Rightarrow> State \<times> 'fr) \<Rightarrow> Board \<Rightarrow> ('fr \<times> string set \<Rightarrow> ('fr \<times> string set) turn)
   \<Rightarrow> 'fr \<times> string set \<Rightarrow> py_error + State option \<Rightarrow> bool" where
  "search_outcome nonempty pop goal_board body st0 r =
     (\<exists>n fr v. after_turns (\<lambda>st. nonempty (fst st)) body n st0 = Some (fr, v)
        \<and> (if nonempty fr then
             (let node = fst (pop fr) in
              Board_str (board node) \<notin> v
              \<and> (if Board_eq (board node) (PyBoard goal_board) then r = Inr (Some node)
                  else (\<exists>e. generate_successors node = Inl e \<and> r = Inl e)))
           else r = Inr None))"

text \<open>The symbols of a grid, and the grids of height \<open>h\<close> over them.\<close>

definition grid_alphabet :: "char set" where
  "grid_alphabet = {CHR ''.'', CHR ''1'', CHR ''2'', CHR ''<'', CHR ''>'', CHR ''^'', CHR ''v''}"

definition grids_of :: "int \<Rightarrow> grid_t set" where
  "grids_of h = {g. length g = nat h \<and> (\<forall>row \<in> set g. length row = nat width \<and> set row \<subseteq> grid_alphabet)}"

text \<open>
  A state ready for expansion: its board is well formed and its goal dictionary is set and
  has an entry for the uid of every piece.
\<close>

definition ready :: "State \<Rightarrow> bool" where
  "ready s =
     (wf_board (board s)
      \<and> (case goal_board_dict (board s) of
            None \<Rightarrow> False
          | Some gd \<Rightarrow> \<forall>kp \<in> set (pieces (board s)). uid (snd kp) \<in> fst ` set gd))"

text \<open>
  The order in which a search loop makes progress: a turn either visits a grid string not
  visited before, or leaves the visited set alone and shortens the frontier.  \<open>U\<close> is the
  set of grid strings that can occur and \<open>sts\<close> gives the states held in a frontier.
\<close>

definition search_rel :: "string set \<Rightarrow> ('fr \<Rightarrow> State multiset) \<Rightarrow> (('fr \<times> string set) \<times> ('fr \<times> string set)) set" where
  "search_rel U sts =
     inv_image (less_than <*lex*> less_than) (\<lambda>st. (card (U - snd st), size (sts (fst st))))"

definition astar_states :: "heap_item list \<Rightarrow> State multiset" where
  "astar_states heap_lst = image_mset snd (mset heap_lst)"

text \<open>The grid strings of the boards of height \<open>h\<close>, and the string of the root board.\<close>

definition grid_strings :: "int \<Rightarrow> Board \<Rightarrow> string set" where
  "grid_strings h b0 = insert (Board_str b0) ((\<lambda>g. concat (map py_str_row g)) ` grids_of h)"

definition on_board :: "int \<Rightarrow> Board \<Rightarrow> State \<Rightarrow> bool" where
  "on_board h b0 s = (height (board s) = h \<and> Board_str (board s) \<in> grid_strings h b0)"


section \<open>The loader\<close>

text \<open>
  \<^verbatim>\<open>read_from_file\<close> reads the lines of the puzzle file; the model takes the list of lines as
  the file object yields them (each with its newline).  The local variables of the function
  are the fields of \<open>loader\<close>, named as in the source with the prefix \<open>l_\<close> (\<open>l_height\<close> is
  \<^verbatim>\<open>height_\<close>).  \<^verbatim>\<open>uuid.uuid4()\<close> yields a uid never seen before; the model draws them from
  a counter, \<open>l_next_uid\<close>.
\<close>

record loader =
  l_goal_board_dict :: "(nat \<times> Piece) list"
  l_singles :: "Piece list"
  l_vert :: "Piece list"
  l_hori :: "Piece list"
  l_double :: "Piece option"
  l_line_index :: int
  l_pieces :: "((int \<times> int) \<times> Piece) list"
  l_final_pieces :: "((int \<times> int) \<times> Piece) list"
  l_final :: bool
  l_found_2by2 :: bool
  l_finalfound_2by2 :: bool
  l_height :: int
  l_next_uid :: nat

definition loader_init :: loader where
  "loader_init =
     \<lparr>l_goal_board_dict = [], l_singles = [], l_vert = [], l_hori = [], l_double = None,
      l_line_index = 0, l_pieces = [], l_final_pieces = [], l_final = False,
      l_found_2by2 = False, l_finalfound_2by2 = False, l_height = 0, l_next_uid = 0\<rparr>"

text \<open>
  \<^verbatim>\<open>find_min_index(arr, x, y)\<close>: \<^verbatim>\<open>min_dist\<close> starts as \<^verbatim>\<open>float('inf')\<close>, here \<open>None\<close>; the
  comparison is strict, so the first index with the least distance is kept.
\<close>

definition find_min_index :: "Piece list \<Rightarrow> int \<Rightarrow> int \<Rightarrow> nat" where
  "find_min_index arr x y =
     fst (fold (\<lambda>i (min_i, min_dist).
                  let piece = arr ! i;
                      new_dist = \<bar>x - coord_x piece\<bar> + \<bar>y - coord_y piece\<bar>
                  in if (case min_dist of None \<Rightarrow> True | Some m \<Rightarrow> new_dist < m)
                     then (i, Some new_dist) else (min_i, min_dist))
            [0 ..< length arr] (0, None))"

text \<open>\<^verbatim>\<open>list.pop(i)\<close> for an index that is not negative.\<close>

definition list_pop :: "'a list \<Rightarrow> nat \<Rightarrow> py_error + ('a \<times> 'a list)" where
  "list_pop xs i =
     (if i < length xs then Inr (xs ! i, take i xs @ drop (Suc i) xs) else Inl IndexError)"

text \<open>\<^verbatim>\<open>pool.pop(find_min_index(pool, x, line_index)).uid\<close>: the uid taken and the pool left.\<close>

definition match_piece :: "Piece list \<Rightarrow> int \<Rightarrow> int \<Rightarrow> py_error + (nat \<times> Piece list)" where
  "match_piece pool x y =
     bind_err (list_pop pool (find_min_index pool x y)) (\<lambda>(piece, rest). Inr (uid piece, rest))"

text \<open>A \<^verbatim>\<open>Piece(...)\<close> call without uid, and the bookkeeping of one symbol of the initial layout.\<close>

definition new_piece :: "loader \<Rightarrow> bool \<Rightarrow> bool \<Rightarrow> int \<Rightarrow> string option \<Rightarrow> Piece \<times> loader" where
  "new_piece st b2 s x orient =
     (Piece_init b2 s x (l_line_index st) orient (l_next_uid st),
      st\<lparr>l_next_uid := Suc (l_next_uid st)\<rparr>)"

definition initial_char :: "int \<times> char \<Rightarrow> loader \<Rightarrow> py_error + loader" where
  "initial_char xc st =
     (let x = fst xc; ch = snd xc in
      if ch = CHR ''^'' then
        (let (piece, st) = new_piece st False False x (Some ''v'') in
         Inr (st\<lparr>l_pieces := dict_set (l_pieces st) (x, l_line_index st) piece,
                 l_vert := l_vert st @ [piece]\<rparr>))
      else if ch = CHR ''<'' then
        (let (piece, st) = new_piece st False False x (Some ''h'') in
         Inr (st\<lparr>l_pieces := dict_set (l_pieces st) (x, l_line_index st) piece,
                 l_hori := l_hori st @ [piece]\<rparr>))
      else if ch = char_single then
        (let (piece, st) = new_piece st False True x None in
         Inr (st\<lparr>l_pieces := dict_set (l_pieces st) (x, l_line_index st) piece,
                 l_singles := l_singles st @ [piece]\<rparr>))
      else if ch = CHR ''1'' then
        (if l_found_2by2 st = False then
           (let (piece, st) = new_piece st True False x None in
            Inr (st\<lparr>l_pieces := dict_set (l_pieces st) (x, l_line_index st) piece,
                    l_double := Some piece, l_found_2by2 := True\<rparr>))
         else Inr st)
      else Inr st)"

text \<open>
  One symbol of the goal layout.  The goal piece gets the uid of the matched initial piece
  and is stored in \<^verbatim>\<open>final_pieces\<close> and in \<^verbatim>\<open>goal_board_dict\<close>.  Popping from an empty pool is
  an \<^verbatim>\<open>IndexError\<close>; \<^verbatim>\<open>double.uid\<close> with \<^verbatim>\<open>double\<close> still \<^verbatim>\<open>None\<close> is an \<^verbatim>\<open>AttributeError\<close>.
\<close>

definition store_goal :: "loader \<Rightarrow> Piece \<Rightarrow> loader" where
  "store_goal st piece =
     st\<lparr>l_final_pieces := dict_set (l_final_pieces st) (coord_x piece, coord_y piece) piece,
        l_goal_board_dict := dict_set (l_goal_board_dict st) (uid piece) piece\<rparr>"

definition goal_char :: "int \<times> char \<Rightarrow> loader \<Rightarrow> py_error + loader" where
  "goal_char xc st =
     (let x = fst xc; ch = snd xc in
      if ch = CHR ''^'' then
        bind_err (match_piece (l_vert st) x (l_line_index st)) (\<lambda>(u, rest).
          Inr (store_goal (st\<lparr>l_vert := rest\<rparr>)
                 (Piece_init False False x (l_line_index st) (Some ''v'') u)))
      else if ch = CHR ''<'' then
        bind_err (match_piece (l_hori st) x (l_line_index st)) (\<lambda>(u, rest).
          Inr (store_goal (st\<lparr>l_hori := rest\<rparr>)
                 (Piece_init False False x (l_line_index st) (Some ''h'') u)))
      else if ch = char_single then
        bind_err (match_piece (l_singles st) x (l_line_index st)) (\<lambda>(u, rest).
          Inr (store_goal (st\<lparr>l_singles := rest\<rparr>)
                 (Piece_init False True x (l_line_index st) None u)))
      else if ch = CHR ''1'' then
        (if l_finalfound_2by2 st = False then
           (case l_double st of
              None \<Rightarrow> Inl AttributeError
            | Some double \<Rightarrow>
                Inr ((store_goal st (Piece_init True False x (l_line_index st) None (uid double)))
                       \<lparr>l_finalfound_2by2 := True\<rparr>))
         else Inr st)
      else Inr st)"

text \<open>\<^verbatim>\<open>enumerate(line)\<close>, and the body of \<^verbatim>\<open>for line in puzzle_file\<close>.\<close>

definition enumerate_line :: "string \<Rightarrow> (int \<times> char) list" where
  "enumerate_line line = zip (map int [0 ..< length line]) line"

definition read_line :: "string \<Rightarrow> loader \<Rightarrow> py_error + loader" where
  "read_line line st =
     (let st = st\<lparr>l_height := l_height st + 1\<rparr> in
      if line = [CHR 0x0A] then
        (if \<not> l_final st
         then Inr (st\<lparr>l_height := 0, l_final := True, l_line_index := 0\<rparr>)
         else Inr st)
      else
        bind_err (if \<not> l_final st
                  then fold_err initial_char (enumerate_line line) st
                  else fold_err goal_char (enumerate_line line) st) (\<lambda>st.
        Inr (st\<lparr>l_line_index := l_line_index st + 1\<rparr>)))"

definition read_lines :: "string list \<Rightarrow> py_error + loader" where
  "read_lines file_lines = fold_err read_line file_lines loader_init"

definition read_from_file :: "string list \<Rightarrow> py_error + (Board \<times> Board)" where
  "read_from_file file_lines =
     bind_err (read_lines file_lines) (\<lambda>st.
     bind_err (Board_init (l_height st) (l_pieces st) (Some (l_goal_board_dict st))) (\<lambda>b.
     bind_err (Board_init (l_height st) (l_final_pieces st) None) (\<lambda>goal_board.
     Inr (b, goal_board))))"


section \<open>Predicates for the loader\<close>

text \<open>The distance \<^verbatim>\<open>find_min_index\<close> compares: from the cell \<open>(x, y)\<close> to a piece.\<close>

definition manhattan :: "int \<Rightarrow> int \<Rightarrow> Piece \<Rightarrow> int" where
  "manhattan x y p = \<bar>x - coord_x p\<bar> + \<bar>y - coord_y p\<bar>"

text \<open>
  The shape of a piece is what the three shape arguments of \<^verbatim>\<open>Piece(...)\<close> say.  The loader
  builds a piece for four symbols; \<open>symbol_shape\<close> gives the shape arguments it passes.
\<close>

type_synonym shape = "bool \<times> bool \<times> string option"

definition shape_of :: "Piece \<Rightarrow> shape" where
  "shape_of p = (is_2_by_2 p, is_single p, orientation p)"

definition piece_symbols :: "char set" where
  "piece_symbols = {CHR ''^'', CHR ''<'', char_single, CHR ''1''}"

definition symbol_shape :: "char \<Rightarrow> shape" where
  "symbol_shape ch =
     (if ch = CHR ''^'' then (False, False, Some ''v'')
      else if ch = CHR ''<'' then (False, False, Some ''h'')
      else if ch = char_single then (False, True, None)
      else (True, False, None))"

definition shaped :: "shape \<Rightarrow> int \<Rightarrow> int \<Rightarrow> nat \<Rightarrow> Piece" where
  "shaped sh x y u = Piece_init (fst sh) (fst (snd sh)) x y (snd (snd sh)) u"

text \<open>
  The pieces of the initial layout of a shape that no goal piece has been matched to yet,
  in the order in which they were loaded: \<^verbatim>\<open>pieces\<close> keeps insertion order, and a uid is
  matched once it is a key of \<^verbatim>\<open>goal_board_dict\<close>.
\<close>

definition candidates :: "loader \<Rightarrow> shape \<Rightarrow> Piece list" where
  "candidates st sh =
     filter (\<lambda>p. shape_of p = sh \<and> uid p \<notin> fst ` set (l_goal_board_dict st))
       (map snd (l_pieces st))"

text \<open>Removing the element at index \<open>i\<close> from a list.\<close>

definition remove_nth :: "nat \<Rightarrow> 'a list \<Rightarrow> 'a list" where
  "remove_nth i xs = take i xs @ drop (Suc i) xs"

text \<open>
  What holds of the loader's variables whenever the loop is about to read the symbol in
  column \<open>c\<close> of a line: uids are distinct and below the counter; in the initial layout
  the keys stored so far lie before the current cell and nothing is matched; the three
  pools are the candidates of their shapes; \<^verbatim>\<open>double\<close> is the one 2x2 piece, and
  \<^verbatim>\<open>finalfound_2by2\<close> says that it is matched.
\<close>

definition loader_inv :: "int \<Rightarrow> loader \<Rightarrow> bool" where
  "loader_inv c st =
     (distinct (map (\<lambda>kp. uid (snd kp)) (l_pieces st))
      \<and> list_all (\<lambda>kp. uid (snd kp) < l_next_uid st
                       \<and> shape_of (snd kp) \<in> symbol_shape ` piece_symbols) (l_pieces st)
      \<and> (l_final st
           \<or> (list_all (\<lambda>kp. snd (fst kp) < l_line_index st
                              \<or> (snd (fst kp) = l_line_index st \<and> fst (fst kp) < c)) (l_pieces st)
              \<and> l_goal_board_dict st = [] \<and> \<not> l_finalfound_2by2 st))
      \<and> l_vert st = candidates st (symbol_shape (CHR ''^''))
      \<and> l_hori st = candidates st (symbol_shape (CHR ''<''))
      \<and> l_singles st = candidates st (symbol_shape char_single)
      \<and> filter is_2_by_2 (map snd (l_pieces st)) = (case l_double st of None \<Rightarrow> [] | Some d \<Rightarrow> [d])
      \<and> l_found_2by2 st = (l_double st \<noteq> None)
      \<and> l_finalfound_2by2 st = (\<exists>d. l_double st = Some d \<and> uid d \<in> fst ` set (l_goal_board_dict st)))"

text \<open>The entries of the goal dictionary of \<open>st\<close> are still there in \<open>st'\<close>.\<close>

definition goal_dict_le :: "loader \<Rightarrow> loader \<Rightarrow> bool" where
  "goal_dict_le st st' =
     (\<forall>u g. map_of (l_goal_board_dict st) u = Some g \<longrightarrow> map_of (l_goal_board_dict st') u = Some g)"


text \<open>
  A board whose goal dictionary is set and has an entry for the uid of every piece, and a
  loader that has matched every piece of the initial layout: the three pools are empty,
  and if the initial layout has a 2x2 block, the goal layout has one.
\<close>

definition goal_complete :: "Board \<Rightarrow> bool" where
  "goal_complete b =
     (case goal_board_dict b of
        None \<Rightarrow> False
      | Some gd \<Rightarrow> list_all (\<lambda>kp. uid (snd kp) \<in> fst ` set gd) (pieces b))"

definition all_matched :: "loader \<Rightarrow> bool" where
  "all_matched st =
     (l_vert st = [] \<and> l_hori st = [] \<and> l_singles st = []
      \<and> (l_found_2by2 st \<longrightarrow> l_finalfound_2by2 st))"

section \<open>Example data\<close>

text \<open>
  A board of two rows: a horizontal piece at \<open>(0, 0)\<close> and a single at \<open>(2, 0)\<close>; in the goal
  layout the horizontal piece is at \<open>(0, 1)\<close> and the single at \<open>(3, 1)\<close>.
\<close>

definition ex_h :: Piece where
  "ex_h = Piece_init False False 0 0 (Some ''h'') 1"

definition ex_s :: Piece where
  "ex_s = Piece_init False True 2 0 None 2"

definition ex_goal_dict :: "(nat \<times> Piece) list" where
  "ex_goal_dict = [(1, Piece_init False False 0 1 (Some ''h'') 1), (2, Piece_init False True 3 1 None 2)]"

definition ex_board :: Board where
  "ex_board = \<lparr>height = 2, pieces = [((0, 0), ex_h), ((2, 0), ex_s)],
                goal_board_dict = Some ex_goal_dict, grid = [''<>2.'', ''....'']\<rparr>"

text \<open>The same board with its pieces in a store, at addresses 0 and 1.\<close>

definition ex_store :: piece_store where
  "ex_store = [ex_h, ex_s]"

definition ex_board_ref :: Board_ref where
  "ex_board_ref = \<lparr>ref_height = 2, ref_pieces = [((0, 0), 0), ((2, 0), 1)],
                    ref_goal_board_dict = Some ex_goal_dict, ref_grid = [''<>2.'', ''....'']\<rparr>"

text \<open>A board of one row with two singles side by side.\<close>

definition ex_two_singles :: Board where
  "ex_two_singles =
     \<lparr>height = 1,
      pieces = [((0, 0), Piece_init False True 0 0 None 1), ((1, 0), Piece_init False True 1 0 None 2)],
      goal_board_dict = None, grid = [''22..'']\<rparr>"

text \<open>The goal board of the example, and the root state of a best-first search on it.\<close>

definition ex_goal_board :: Board where
  "ex_goal_board =
     \<lparr>height = 2,
      pieces = [((0, 1), Piece_init False False 0 1 (Some ''h'') 1),
                ((3, 1), Piece_init False True 3 1 None 2)],
      goal_board_dict = None, grid = [''....'', ''<>.2'']\<rparr>"

definition ex_state :: State where
  "ex_state = State ex_board 3 3 0 None"

text \<open>
  A puzzle of one row with one single piece: it starts at \<open>(0, 0)\<close> and its goal is
  \<open>(2, 0)\<close>.
\<close>

definition ex_row_goal_dict :: "(nat \<times> Piece) list" where
  "ex_row_goal_dict = [(5, Piece_init False True 2 0 None 5)]"

definition ex_row_board :: Board where
  "ex_row_board = \<lparr>height = 1, pieces = [((0, 0), Piece_init False True 0 0 None 5)],
                    goal_board_dict = Some ex_row_goal_dict, grid = [''2...'']\<rparr>"

definition ex_row_goal :: Board where
  "ex_row_goal = \<lparr>height = 1, pieces = [((2, 0), Piece_init False True 2 0 None 5)],
                   goal_board_dict = None, grid = [''..2.'']\<rparr>"

definition ex_row_state :: State where
  "ex_row_state = State ex_row_board 2 2 0 None"

text \<open>
  A puzzle file: a 2x2 block and a single in the initial layout, the block alone in the
  goal layout.
\<close>

definition ex_file_unmatched :: "string list" where
  "ex_file_unmatched =
     [''11..'' @ [CHR 0x0A], ''11.2'' @ [CHR 0x0A], [CHR 0x0A],
      ''11..'' @ [CHR 0x0A], ''11..'' @ [CHR 0x0A]]"

text \<open>
  A puzzle file with three singles: the first goal single, at \<open>(3, 0)\<close>, is at distance 3
  from the first initial single and at distance 1 from the second and the third.
\<close>

definition ex_file_match :: "string list" where
  "ex_file_match =
     [''2.2.'' @ [CHR 0x0A], ''...2'' @ [CHR 0x0A], [CHR 0x0A],
      ''...2'' @ [CHR 0x0A], ''2.2.'' @ [CHR 0x0A]]"

section \<open>The derived grid\<close>

lemma py_index_nonneg: "0 \<le> i \<Longrightarrow> i < int (length xs) \<Longrightarrow> py_index xs i = Some (nat i)"
  by (simp add: py_index_def)

lemma grid_dims_nth: "grid_dims h g \<Longrightarrow> i < length g \<Longrightarrow> length (g ! i) = nat width"
  by (simp add: grid_dims_def)

lemma grid_dims_blank: "grid_dims h (blank_grid h)"
  by (simp add: grid_dims_def blank_grid_def)

lemma grid_set_in_grid:
  assumes "grid_dims h g" "in_grid h (x, y)"
  shows "grid_set g y x ch = Inr (g[nat y := (g ! nat y)[nat x := ch]])"
proof -
  from assms have y: "0 \<le> y" "y < int (length g)" and x: "0 \<le> x" "x < width"
    by (auto simp: grid_dims_def in_grid_def)
  from assms y have "length (g ! nat y) = nat width"
    by (simp add: grid_dims_nth)
  with x have "py_index (g ! nat y) x = Some (nat x)"
    by (simp add: py_index_nonneg)
  with y show ?thesis
    by (simp add: grid_set_def py_index_nonneg)
qed

lemma grid_get_in_grid:
  assumes "grid_dims h g" "in_grid h (x, y)"
  shows "grid_get g y x = Inr (g ! nat y ! nat x)"
proof -
  from assms have y: "0 \<le> y" "y < int (length g)" and x: "0 \<le> x" "x < width"
    by (auto simp: grid_dims_def in_grid_def)
  from assms y have "length (g ! nat y) = nat width"
    by (simp add: grid_dims_nth)
  with x have "py_index (g ! nat y) x = Some (nat x)"
    by (simp add: py_index_nonneg)
  with y show ?thesis
    by (simp add: grid_get_def py_index_nonneg)
qed

lemma grid_dims_update:
  assumes "grid_dims h g"
  shows "grid_dims h (g[r := (g ! r)[c := ch]])"
proof -
  have "length row = nat width" if "row \<in> set (g[r := (g ! r)[c := ch]])" for row
  proof -
    from that have "row \<in> insert ((g ! r)[c := ch]) (set g)"
      using set_update_subset_insert by fastforce
    moreover have "r < length g \<Longrightarrow> length ((g ! r)[c := ch]) = nat width"
      using assms by (simp add: grid_dims_def)
    moreover have "\<not> r < length g \<Longrightarrow> g[r := (g ! r)[c := ch]] = g"
      by (simp add: list_update_beyond)
    ultimately show ?thesis using assms that
      by (cases "r < length g") (auto simp: grid_dims_def)
  qed
  with assms show ?thesis by (simp add: grid_dims_def)
qed

lemma grid_set_dims: "grid_dims h g \<Longrightarrow> grid_set g y x ch = Inr g' \<Longrightarrow> grid_dims h g'"
  by (auto simp: grid_set_def grid_dims_update split: option.splits)

lemma grid_update_nth:
  assumes "grid_dims h g" "in_grid h (x, y)" "in_grid h (x', y')"
  shows "g[nat y := (g ! nat y)[nat x := ch]] ! nat y' ! nat x' =
         (if (x', y') = (x, y) then ch else g ! nat y' ! nat x')"
proof -
  from assms have b: "nat y < length g" "nat y' < length g" "nat x < length (g ! nat y)"
    by (auto simp: grid_dims_def in_grid_def)
  from assms have e: "nat y' = nat y \<longleftrightarrow> y' = y" "nat x' = nat x \<longleftrightarrow> x' = x"
    by (auto simp: in_grid_def)
  show ?thesis using b e
    by (auto simp: nth_list_update)
qed

lemma fold_write_cells:
  assumes "grid_dims h g" "\<forall>w \<in> set ws. in_grid h (fst w)"
  shows "\<exists>g'. fold_err write_cell ws g = Inr g' \<and> grid_dims h g' \<and>
           (\<forall>c. in_grid h c \<longrightarrow>
              g' ! nat (snd c) ! nat (fst c) =
                (case map_of (rev ws) c of None \<Rightarrow> g ! nat (snd c) ! nat (fst c) | Some ch \<Rightarrow> ch))"
  using assms
proof (induction ws arbitrary: g)
  case Nil
  then show ?case by simp
next
  case (Cons w ws)
  obtain x y ch where w: "w = ((x, y), ch)" by (metis surj_pair)
  let ?g1 = "g[nat y := (g ! nat y)[nat x := ch]]"
  from Cons.prems w have inw: "in_grid h (x, y)" by simp
  have step: "write_cell w g = Inr ?g1"
    using grid_set_in_grid[OF Cons.prems(1) inw] w by (simp add: write_cell_def)
  have d1: "grid_dims h ?g1" using Cons.prems(1) by (rule grid_dims_update)
  from Cons.IH[OF d1] Cons.prems(2)
  obtain g' where g': "fold_err write_cell ws ?g1 = Inr g'" "grid_dims h g'"
    and cells: "\<And>c. in_grid h c \<Longrightarrow> g' ! nat (snd c) ! nat (fst c) =
                (case map_of (rev ws) c of None \<Rightarrow> ?g1 ! nat (snd c) ! nat (fst c) | Some ch \<Rightarrow> ch)"
    by auto
  have "fold_err write_cell (w # ws) g = Inr g'"
    using step g' by (simp add: bind_err_def)
  moreover have "g' ! nat (snd c) ! nat (fst c) =
      (case map_of (rev (w # ws)) c of None \<Rightarrow> g ! nat (snd c) ! nat (fst c) | Some ch \<Rightarrow> ch)"
    if c: "in_grid h c" for c
  proof -
    obtain x' y' where c': "c = (x', y')" by (metis surj_pair)
    show ?thesis
      using cells[OF c] grid_update_nth[OF Cons.prems(1) inw, of x' y' ch] c
      by (auto simp: c' w map_add_def split: option.splits)
  qed
  ultimately show ?case using g' by blast
qed

lemma write_cell_error: "write_cell w g = Inl e \<Longrightarrow> e = IndexError"
  by (auto simp: write_cell_def grid_set_def split: option.splits)

lemma fold_write_cells_error: "fold_err write_cell ws g = Inl e \<Longrightarrow> e = IndexError"
proof (induction ws arbitrary: g)
  case Nil
  then show ?case by simp
next
  case (Cons w ws)
  then show ?case
    by (cases "write_cell w g") (auto simp: bind_err_def dest: write_cell_error)
qed

lemma update_grid_in_grid:
  assumes "\<forall>w \<in> set (grid_writes ps). in_grid h (fst w)"
  shows "\<exists>g. update_grid h ps = Inr g \<and> grid_dims h g \<and>
           (\<forall>x y. in_grid h (x, y) \<longrightarrow>
              grid_get g y x =
                Inr (case map_of (rev (grid_writes ps)) (x, y) of
                       None \<Rightarrow> CHR ''.'' | Some ch \<Rightarrow> ch))"
proof -
  from fold_write_cells[OF grid_dims_blank assms]
  obtain g where g: "fold_err write_cell (grid_writes ps) (blank_grid h) = Inr g" "grid_dims h g"
    and cells: "\<And>c. in_grid h c \<Longrightarrow> g ! nat (snd c) ! nat (fst c) =
         (case map_of (rev (grid_writes ps)) c of
            None \<Rightarrow> blank_grid h ! nat (snd c) ! nat (fst c) | Some ch \<Rightarrow> ch)"
    by blast
  have blank: "blank_grid h ! nat (snd c) ! nat (fst c) = CHR ''.''" if "in_grid h c" for c
    using that by (auto simp: blank_grid_def in_grid_def)
  have "grid_get g y x =
          Inr (case map_of (rev (grid_writes ps)) (x, y) of None \<Rightarrow> CHR ''.'' | Some ch \<Rightarrow> ch)"
    if c: "in_grid h (x, y)" for x y
    using grid_get_in_grid[OF g(2) c] cells[OF c] blank[OF c]
    by (simp split: option.splits)
  with g show ?thesis by (auto simp: update_grid_def)
qed

text \<open>
  C7 (as the code has it).  \<^verbatim>\<open>update_grid\<close> starts from a blank grid and assigns, piece by
  piece in dictionary order, the symbols of each footprint: four \<open>1\<close> for a 2x2 block, one
  \<open>2\<close> for a single, \<open><\<close> \<open>>\<close> for a horizontal piece, \<open>^\<close> \<open>v\<close> for a vertical one.
  It makes no overlap check.  The only exception it can raise is \<^verbatim>\<open>IndexError\<close>; when every
  assigned cell lies inside the board it returns a grid of the board's dimensions in which
  each cell holds the symbol assigned to it last (a dot when none was), so of two
  overlapping pieces the later one in the dictionary overwrites the earlier.
\<close>

theorem update_grid_stamps_last_write:
  "stamp_cells (Piece_init True s x y orient u) =
     [((x, y), CHR ''1''), ((x + 1, y), CHR ''1''), ((x, y + 1), CHR ''1''), ((x + 1, y + 1), CHR ''1'')]
   \<and> stamp_cells (Piece_init False True x y orient u) = [((x, y), CHR ''2'')]
   \<and> stamp_cells (Piece_init False False x y (Some ''h'') u) = [((x, y), CHR ''<''), ((x + 1, y), CHR ''>'')]
   \<and> stamp_cells (Piece_init False False x y (Some ''v'') u) = [((x, y), CHR ''^''), ((x, y + 1), CHR ''v'')]
   \<and> (\<forall>e. update_grid h ps = Inl e \<longrightarrow> e = IndexError)
   \<and> ((\<forall>w \<in> set (grid_writes ps). in_grid h (fst w)) \<longrightarrow>
        (\<exists>g. update_grid h ps = Inr g \<and> grid_dims h g \<and>
           (\<forall>x y. in_grid h (x, y) \<longrightarrow>
              grid_get g y x =
                Inr (case map_of (rev (grid_writes ps)) (x, y) of
                       None \<Rightarrow> CHR ''.'' | Some ch \<Rightarrow> ch))))"
proof -
  have "\<forall>e. update_grid h ps = Inl e \<longrightarrow> e = IndexError"
    by (auto simp: update_grid_def dest: fold_write_cells_error)
  moreover have "(\<forall>w \<in> set (grid_writes ps). in_grid h (fst w)) \<longrightarrow>
        (\<exists>g. update_grid h ps = Inr g \<and> grid_dims h g \<and>
           (\<forall>x y. in_grid h (x, y) \<longrightarrow>
              grid_get g y x =
                Inr (case map_of (rev (grid_writes ps)) (x, y) of
                       None \<Rightarrow> CHR ''.'' | Some ch \<Rightarrow> ch)))"
    using update_grid_in_grid by blast
  ultimately show ?thesis
    by (simp add: stamp_cells_def Piece_init_def char_single_def)
qed

theorem update_grid_stamps_last_write_witness:
  "\<exists>g. update_grid 1 [((0, 0), Piece_init False False 0 0 (Some ''h'') 7),
                       ((1, 0), Piece_init False True 1 0 None 8)] = Inr g
       \<and> grid_get g 0 0 = Inr CHR ''<'' \<and> grid_get g 0 1 = Inr CHR ''2''
       \<and> grid_get g 0 2 = Inr CHR ''.''"
proof -
  let ?ps = "[((0, 0), Piece_init False False 0 0 (Some ''h'') 7),
              ((1, 0), Piece_init False True 1 0 None 8)]"
  have w: "grid_writes ?ps = [((0, 0), CHR ''<''), ((1, 0), CHR ''>''), ((1, 0), CHR ''2'')]"
    by (simp add: grid_writes_def stamp_cells_def Piece_init_def char_single_def)
  have pre: "\<forall>w \<in> set (grid_writes ?ps). in_grid 1 (fst w)"
    by (simp add: w in_grid_def width_def)
  from update_grid_stamps_last_write[of _ 0 0 None 0 1 ?ps] pre
  obtain g where g: "update_grid 1 ?ps = Inr g"
    and cells: "\<And>x y. in_grid 1 (x, y) \<Longrightarrow>
       grid_get g y x = Inr (case map_of (rev (grid_writes ?ps)) (x, y) of
                               None \<Rightarrow> CHR ''.'' | Some ch \<Rightarrow> ch)"
    by blast
  have "grid_get g 0 0 = Inr CHR ''<''" "grid_get g 0 1 = Inr CHR ''2''"
       "grid_get g 0 2 = Inr CHR ''.''"
    using cells[of 0 0] cells[of 1 0] cells[of 2 0]
    by (simp_all add: w in_grid_def width_def)
  with g show ?thesis by blast
qed

text \<open>
  C7 as stated fails: a horizontal piece at \<open>(0, 0)\<close> and a single at \<open>(1, 0)\<close> share the cell
  \<open>(1, 0)\<close>, and \<^verbatim>\<open>update_grid\<close> returns a grid, the single's symbol over the \<open>>\<close>.
\<close>

theorem update_grid_overlap_counterexample:
  "(1, 0) \<in> footprint (Piece_init False False 0 0 (Some ''h'') 7)
   \<and> (1, 0) \<in> footprint (Piece_init False True 1 0 None 8)
   \<and> update_grid 1 [((0, 0), Piece_init False False 0 0 (Some ''h'') 7),
                     ((1, 0), Piece_init False True 1 0 None 8)] = Inr [''<2..'']"
  by code_simp

section \<open>Board equality\<close>

lemma stamp_cells_uid: "stamp_cells (p\<lparr>uid := u\<rparr>) = stamp_cells p"
  by (simp add: stamp_cells_def cong: if_cong)

lemma grid_writes_relabel:
  "grid_writes (map (\<lambda>kp. (fst kp, (snd kp)\<lparr>uid := r (uid (snd kp))\<rparr>)) ps) = grid_writes ps"
  by (induction ps) (simp_all add: grid_writes_def stamp_cells_uid)

text \<open>
  C5.  \<^verbatim>\<open>Board.__eq__\<close> compares the grids and nothing else; a value that is not a board is
  never equal.  The grid a board is built with does not depend on the uids of its pieces
  (nor on its goal dictionary), so boards with the same layout and other identities are
  equal.
\<close>

theorem Board_eq_iff_grid:
  "Board_eq b (PyBoard b') = (grid b = grid b')
   \<and> \<not> Board_eq b PyNone \<and> \<not> Board_eq b (PyInt i) \<and> \<not> Board_eq b (PyStr s)
   \<and> update_grid h (map (\<lambda>kp. (fst kp, (snd kp)\<lparr>uid := r (uid (snd kp))\<rparr>)) ps) = update_grid h ps
   \<and> map_sum id grid (Board_init h (map (\<lambda>kp. (fst kp, (snd kp)\<lparr>uid := r (uid (snd kp))\<rparr>)) ps) gd')
       = map_sum id grid (Board_init h ps gd)"
proof -
  have u: "update_grid h (map (\<lambda>kp. (fst kp, (snd kp)\<lparr>uid := r (uid (snd kp))\<rparr>)) ps) = update_grid h ps"
    by (simp add: update_grid_def grid_writes_relabel)
  have "map_sum id grid (Board_init h (map (\<lambda>kp. (fst kp, (snd kp)\<lparr>uid := r (uid (snd kp))\<rparr>)) ps) gd')
       = map_sum id grid (Board_init h ps gd)"
    unfolding Board_init_def u by (cases "update_grid h ps") (simp_all add: bind_err_def)
  with u show ?thesis by (simp add: Board_eq_def)
qed

section \<open>The move generator\<close>

lemma is_empty_in_grid:
  assumes "grid_dims h g" "in_grid h (x, y)"
  shows "is_empty g y x = Inr (is_empty g y x = Inr True)"
  using grid_get_in_grid[OF assms] by (simp add: is_empty_def bind_err_def)

lemma and_err_Inr: "and_err (Inr a) (Inr b) = Inr (a \<and> b)"
  by (simp add: and_err_def bind_err_def)

lemma try_move_eq:
  "(c \<Longrightarrow> occ = Inr ok) \<Longrightarrow> try_move c occ d ks = Inr (if c \<and> ok then ks @ [d] else ks)"
  by (auto simp: try_move_def bind_err_def)

lemma bind_err_Inr: "bind_err (Inr v) k = k v"
  by (simp add: bind_err_def)

lemma footprint_block:
  "is_2_by_2 p \<Longrightarrow> footprint p =
     {(coord_x p, coord_y p), (coord_x p + 1, coord_y p),
      (coord_x p, coord_y p + 1), (coord_x p + 1, coord_y p + 1)}"
  by (auto simp: footprint_def stamp_cells_def Let_def)

lemma footprint_single:
  "\<not> is_2_by_2 p \<Longrightarrow> is_single p \<Longrightarrow> footprint p = {(coord_x p, coord_y p)}"
  by (auto simp: footprint_def stamp_cells_def Let_def)

lemma footprint_horizontal:
  "\<not> is_2_by_2 p \<Longrightarrow> \<not> is_single p \<Longrightarrow> orientation p = Some ''h'' \<Longrightarrow>
   footprint p = {(coord_x p, coord_y p), (coord_x p + 1, coord_y p)}"
  by (auto simp: footprint_def stamp_cells_def Let_def)

lemma footprint_vertical:
  "\<not> is_2_by_2 p \<Longrightarrow> \<not> is_single p \<Longrightarrow> orientation p \<noteq> Some ''h'' \<Longrightarrow>
   orientation p = Some ''v'' \<Longrightarrow>
   footprint p = {(coord_x p, coord_y p), (coord_x p, coord_y p + 1)}"
  by (auto simp: footprint_def stamp_cells_def Let_def)

lemma new_keys_block:
  assumes g: "grid_dims (height b) (grid b)"
    and p: "is_2_by_2 p"
    and inb: "\<forall>c \<in> footprint p. in_grid (height b) c"
  shows "piece_new_keys b p = Inr (filter (legal_dest b p) (slide_steps p))"
proof -
  define x y where "x = coord_x p" and "y = coord_y p"
  define E where "E = (\<lambda>cx cy. is_empty (grid b) cy cx = Inr True)"
  from inb p have r: "0 \<le> x" "x + 1 < width" "0 \<le> y" "y + 1 < height b"
    by (auto simp: footprint_block in_grid_def x_def y_def)
  have e: "is_empty (grid b) cy cx = Inr (E cx cy)" if "in_grid (height b) (cx, cy)" for cx cy
    using is_empty_in_grid[OF g that] by (simp add: E_def)
  have m0: "try_move (x - 1 \<ge> 0) (and_err (is_empty (grid b) y (x - 1)) (is_empty (grid b) (y + 1) (x - 1))) d ks
      = Inr (if legal_dest b p (x - 1, y) then ks @ [d] else ks)" for d ks
  proof -
    have "try_move (x - 1 \<ge> 0) (and_err (is_empty (grid b) y (x - 1)) (is_empty (grid b) (y + 1) (x - 1))) d ks
      = Inr (if x - 1 \<ge> 0 \<and> (E (x - 1) y \<and> E (x - 1) (y + 1)) then ks @ [d] else ks)"
      using r by (intro try_move_eq) (simp add: e in_grid_def and_err_Inr)
    moreover have "legal_dest b p (x - 1, y) \<longleftrightarrow> x - 1 \<ge> 0 \<and> (E (x - 1) y \<and> E (x - 1) (y + 1))"
      using r p by (auto simp: legal_dest_def slide_steps_def footprint_block set_coords_def in_grid_def E_def x_def y_def add.commute)
    ultimately show ?thesis by simp
  qed
  have m1: "try_move (y - 1 \<ge> 0) (and_err (is_empty (grid b) (y - 1) x) (is_empty (grid b) (y - 1) (x + 1))) d ks
      = Inr (if legal_dest b p (x, y - 1) then ks @ [d] else ks)" for d ks
  proof -
    have "try_move (y - 1 \<ge> 0) (and_err (is_empty (grid b) (y - 1) x) (is_empty (grid b) (y - 1) (x + 1))) d ks
      = Inr (if y - 1 \<ge> 0 \<and> (E x (y - 1) \<and> E (x + 1) (y - 1)) then ks @ [d] else ks)"
      using r by (intro try_move_eq) (simp add: e in_grid_def and_err_Inr)
    moreover have "legal_dest b p (x, y - 1) \<longleftrightarrow> y - 1 \<ge> 0 \<and> (E x (y - 1) \<and> E (x + 1) (y - 1))"
      using r p by (auto simp: legal_dest_def slide_steps_def footprint_block set_coords_def in_grid_def E_def x_def y_def add.commute)
    ultimately show ?thesis by simp
  qed
  have m2: "try_move (x + 2 < width) (and_err (is_empty (grid b) y (x + 2)) (is_empty (grid b) (y + 1) (x + 2))) d ks
      = Inr (if legal_dest b p (x + 1, y) then ks @ [d] else ks)" for d ks
  proof -
    have "try_move (x + 2 < width) (and_err (is_empty (grid b) y (x + 2)) (is_empty (grid b) (y + 1) (x + 2))) d ks
      = Inr (if x + 2 < width \<and> (E (x + 2) y \<and> E (x + 2) (y + 1)) then ks @ [d] else ks)"
      using r by (intro try_move_eq) (simp add: e in_grid_def and_err_Inr)
    moreover have "legal_dest b p (x + 1, y) \<longleftrightarrow> x + 2 < width \<and> (E (x + 2) y \<and> E (x + 2) (y + 1))"
      using r p by (auto simp: legal_dest_def slide_steps_def footprint_block set_coords_def in_grid_def E_def x_def y_def add.commute)
    ultimately show ?thesis by simp
  qed
  have m3: "try_move (y + 2 < height b) (and_err (is_empty (grid b) (y + 2) x) (is_empty (grid b) (y + 2) (x + 1))) d ks
      = Inr (if legal_dest b p (x, y + 1) then ks @ [d] else ks)" for d ks
  proof -
    have "try_move (y + 2 < height b) (and_err (is_empty (grid b) (y + 2) x) (is_empty (grid b) (y + 2) (x + 1))) d ks
      = Inr (if y + 2 < height b \<and> (E x (y + 2) \<and> E (x + 1) (y + 2)) then ks @ [d] else ks)"
      using r by (intro try_move_eq) (simp add: e in_grid_def and_err_Inr)
    moreover have "legal_dest b p (x, y + 1) \<longleftrightarrow> y + 2 < height b \<and> (E x (y + 2) \<and> E (x + 1) (y + 2))"
      using r p by (auto simp: legal_dest_def slide_steps_def footprint_block set_coords_def in_grid_def E_def x_def y_def add.commute)
    ultimately show ?thesis by simp
  qed
  have "piece_new_keys b p =
     bind_err (try_move (x - 1 \<ge> 0) (and_err (is_empty (grid b) y (x - 1)) (is_empty (grid b) (y + 1) (x - 1))) (x - 1, y) []) (\<lambda>ks.
     bind_err (try_move (y - 1 \<ge> 0) (and_err (is_empty (grid b) (y - 1) x) (is_empty (grid b) (y - 1) (x + 1))) (x, y - 1) ks) (\<lambda>ks.
     bind_err (try_move (x + 2 < width) (and_err (is_empty (grid b) y (x + 2)) (is_empty (grid b) (y + 1) (x + 2))) (x + 1, y) ks) (\<lambda>ks.
     try_move (y + 2 < height b) (and_err (is_empty (grid b) (y + 2) x) (is_empty (grid b) (y + 2) (x + 1))) (x, y + 1) ks)))"
    unfolding piece_new_keys_def Let_def x_def y_def using p by (simp only: if_True)
  also have "\<dots> = Inr (filter (legal_dest b p) [(x - 1, y), (x, y - 1), (x + 1, y), (x, y + 1)])"
    unfolding m0 m1 m2 m3 bind_err_Inr by simp
  finally show ?thesis by (simp add: slide_steps_def x_def y_def)
qed
lemma new_keys_single:
  assumes g: "grid_dims (height b) (grid b)"
    and p: "\<not> is_2_by_2 p" "is_single p"
    and inb: "\<forall>c \<in> footprint p. in_grid (height b) c"
  shows "piece_new_keys b p = Inr (filter (legal_dest b p) (slide_steps p))"
proof -
  define x y where "x = coord_x p" and "y = coord_y p"
  define E where "E = (\<lambda>cx cy. is_empty (grid b) cy cx = Inr True)"
  from inb p have r: "0 \<le> x" "x < width" "0 \<le> y" "y < height b"
    by (auto simp: footprint_single in_grid_def x_def y_def)
  have e: "is_empty (grid b) cy cx = Inr (E cx cy)" if "in_grid (height b) (cx, cy)" for cx cy
    using is_empty_in_grid[OF g that] by (simp add: E_def)
  have m0: "try_move (x - 1 \<ge> 0) (is_empty (grid b) y (x - 1)) d ks
      = Inr (if legal_dest b p (x - 1, y) then ks @ [d] else ks)" for d ks
  proof -
    have "try_move (x - 1 \<ge> 0) (is_empty (grid b) y (x - 1)) d ks
      = Inr (if x - 1 \<ge> 0 \<and> E (x - 1) y then ks @ [d] else ks)"
      using r by (intro try_move_eq) (simp add: e in_grid_def and_err_Inr)
    moreover have "legal_dest b p (x - 1, y) \<longleftrightarrow> x - 1 \<ge> 0 \<and> E (x - 1) y"
      using r p by (auto simp: legal_dest_def slide_steps_def footprint_single set_coords_def in_grid_def E_def x_def y_def add.commute)
    ultimately show ?thesis by simp
  qed
  have m1: "try_move (y - 1 \<ge> 0) (is_empty (grid b) (y - 1) x) d ks
      = Inr (if legal_dest b p (x, y - 1) then ks @ [d] else ks)" for d ks
  proof -
    have "try_move (y - 1 \<ge> 0) (is_empty (grid b) (y - 1) x) d ks
      = Inr (if y - 1 \<ge> 0 \<and> E x (y - 1) then ks @ [d] else ks)"
      using r by (intro try_move_eq) (simp add: e in_grid_def and_err_Inr)
    moreover have "legal_dest b p (x, y - 1) \<longleftrightarrow> y - 1 \<ge> 0 \<and> E x (y - 1)"
      using r p by (auto simp: legal_dest_def slide_steps_def footprint_single set_coords_def in_grid_def E_def x_def y_def add.commute)
    ultimately show ?thesis by simp
  qed
  have m2: "try_move (x + 1 < width) (is_empty (grid b) y (x + 1)) d ks
      = Inr (if legal_dest b p (x + 1, y) then ks @ [d] else ks)" for d ks
  proof -
    have "try_move (x + 1 < width) (is_empty (grid b) y (x + 1)) d ks
      = Inr (if x + 1 < width \<and> E (x + 1) y then ks @ [d] else ks)"
      using r by (intro try_move_eq) (simp add: e in_grid_def and_err_Inr)
    moreover have "legal_dest b p (x + 1, y) \<longleftrightarrow> x + 1 < width \<and> E (x + 1) y"
      using r p by (auto simp: legal_dest_def slide_steps_def footprint_single set_coords_def in_grid_def E_def x_def y_def add.commute)
    ultimately show ?thesis by simp
  qed
  have m3: "try_move (y + 1 < height b) (is_empty (grid b) (y + 1) x) d ks
      = Inr (if legal_dest b p (x, y + 1) then ks @ [d] else ks)" for d ks
  proof -
    have "try_move (y + 1 < height b) (is_empty (grid b) (y + 1) x) d ks
      = Inr (if y + 1 < height b \<and> E x (y + 1) then ks @ [d] else ks)"
      using r by (intro try_move_eq) (simp add: e in_grid_def and_err_Inr)
    moreover have "legal_dest b p (x, y + 1) \<longleftrightarrow> y + 1 < height b \<and> E x (y + 1)"
      using r p by (auto simp: legal_dest_def slide_steps_def footprint_single set_coords_def in_grid_def E_def x_def y_def add.commute)
    ultimately show ?thesis by simp
  qed
  have "piece_new_keys b p =
     bind_err (try_move (x - 1 \<ge> 0) (is_empty (grid b) y (x - 1)) (x - 1, y) []) (\<lambda>ks.
     bind_err (try_move (y - 1 \<ge> 0) (is_empty (grid b) (y - 1) x) (x, y - 1) ks) (\<lambda>ks.
     bind_err (try_move (x + 1 < width) (is_empty (grid b) y (x + 1)) (x + 1, y) ks) (\<lambda>ks.
     try_move (y + 1 < height b) (is_empty (grid b) (y + 1) x) (x, y + 1) ks)))"
    unfolding piece_new_keys_def Let_def x_def y_def using p by (simp only: if_True if_False)
  also have "\<dots> = Inr (filter (legal_dest b p) [(x - 1, y), (x, y - 1), (x + 1, y), (x, y + 1)])"
    unfolding m0 m1 m2 m3 bind_err_Inr by simp
  finally show ?thesis by (simp add: slide_steps_def x_def y_def)
qed
lemma new_keys_horizontal:
  assumes g: "grid_dims (height b) (grid b)"
    and p: "\<not> is_2_by_2 p" "\<not> is_single p" "orientation p = Some ''h''"
    and inb: "\<forall>c \<in> footprint p. in_grid (height b) c"
  shows "piece_new_keys b p = Inr (filter (legal_dest b p) (slide_steps p))"
proof -
  define x y where "x = coord_x p" and "y = coord_y p"
  define E where "E = (\<lambda>cx cy. is_empty (grid b) cy cx = Inr True)"
  from inb p have r: "0 \<le> x" "x + 1 < width" "0 \<le> y" "y < height b"
    by (auto simp: footprint_horizontal in_grid_def x_def y_def)
  have e: "is_empty (grid b) cy cx = Inr (E cx cy)" if "in_grid (height b) (cx, cy)" for cx cy
    using is_empty_in_grid[OF g that] by (simp add: E_def)
  have m0: "try_move (x - 1 \<ge> 0) (is_empty (grid b) y (x - 1)) d ks
      = Inr (if legal_dest b p (x - 1, y) then ks @ [d] else ks)" for d ks
  proof -
    have "try_move (x - 1 \<ge> 0) (is_empty (grid b) y (x - 1)) d ks
      = Inr (if x - 1 \<ge> 0 \<and> E (x - 1) y then ks @ [d] else ks)"
      using r by (intro try_move_eq) (simp add: e in_grid_def and_err_Inr)
    moreover have "legal_dest b p (x - 1, y) \<longleftrightarrow> x - 1 \<ge> 0 \<and> E (x - 1) y"
      using r p by (auto simp: legal_dest_def slide_steps_def footprint_horizontal set_coords_def in_grid_def E_def x_def y_def add.commute)
    ultimately show ?thesis by simp
  qed
  have m1: "try_move (y - 1 \<ge> 0) (and_err (is_empty (grid b) (y - 1) x) (is_empty (grid b) (y - 1) (x + 1))) d ks
      = Inr (if legal_dest b p (x, y - 1) then ks @ [d] else ks)" for d ks
  proof -
    have "try_move (y - 1 \<ge> 0) (and_err (is_empty (grid b) (y - 1) x) (is_empty (grid b) (y - 1) (x + 1))) d ks
      = Inr (if y - 1 \<ge> 0 \<and> (E x (y - 1) \<and> E (x + 1) (y - 1)) then ks @ [d] else ks)"
      using r by (intro try_move_eq) (simp add: e in_grid_def and_err_Inr)
    moreover have "legal_dest b p (x, y - 1) \<longleftrightarrow> y - 1 \<ge> 0 \<and> (E x (y - 1) \<and> E (x + 1) (y - 1))"
      using r p by (auto simp: legal_dest_def slide_steps_def footprint_horizontal set_coords_def in_grid_def E_def x_def y_def add.commute)
    ultimately show ?thesis by simp
  qed
  have m2: "try_move (x + 2 < width) (is_empty (grid b) y (x + 2)) d ks
      = Inr (if legal_dest b p (x + 1, y) then ks @ [d] else ks)" for d ks
  proof -
    have "try_move (x + 2 < width) (is_empty (grid b) y (x + 2)) d ks
      = Inr (if x + 2 < width \<and> E (x + 2) y then ks @ [d] else ks)"
      using r by (intro try_move_eq) (simp add: e in_grid_def and_err_Inr)
    moreover have "legal_dest b p (x + 1, y) \<longleftrightarrow> x + 2 < width \<and> E (x + 2) y"
      using r p by (auto simp: legal_dest_def slide_steps_def footprint_horizontal set_coords_def in_grid_def E_def x_def y_def add.commute)
    ultimately show ?thesis by simp
  qed
  have m3: "try_move (y + 1 < height b) (and_err (is_empty (grid b) (y + 1) x) (is_empty (grid b) (y + 1) (x + 1))) d ks
      = Inr (if legal_dest b p (x, y + 1) then ks @ [d] else ks)" for d ks
  proof -
    have "try_move (y + 1 < height b) (and_err (is_empty (grid b) (y + 1) x) (is_empty (grid b) (y + 1) (x + 1))) d ks
      = Inr (if y + 1 < height b \<and> (E x (y + 1) \<and> E (x + 1) (y + 1)) then ks @ [d] else ks)"
      using r by (intro try_move_eq) (simp add: e in_grid_def and_err_Inr)
    moreover have "legal_dest b p (x, y + 1) \<longleftrightarrow> y + 1 < height b \<and> (E x (y + 1) \<and> E (x + 1) (y + 1))"
      using r p by (auto simp: legal_dest_def slide_steps_def footprint_horizontal set_coords_def in_grid_def E_def x_def y_def add.commute)
    ultimately show ?thesis by simp
  qed
  have "piece_new_keys b p =
     bind_err (try_move (x - 1 \<ge> 0) (is_empty (grid b) y (x - 1)) (x - 1, y) []) (\<lambda>ks.
     bind_err (try_move (y - 1 \<ge> 0) (and_err (is_empty (grid b) (y - 1) x) (is_empty (grid b) (y - 1) (x + 1))) (x, y - 1) ks) (\<lambda>ks.
     bind_err (try_move (x + 2 < width) (is_empty (grid b) y (x + 2)) (x + 1, y) ks) (\<lambda>ks.
     try_move (y + 1 < height b) (and_err (is_empty (grid b) (y + 1) x) (is_empty (grid b) (y + 1) (x + 1))) (x, y + 1) ks)))"
    unfolding piece_new_keys_def Let_def x_def y_def using p by (simp only: if_True if_False simp_thms)
  also have "\<dots> = Inr (filter (legal_dest b p) [(x - 1, y), (x, y - 1), (x + 1, y), (x, y + 1)])"
    unfolding m0 m1 m2 m3 bind_err_Inr by simp
  finally show ?thesis by (simp add: slide_steps_def x_def y_def)
qed
lemma new_keys_vertical:
  assumes g: "grid_dims (height b) (grid b)"
    and p: "\<not> is_2_by_2 p" "\<not> is_single p" "orientation p \<noteq> Some ''h''" "orientation p = Some ''v''"
    and inb: "\<forall>c \<in> footprint p. in_grid (height b) c"
  shows "piece_new_keys b p = Inr (filter (legal_dest b p) (slide_steps p))"
proof -
  define x y where "x = coord_x p" and "y = coord_y p"
  define E where "E = (\<lambda>cx cy. is_empty (grid b) cy cx = Inr True)"
  from inb p have r: "0 \<le> x" "x < width" "0 \<le> y" "y + 1 < height b"
    by (auto simp: footprint_vertical in_grid_def x_def y_def)
  have e: "is_empty (grid b) cy cx = Inr (E cx cy)" if "in_grid (height b) (cx, cy)" for cx cy
    using is_empty_in_grid[OF g that] by (simp add: E_def)
  have m0: "try_move (x - 1 \<ge> 0) (and_err (is_empty (grid b) y (x - 1)) (is_empty (grid b) (y + 1) (x - 1))) d ks
      = Inr (if legal_dest b p (x - 1, y) then ks @ [d] else ks)" for d ks
  proof -
    have "try_move (x - 1 \<ge> 0) (and_err (is_empty (grid b) y (x - 1)) (is_empty (grid b) (y + 1) (x - 1))) d ks
      = Inr (if x - 1 \<ge> 0 \<and> (E (x - 1) y \<and> E (x - 1) (y + 1)) then ks @ [d] else ks)"
      using r by (intro try_move_eq) (simp add: e in_grid_def and_err_Inr)
    moreover have "legal_dest b p (x - 1, y) \<longleftrightarrow> x - 1 \<ge> 0 \<and> (E (x - 1) y \<and> E (x - 1) (y + 1))"
      using r p by (auto simp: legal_dest_def slide_steps_def footprint_vertical set_coords_def in_grid_def E_def x_def y_def add.commute)
    ultimately show ?thesis by simp
  qed
  have m1: "try_move (y - 1 \<ge> 0) (is_empty (grid b) (y - 1) x) d ks
      = Inr (if legal_dest b p (x, y - 1) then ks @ [d] else ks)" for d ks
  proof -
    have "try_move (y - 1 \<ge> 0) (is_empty (grid b) (y - 1) x) d ks
      = Inr (if y - 1 \<ge> 0 \<and> E x (y - 1) then ks @ [d] else ks)"
      using r by (intro try_move_eq) (simp add: e in_grid_def and_err_Inr)
    moreover have "legal_dest b p (x, y - 1) \<longleftrightarrow> y - 1 \<ge> 0 \<and> E x (y - 1)"
      using r p by (auto simp: legal_dest_def slide_steps_def footprint_vertical set_coords_def in_grid_def E_def x_def y_def add.commute)
    ultimately show ?thesis by simp
  qed
  have m2: "try_move (x + 1 < width) (and_err (is_empty (grid b) y (x + 1)) (is_empty (grid b) (y + 1) (x + 1))) d ks
      = Inr (if legal_dest b p (x + 1, y) then ks @ [d] else ks)" for d ks
  proof -
    have "try_move (x + 1 < width) (and_err (is_empty (grid b) y (x + 1)) (is_empty (grid b) (y + 1) (x + 1))) d ks
      = Inr (if x + 1 < width \<and> (E (x + 1) y \<and> E (x + 1) (y + 1)) then ks @ [d] else ks)"
      using r by (intro try_move_eq) (simp add: e in_grid_def and_err_Inr)
    moreover have "legal_dest b p (x + 1, y) \<longleftrightarrow> x + 1 < width \<and> (E (x + 1) y \<and> E (x + 1) (y + 1))"
      using r p by (auto simp: legal_dest_def slide_steps_def footprint_vertical set_coords_def in_grid_def E_def x_def y_def add.commute)
    ultimately show ?thesis by simp
  qed
  have m3: "try_move (y + 2 < height b) (is_empty (grid b) (y + 2) x) d ks
      = Inr (if legal_dest b p (x, y + 1) then ks @ [d] else ks)" for d ks
  proof -
    have "try_move (y + 2 < height b) (is_empty (grid b) (y + 2) x) d ks
      = Inr (if y + 2 < height b \<and> E x (y + 2) then ks @ [d] else ks)"
      using r by (intro try_move_eq) (simp add: e in_grid_def and_err_Inr)
    moreover have "legal_dest b p (x, y + 1) \<longleftrightarrow> y + 2 < height b \<and> E x (y + 2)"
      using r p by (auto simp: legal_dest_def slide_steps_def footprint_vertical set_coords_def in_grid_def E_def x_def y_def add.commute)
    ultimately show ?thesis by simp
  qed
  have "piece_new_keys b p =
     bind_err (try_move (x - 1 \<ge> 0) (and_err (is_empty (grid b) y (x - 1)) (is_empty (grid b) (y + 1) (x - 1))) (x - 1, y) []) (\<lambda>ks.
     bind_err (try_move (y - 1 \<ge> 0) (is_empty (grid b) (y - 1) x) (x, y - 1) ks) (\<lambda>ks.
     bind_err (try_move (x + 1 < width) (and_err (is_empty (grid b) y (x + 1)) (is_empty (grid b) (y + 1) (x + 1))) (x + 1, y) ks) (\<lambda>ks.
     try_move (y + 2 < height b) (is_empty (grid b) (y + 2) x) (x, y + 1) ks)))"
    unfolding piece_new_keys_def Let_def x_def y_def using p(1,2,3) by (simp only: if_True if_False simp_thms)
  also have "\<dots> = Inr (filter (legal_dest b p) [(x - 1, y), (x, y - 1), (x + 1, y), (x, y + 1)])"
    unfolding m0 m1 m2 m3 bind_err_Inr by simp
  finally show ?thesis by (simp add: slide_steps_def x_def y_def)
qed

lemma slide_steps_distinct: "distinct (slide_steps p)"
  by (simp add: slide_steps_def)

lemma new_keys_proper:
  assumes "grid_dims (height b) (grid b)" "proper_piece p"
    "\<forall>c \<in> footprint p. in_grid (height b) c"
  shows "piece_new_keys b p = Inr (filter (legal_dest b p) (slide_steps p))"
proof -
  consider "is_2_by_2 p" | "\<not> is_2_by_2 p" "is_single p"
    | "\<not> is_2_by_2 p" "\<not> is_single p" "orientation p = Some ''h''"
    | "\<not> is_2_by_2 p" "\<not> is_single p" "orientation p \<noteq> Some ''h''" "orientation p = Some ''v''"
    using assms(2) by (auto simp: proper_piece_def)
  then show ?thesis
  proof cases
    case 1
    then show ?thesis using assms by (intro new_keys_block)
  next
    case 2
    then show ?thesis using assms by (intro new_keys_single)
  next
    case 3
    then show ?thesis using assms by (intro new_keys_horizontal)
  next
    case 4
    then show ?thesis using assms by (intro new_keys_vertical)
  qed
qed

text \<open>
  C1.  On a board whose grid has the board's dimensions, for a piece of one of the four
  shapes that lies on the board, the move generator raises nothing and returns, in the
  order left, up, right, down, exactly the legal single slides: the destinations one step
  away whose footprint stays inside \<open>[0, width) \<times> [0, height)\<close> and whose leading-edge cells
  (both cells for a 2x2 block and for the long side of a 1x2 piece, one cell otherwise) are
  empty.  The boundary test comes first: when it fails the occupancy test is not evaluated
  at all, whatever it would have raised.
\<close>

theorem piece_new_keys_legal:
  assumes "grid_dims (height b) (grid b)" and "proper_piece p"
    and "\<forall>c \<in> footprint p. in_grid (height b) c"
  shows "\<exists>ks. piece_new_keys b p = Inr ks
           \<and> ks = filter (legal_dest b p) (slide_steps p)
           \<and> distinct ks
           \<and> set ks = {d. legal_dest b p d}
           \<and> (\<forall>d \<in> set ks. \<forall>c \<in> footprint (set_coords p (fst d) (snd d)). in_grid (height b) c)
           \<and> (\<forall>occ d' ks'. try_move False occ d' ks' = Inr ks')"
proof -
  let ?ks = "filter (legal_dest b p) (slide_steps p)"
  have "piece_new_keys b p = Inr ?ks" using assms by (rule new_keys_proper)
  moreover have "distinct ?ks" by (simp add: slide_steps_distinct)
  moreover have "set ?ks = {d. legal_dest b p d}" by (auto simp: legal_dest_def)
  moreover have "\<forall>d \<in> set ?ks. \<forall>c \<in> footprint (set_coords p (fst d) (snd d)). in_grid (height b) c"
    by (auto simp: legal_dest_def)
  moreover have "\<forall>occ d' ks'. try_move False occ d' ks' = Inr ks'"
    by (simp add: try_move_def)
  ultimately show ?thesis by blast
qed

theorem piece_new_keys_legal_witness:
  "piece_new_keys ex_board ex_h = Inr [(0, 1)]
   \<and> legal_dest ex_board ex_h (0, 1) \<and> \<not> legal_dest ex_board ex_h (1, 0)
   \<and> \<not> legal_dest ex_board ex_h (-1, 0)"
proof -
  have g: "grid_dims (height ex_board) (grid ex_board)"
    by (simp add: grid_dims_def ex_board_def width_def)
  have p: "proper_piece ex_h"
    by (simp add: proper_piece_def ex_h_def Piece_init_def)
  have fp: "footprint ex_h = {(0, 0), (1, 0)}"
    by (simp add: footprint_horizontal ex_h_def Piece_init_def)
  have i: "\<forall>c \<in> footprint ex_h. in_grid (height ex_board) c"
    by (simp add: fp in_grid_def ex_board_def width_def)
  have l: "legal_dest ex_board ex_h (0, 1)" "\<not> legal_dest ex_board ex_h (1, 0)"
    "\<not> legal_dest ex_board ex_h (-1, 0)" "\<not> legal_dest ex_board ex_h (0, -1)"
    by code_simp+
  have s: "slide_steps ex_h = [(-1, 0), (0, -1), (1, 0), (0, 1)]"
    by (simp add: slide_steps_def ex_h_def Piece_init_def)
  from piece_new_keys_legal[OF g p i] have "piece_new_keys ex_board ex_h = Inr [(0, 1)]"
    by (simp add: s l)
  with l show ?thesis by simp
qed

section \<open>Cloning a board with one piece moved\<close>

lemma dict_del_filter:
  "distinct (map fst d) \<Longrightarrow> dict_del d k = filter (\<lambda>kv. fst kv \<noteq> k) d"
proof (induction d)
  case Nil
  then show ?case by simp
next
  case (Cons kv d)
  obtain k' v' where kv: "kv = (k', v')" by (cases kv)
  show ?case
  proof (cases "k' = k")
    case True
    with Cons.prems kv have "\<forall>e \<in> set d. fst e \<noteq> k" by auto
    then have "filter (\<lambda>kv. fst kv \<noteq> k) d = d" by (simp add: filter_id_conv)
    with True kv show ?thesis by simp
  next
    case False
    with Cons kv show ?thesis by simp
  qed
qed

lemma dict_set_fresh: "k \<notin> fst ` set d \<Longrightarrow> dict_set d k v = d @ [(k, v)]"
  by (induction d) auto

lemma dict_set_last: "k \<notin> fst ` set d \<Longrightarrow> dict_set (d @ [(k, v)]) k v' = d @ [(k, v')]"
  by (induction d) auto

lemma map_of_dict_set: "map_of (dict_set d k v) = (map_of d)(k \<mapsto> v)"
  by (induction d) (auto simp: fun_eq_iff)

lemma dict_get_dict_set: "dict_get (dict_set d k v) k = Inr v"
  by (simp add: dict_get_def map_of_dict_set)

lemma dict_set_twice: "dict_set (dict_set d k v) k v' = dict_set d k v'"
  by (induction d) auto

lemma piece_copy_id:
  "map (\<lambda>(piece_key, piece).
          (piece_key,
           \<lparr>is_2_by_2 = is_2_by_2 piece, is_single = is_single piece,
            coord_x = coord_x piece, coord_y = coord_y piece,
            orientation = orientation piece, uid = uid piece\<rparr>)) ps = ps"
  by (induction ps) auto

text \<open>The dictionary of the clone: the entry \<open>old\<close> leaves, the moved piece enters at \<open>new_key\<close>.\<close>

lemma copy_board_eq:
  assumes p: "map_of (pieces b) old = Some p"
  shows "copy_board b new_key old =
           bind_err (update_grid (height b) (pieces b)) (\<lambda>_.
           bind_err (update_grid (height b)
                      (dict_set (dict_del (pieces b) old) new_key
                         (set_coords p (fst new_key) (snd new_key)))) (\<lambda>g.
           Inr \<lparr>height = height b,
                pieces = dict_set (dict_del (pieces b) old) new_key
                           (set_coords p (fst new_key) (snd new_key)),
                goal_board_dict = goal_board_dict b, grid = g\<rparr>))"
proof (cases "update_grid (height b) (pieces b)")
  case (Inl e)
  then show ?thesis
    by (simp add: copy_board_def piece_copy_id Board_init_def bind_err_def)
next
  case (Inr g0)
  then show ?thesis using p
    by (simp add: copy_board_def piece_copy_id Board_init_def bind_err_def dict_pop_def
        dict_get_dict_set dict_set_twice Let_def split: sum.splits)
qed

lemma copy_board_missing_key:
  assumes "map_of (pieces b) old = None"
  shows "copy_board b new_key old =
           bind_err (update_grid (height b) (pieces b)) (\<lambda>_. Inl KeyError)"
  using assms
  by (cases "update_grid (height b) (pieces b)")
     (simp_all add: copy_board_def piece_copy_id Board_init_def bind_err_def dict_pop_def)


lemma copy_pieces_ref_eq:
  assumes "distinct (map fst d)" "fst ` set d \<inter> fst ` set acc = {}"
    "\<forall>ka \<in> set d. snd ka < length st0"
  shows "copy_pieces_ref (st0 @ ext) d acc =
           (st0 @ ext @ map (\<lambda>ka. st0 ! snd ka) d,
            acc @ zip (map fst d) [length st0 + length ext ..< length st0 + length ext + length d])"
  using assms
proof (induction d arbitrary: ext acc)
  case Nil
  then show ?case by simp
next
  case (Cons ka d)
  obtain k a where ka: "ka = (k, a)" by (cases ka)
  from Cons.prems ka have a: "a < length st0" and k: "k \<notin> fst ` set acc" by auto
  have cp: "\<lparr>is_2_by_2 = is_2_by_2 p, is_single = is_single p, coord_x = coord_x p,
            coord_y = coord_y p, orientation = orientation p, uid = uid p\<rparr> = p" for p :: Piece
    by simp
  have d1: "distinct (map fst d)" using Cons.prems by simp
  have d2: "fst ` set d \<inter> fst ` set (acc @ [(k, length st0 + length ext)]) = {}"
    using Cons.prems ka by auto
  have d3: "\<forall>ka \<in> set d. snd ka < length st0" using Cons.prems by simp
  have "copy_pieces_ref (st0 @ ext) (ka # d) acc =
        copy_pieces_ref (st0 @ (ext @ [st0 ! a])) d (acc @ [(k, length st0 + length ext)])"
    using a k by (simp add: ka alloc_piece_def cp nth_append dict_set_fresh)
  also have "\<dots> = (st0 @ (ext @ [st0 ! a]) @ map (\<lambda>ka. st0 ! snd ka) d,
      (acc @ [(k, length st0 + length ext)]) @
        zip (map fst d) [length st0 + length (ext @ [st0 ! a]) ..<
                         length st0 + length (ext @ [st0 ! a]) + length d])"
    by (rule Cons.IH[OF d1 d2 d3])
  also have "\<dots> = (st0 @ ext @ map (\<lambda>ka. st0 ! snd ka) (ka # d),
            acc @ zip (map fst (ka # d))
                   [length st0 + length ext ..< length st0 + length ext + length (ka # d)])"
  proof -
    have "[n ..< n + Suc m] = n # [Suc n ..< Suc n + m]" for n m :: nat
      using upt_conv_Cons[of n "n + Suc m"] by simp
    from this[of "length st0 + length ext" "length d"] show ?thesis
      by (simp add: ka del: upt_Suc)
  qed
  finally show ?case .
qed


lemma load_pieces_dict_del: "load_pieces st (dict_del d k) = dict_del (load_pieces st d) k"
  by (induction d) (auto simp: load_pieces_def)

lemma load_pieces_dict_set: "load_pieces st (dict_set d k a) = dict_set (load_pieces st d) k (st ! a)"
  by (induction d) (auto simp: load_pieces_def)

lemma map_of_load_pieces: "map_of (load_pieces st d) k = map_option ((!) st) (map_of d k)"
  by (induction d) (auto simp: load_pieces_def)

lemma load_pieces_update_other:
  "a \<notin> snd ` set d \<Longrightarrow> load_pieces (st[a := v]) d = load_pieces st d"
  by (induction d) (auto simp: load_pieces_def)

lemma load_pieces_update:
  assumes "map_of d k = Some a" "distinct (map snd d)" "a < length st"
  shows "load_pieces (st[a := v]) d = dict_set (load_pieces st d) k v"
  using assms
proof (induction d)
  case Nil
  then show ?case by simp
next
  case (Cons e d)
  obtain k' a' where e: "e = (k', a')" by (cases e)
  show ?case
  proof (cases "k' = k")
    case True
    with Cons.prems e have "a' = a" "a \<notin> snd ` set d" by auto
    with True e Cons.prems(3) show ?thesis
      using load_pieces_update_other[of a d st v] by (simp add: load_pieces_def)
  next
    case False
    with Cons.prems e have m: "map_of d k = Some a" by simp
    then have "(k, a) \<in> set d" by (rule map_of_SomeD)
    with Cons.prems(2) e have "a' \<noteq> a" by force
    moreover have "load_pieces (st[a := v]) d = dict_set (load_pieces st d) k v"
      using Cons.IH[OF m] Cons.prems by simp
    ultimately show ?thesis using False e by (simp add: load_pieces_def)
  qed
qed

lemma dict_del_subset: "set (dict_del d k) \<subseteq> set d"
  by (induction d) (auto split: if_splits)

lemma dict_del_distinct_snd: "distinct (map snd d) \<Longrightarrow> distinct (map snd (dict_del d k))"
proof (induction d)
  case Nil
  then show ?case by simp
next
  case (Cons e d)
  have "snd ` set (dict_del d k) \<subseteq> snd ` set d"
    using dict_del_subset[of d k] by auto
  with Cons show ?case by (cases e) auto
qed

lemma dict_del_drops_value:
  "map_of d k = Some a \<Longrightarrow> distinct (map snd d) \<Longrightarrow> a \<notin> snd ` set (dict_del d k)"
proof (induction d)
  case Nil
  then show ?case by simp
next
  case (Cons e d)
  obtain k' a' where e: "e = (k', a')" by (cases e)
  show ?case
  proof (cases "k' = k")
    case True
    with Cons.prems e show ?thesis by auto
  next
    case False
    with Cons.prems e have m: "map_of d k = Some a" by simp
    then have "(k, a) \<in> set d" by (rule map_of_SomeD)
    with Cons.prems(2) e have "a' \<noteq> a" by force
    with Cons.IH[OF m] Cons.prems(2) False e show ?thesis by auto
  qed
qed

lemma dict_set_entries: "(k', a') \<in> set (dict_set d k a) \<Longrightarrow> a' = a \<or> (k', a') \<in> set d"
  by (induction d) (auto split: if_splits)

lemma dict_set_values: "snd ` set (dict_set d k a) \<subseteq> insert a (snd ` set d)"
  using dict_set_entries[of _ _ d k a] by force

lemma dict_set_distinct_snd:
  "distinct (map snd d) \<Longrightarrow> a \<notin> snd ` set d \<Longrightarrow> distinct (map snd (dict_set d k a))"
proof (induction d)
  case Nil
  then show ?case by simp
next
  case (Cons e d)
  obtain k' a' where e: "e = (k', a')" by (cases e)
  have "a' \<notin> snd ` set (dict_set d k a)"
    using dict_set_values[of d k a] Cons.prems e by auto
  with Cons e show ?case by auto
qed

lemma copy_pieces_ref_fresh:
  assumes d: "distinct (map fst d)" and v: "\<forall>ka \<in> set d. snd ka < length st"
    and c: "copy_pieces_ref st d [] = (st1, ps)"
  shows "st1 = st @ map (\<lambda>ka. st ! snd ka) d"
    and "ps = zip (map fst d) [length st ..< length st + length d]"
    and "load_pieces st1 ps = load_pieces st d"
    and "distinct (map snd ps)"
    and "snd ` set ps \<subseteq> {length st ..< length st1}"
proof -
  from copy_pieces_ref_eq[of d "[]" st "[]"] d v c
  show st1: "st1 = st @ map (\<lambda>ka. st ! snd ka) d"
    and ps: "ps = zip (map fst d) [length st ..< length st + length d]"
    by auto
  show "load_pieces st1 ps = load_pieces st d"
    unfolding load_pieces_def st1 ps
    by (rule nth_equalityI) (auto simp: nth_append)
  show "distinct (map snd ps)"
    unfolding ps by simp
  show "snd ` set ps \<subseteq> {length st ..< length st1}"
    unfolding ps st1 by (auto dest: set_zip_rightD)
qed

lemma copy_board_ref_abstraction:
  assumes d: "distinct (map fst (ref_pieces rb))"
    and v: "\<forall>ka \<in> set (ref_pieces rb). snd ka < length st"
  shows "map_sum id (\<lambda>r. load_board (fst r) (snd r)) (copy_board_ref st rb new_key old)
           = copy_board (load_board st rb) new_key old"
    and "copy_board_ref st rb new_key old = Inr (st', rb') \<Longrightarrow>
           take (length st) st' = st \<and> distinct (map snd (ref_pieces rb'))
           \<and> snd ` set (ref_pieces rb') \<subseteq> {length st ..< length st'}"
proof -
  obtain st1 ps where c: "copy_pieces_ref st (ref_pieces rb) [] = (st1, ps)"
    by (cases "copy_pieces_ref st (ref_pieces rb) []")
  note f = copy_pieces_ref_fresh[OF d v c]
  let ?h = "ref_height rb"
  let ?nx = "fst new_key" and ?ny = "snd new_key"
  have len: "length st \<le> length st1" using f(1) by simp
  show "map_sum id (\<lambda>r. load_board (fst r) (snd r)) (copy_board_ref st rb new_key old)
           = copy_board (load_board st rb) new_key old"
  proof (cases "map_of ps old")
    case None
    then have "map_of (load_pieces st (ref_pieces rb)) old = None"
      using map_of_load_pieces[of st1 ps old] f(3) by simp
    then have "copy_board (load_board st rb) new_key old =
           bind_err (update_grid ?h (load_pieces st (ref_pieces rb))) (\<lambda>_. Inl KeyError)"
      using copy_board_missing_key[of "load_board st rb" old new_key] by (simp add: load_board_def)
    moreover have "copy_board_ref st rb new_key old =
           bind_err (update_grid ?h (load_pieces st (ref_pieces rb))) (\<lambda>_. Inl KeyError)"
      using None by (simp add: copy_board_ref_def Let_def c f(3) dict_pop_def bind_err_def split: sum.splits)
    ultimately show ?thesis
      by (cases "update_grid ?h (load_pieces st (ref_pieces rb))") (simp_all add: bind_err_def)
  next
    case (Some a)
    let ?ps1 = "dict_set (dict_del ps old) new_key a"
    let ?st2 = "st1[a := set_coords (st1 ! a) ?nx ?ny]"
    have a_in: "a \<in> snd ` set ps" using map_of_SomeD[OF Some] by force
    then have a_lt: "a < length st1" using f(5) by auto
    have p: "map_of (load_pieces st (ref_pieces rb)) old = Some (st1 ! a)"
      using map_of_load_pieces[of st1 ps old] f(3) Some by simp
    have m1: "map_of ?ps1 new_key = Some a" by (simp add: map_of_dict_set)
    have d1: "distinct (map snd ?ps1)"
      using dict_set_distinct_snd[OF dict_del_distinct_snd[OF f(4)] dict_del_drops_value[OF Some f(4)]] .
    have l2: "load_pieces ?st2 ?ps1 =
                dict_set (dict_del (load_pieces st (ref_pieces rb)) old) new_key
                  (set_coords (st1 ! a) ?nx ?ny)"
      using load_pieces_update[OF m1 d1 a_lt]
      by (simp add: load_pieces_dict_set load_pieces_dict_del dict_set_twice f(3))
    have r: "copy_board_ref st rb new_key old =
           bind_err (update_grid ?h (load_pieces st (ref_pieces rb))) (\<lambda>g0.
           bind_err (update_grid ?h (load_pieces ?st2 ?ps1)) (\<lambda>g.
             Inr (?st2, \<lparr>ref_height = ?h, ref_pieces = ?ps1,
                         ref_goal_board_dict = ref_goal_board_dict rb, ref_grid = g\<rparr>)))"
      using Some
      by (simp add: copy_board_ref_def Let_def c f(3) dict_pop_def bind_err_def dict_get_dict_set
          split: sum.splits)
    have "copy_board (load_board st rb) new_key old =
           bind_err (update_grid ?h (load_pieces st (ref_pieces rb))) (\<lambda>_.
           bind_err (update_grid ?h (load_pieces ?st2 ?ps1)) (\<lambda>g.
           Inr \<lparr>height = ?h, pieces = load_pieces ?st2 ?ps1,
                goal_board_dict = ref_goal_board_dict rb, grid = g\<rparr>))"
      using copy_board_eq[of "load_board st rb" old "st1 ! a" new_key] p
      by (simp add: load_board_def l2)
    with r show ?thesis
      by (cases "update_grid ?h (load_pieces st (ref_pieces rb))";
          cases "update_grid ?h (load_pieces ?st2 ?ps1)")
         (simp_all add: bind_err_def load_board_def)
  qed
  show "take (length st) st' = st \<and> distinct (map snd (ref_pieces rb'))
           \<and> snd ` set (ref_pieces rb') \<subseteq> {length st ..< length st'}"
    if r: "copy_board_ref st rb new_key old = Inr (st', rb')"
  proof -
    from r obtain a where Some: "map_of ps old = Some a"
      by (cases "map_of ps old")
         (auto simp: copy_board_ref_def Let_def c dict_pop_def bind_err_def split: sum.splits)
    let ?ps1 = "dict_set (dict_del ps old) new_key a"
    let ?st2 = "st1[a := set_coords (st1 ! a) ?nx ?ny]"
    from r Some have st': "st' = ?st2" and rb': "ref_pieces rb' = ?ps1"
      by (auto simp: copy_board_ref_def Let_def c dict_pop_def bind_err_def dict_get_dict_set
          split: sum.splits)
    have a_in: "a \<in> snd ` set ps" using map_of_SomeD[OF Some] by force
    then have a_ge: "length st \<le> a" using f(5) by auto
    have "take (length st) st' = st" using a_ge f(1) by (simp add: st')
    moreover have "distinct (map snd (ref_pieces rb'))"
      unfolding rb'
      using dict_set_distinct_snd[OF dict_del_distinct_snd[OF f(4)] dict_del_drops_value[OF Some f(4)]] .
    moreover have "snd ` set (ref_pieces rb') \<subseteq> {length st ..< length st'}"
    proof -
      have "snd ` set ?ps1 \<subseteq> insert a (snd ` set (dict_del ps old))" by (rule dict_set_values)
      also have "\<dots> \<subseteq> snd ` set ps" using a_in dict_del_subset[of ps old] by auto
      also have "\<dots> \<subseteq> {length st ..< length st1}" by (rule f(5))
      finally show ?thesis by (simp add: rb' st')
    qed
    ultimately show ?thesis by blast
  qed
qed

lemma mset_without_key:
  "distinct (map fst d) \<Longrightarrow> map_of d k = Some v \<Longrightarrow>
   mset d = mset (filter (\<lambda>kv. fst kv \<noteq> k) d) + {#(k, v)#}"
proof (induction d)
  case Nil
  then show ?case by simp
next
  case (Cons e d)
  obtain k' v' where e: "e = (k', v')" by (cases e)
  show ?case
  proof (cases "k' = k")
    case True
    with Cons.prems e have "v' = v" "\<forall>x \<in> set d. fst x \<noteq> k" by auto
    then have "filter (\<lambda>kv. fst kv \<noteq> k) d = d" by (simp add: filter_id_conv)
    with True e \<open>v' = v\<close> show ?thesis by simp
  next
    case False
    with Cons e show ?thesis by simp
  qed
qed

lemma map_of_filter_other_key:
  "k \<noteq> old \<Longrightarrow> map_of (filter (\<lambda>kp. fst kp \<noteq> old) d) k = map_of d k"
  by (induction d) auto

lemma copy_board_pieces:
  assumes d: "distinct (map fst (pieces b))"
    and p: "map_of (pieces b) old = Some p"
    and n: "new_key \<notin> fst ` set (pieces b) - {old}"
    and c: "copy_board b new_key old = Inr b'"
  shows "pieces b' = filter (\<lambda>kp. fst kp \<noteq> old) (pieces b) @
                       [(new_key, p\<lparr>coord_x := fst new_key, coord_y := snd new_key\<rparr>)]"
    and "height b' = height b" and "goal_board_dict b' = goal_board_dict b"
    and "update_grid (height b') (pieces b') = Inr (grid b')"
proof -
  let ?ps = "dict_set (dict_del (pieces b) old) new_key (set_coords p (fst new_key) (snd new_key))"
  from c copy_board_eq[OF p, of new_key]
  obtain g where g: "update_grid (height b) ?ps = Inr g"
    and b': "b' = \<lparr>height = height b, pieces = ?ps, goal_board_dict = goal_board_dict b, grid = g\<rparr>"
    by (auto simp: bind_err_def split: sum.splits)
  have "new_key \<notin> fst ` set (filter (\<lambda>kp. fst kp \<noteq> old) (pieces b))"
    using n by auto
  then have "?ps = filter (\<lambda>kp. fst kp \<noteq> old) (pieces b) @
                     [(new_key, set_coords p (fst new_key) (snd new_key))]"
    by (simp add: dict_del_filter[OF d] dict_set_fresh)
  then show "pieces b' = filter (\<lambda>kp. fst kp \<noteq> old) (pieces b) @
                       [(new_key, p\<lparr>coord_x := fst new_key, coord_y := snd new_key\<rparr>)]"
    by (simp add: b' set_coords_def)
  show "height b' = height b" "goal_board_dict b' = goal_board_dict b"
    by (simp_all add: b')
  show "update_grid (height b') (pieces b') = Inr (grid b')"
    using g by (simp add: b')
qed

text \<open>
  C4 (as the code has it).  The source board has distinct keys and valid piece addresses,
  \<open>old\<close> is one of its keys, and \<open>new_key\<close> is not the key of another piece.  Whenever
  \<^verbatim>\<open>copy_board\<close> returns: no piece object that existed before the call is changed, so the
  source board reads exactly as before; every piece of the new board is a freshly allocated
  object, none shared with the source or with another entry; read as values, the new board
  is the one the value model computes; its dictionary is the source's without the entry
  \<open>old\<close>, followed by the moved piece under \<open>new_key\<close> with coordinates \<open>new_key\<close> and all
  other fields as before; every other key maps to the same piece as in the source; the
  number of pieces and the uids are the same; height and goal dictionary are the source's;
  and the grid is the one derived from the new dictionary.
\<close>

theorem copy_board_ref_clone:
  assumes d: "distinct (map fst (ref_pieces rb))"
    and v: "\<forall>ka \<in> set (ref_pieces rb). snd ka < length st"
    and a: "map_of (ref_pieces rb) old = Some a"
    and n: "new_key \<notin> fst ` set (ref_pieces rb) - {old}"
    and r: "copy_board_ref st rb new_key old = Inr (st', rb')"
  shows "take (length st) st' = st
     \<and> load_board st' rb = load_board st rb
     \<and> snd ` set (ref_pieces rb') \<subseteq> {length st ..< length st'}
     \<and> distinct (map snd (ref_pieces rb'))
     \<and> copy_board (load_board st rb) new_key old = Inr (load_board st' rb')
     \<and> pieces (load_board st' rb') =
          filter (\<lambda>kp. fst kp \<noteq> old) (pieces (load_board st rb)) @
            [(new_key, (st ! a)\<lparr>coord_x := fst new_key, coord_y := snd new_key\<rparr>)]
     \<and> (\<forall>k. k \<noteq> old \<and> k \<noteq> new_key \<longrightarrow>
            map_of (pieces (load_board st' rb')) k = map_of (pieces (load_board st rb)) k)
     \<and> length (pieces (load_board st' rb')) = length (pieces (load_board st rb))
     \<and> mset (map (\<lambda>kp. uid (snd kp)) (pieces (load_board st' rb'))) =
         mset (map (\<lambda>kp. uid (snd kp)) (pieces (load_board st rb)))
     \<and> height (load_board st' rb') = height (load_board st rb)
     \<and> goal_board_dict (load_board st' rb') = goal_board_dict (load_board st rb)
     \<and> update_grid (height (load_board st' rb')) (pieces (load_board st' rb')) =
         Inr (grid (load_board st' rb'))"
proof -
  let ?b = "load_board st rb" and ?b' = "load_board st' rb'"
  let ?moved = "(st ! a)\<lparr>coord_x := fst new_key, coord_y := snd new_key\<rparr>"
  note s = copy_board_ref_abstraction[OF d v, of new_key old]
  from s(2)[OF r] have frame: "take (length st) st' = st"
    and fresh: "snd ` set (ref_pieces rb') \<subseteq> {length st ..< length st'}"
    and dist: "distinct (map snd (ref_pieces rb'))"
    by auto
  have src: "load_board st' rb = load_board st rb"
  proof -
    have "st' ! snd ka = st ! snd ka" if "ka \<in> set (ref_pieces rb)" for ka
    proof -
      from that v have "snd ka < length st" by auto
      then show ?thesis using frame by (metis nth_take)
    qed
    then show ?thesis by (simp add: load_board_def load_pieces_def)
  qed
  have cb: "copy_board ?b new_key old = Inr ?b'"
    using s(1) r by simp
  have d': "distinct (map fst (pieces ?b))"
    using d by (simp add: load_board_def load_pieces_def comp_def)
  have p': "map_of (pieces ?b) old = Some (st ! a)"
    using a by (simp add: load_board_def map_of_load_pieces)
  have n': "new_key \<notin> fst ` set (pieces ?b) - {old}"
    using n by (force simp: load_board_def load_pieces_def)
  note cp = copy_board_pieces[OF d' p' n' cb]
  have lookup: "map_of (pieces ?b') k = map_of (pieces ?b) k" if "k \<noteq> old \<and> k \<noteq> new_key" for k
  proof -
    have "map_of (filter (\<lambda>kp. fst kp \<noteq> old) (pieces ?b)) k = map_of (pieces ?b) k"
      using that by (simp add: map_of_filter_other_key)
    then show ?thesis using that by (auto simp: cp(1) map_add_def split: option.splits)
  qed
  have ms: "mset (pieces ?b') = mset (filter (\<lambda>kp. fst kp \<noteq> old) (pieces ?b)) + {#(new_key, ?moved)#}"
    by (simp add: cp(1))
  have ms0: "mset (pieces ?b) = mset (filter (\<lambda>kp. fst kp \<noteq> old) (pieces ?b)) + {#(old, st ! a)#}"
    by (rule mset_without_key[OF d' p'])
  have len: "length (pieces ?b') = length (pieces ?b)"
    using arg_cong[OF ms, of size] arg_cong[OF ms0, of size] by simp
  have uids: "mset (map (\<lambda>kp. uid (snd kp)) (pieces ?b')) = mset (map (\<lambda>kp. uid (snd kp)) (pieces ?b))"
    using arg_cong[OF ms, of "image_mset (\<lambda>kp. uid (snd kp))"]
          arg_cong[OF ms0, of "image_mset (\<lambda>kp. uid (snd kp))"]
    by simp
  from frame src fresh dist cb cp lookup len uids show ?thesis by simp
qed

theorem copy_board_ref_clone_witness:
  "copy_board_ref ex_store ex_board_ref (0, 1) (0, 0) =
     Inr (ex_store @ [Piece_init False False 0 1 (Some ''h'') 1, ex_s],
          \<lparr>ref_height = 2, ref_pieces = [((2, 0), 3), ((0, 1), 2)],
           ref_goal_board_dict = Some ex_goal_dict, ref_grid = [''..2.'', ''<>..'']\<rparr>)
   \<and> load_board (ex_store @ [Piece_init False False 0 1 (Some ''h'') 1, ex_s]) ex_board_ref = ex_board
   \<and> copy_board ex_board (0, 1) (0, 0) =
       Inr \<lparr>height = 2,
            pieces = [((2, 0), ex_s), ((0, 1), Piece_init False False 0 1 (Some ''h'') 1)],
            goal_board_dict = Some ex_goal_dict, grid = [''..2.'', ''<>..'']\<rparr>"
proof -
  let ?st' = "ex_store @ [Piece_init False False 0 1 (Some ''h'') 1, ex_s]"
  let ?rb' = "\<lparr>ref_height = 2, ref_pieces = [((2, 0), 3), ((0, 1), 2)],
           ref_goal_board_dict = Some ex_goal_dict, ref_grid = [''..2.'', ''<>..'']\<rparr>"
  have d: "distinct (map fst (ref_pieces ex_board_ref))"
    by (simp add: ex_board_ref_def)
  have v: "\<forall>ka \<in> set (ref_pieces ex_board_ref). snd ka < length ex_store"
    by (simp add: ex_board_ref_def ex_store_def)
  have a: "map_of (ref_pieces ex_board_ref) (0, 0) = Some 0"
    by (simp add: ex_board_ref_def)
  have n: "(0, 1) \<notin> fst ` set (ref_pieces ex_board_ref) - {(0, 0)}"
    by (simp add: ex_board_ref_def)
  have r: "copy_board_ref ex_store ex_board_ref (0, 1) (0, 0) = Inr (?st', ?rb')"
    by code_simp
  have l: "load_board ex_store ex_board_ref = ex_board"
    by (simp add: load_board_def load_pieces_def ex_store_def ex_board_ref_def ex_board_def)
  have l': "load_board ?st' ?rb' = \<lparr>height = 2,
            pieces = [((2, 0), ex_s), ((0, 1), Piece_init False False 0 1 (Some ''h'') 1)],
            goal_board_dict = Some ex_goal_dict, grid = [''..2.'', ''<>..'']\<rparr>"
    by (simp add: load_board_def load_pieces_def ex_store_def)
  from copy_board_ref_clone[OF d v a n r] r show ?thesis
    by (simp only: l l' simp_thms)
qed

text \<open>
  C4 as stated fails for a destination that is the key of another piece: the moved piece
  replaces that entry, and the clone has one piece fewer.  For a destination outside the
  grid no board is produced at all.
\<close>

theorem copy_board_onto_key_counterexample:
  "map_of (pieces ex_two_singles) (0, 0) = Some (Piece_init False True 0 0 None 1)
   \<and> length (pieces ex_two_singles) = 2
   \<and> map_sum id (\<lambda>b. length (pieces b)) (copy_board ex_two_singles (1, 0) (0, 0)) = Inr 1
   \<and> copy_board ex_two_singles (4, 0) (0, 0) = Inl IndexError"
  by code_simp

section \<open>Legal moves keep the board well formed\<close>

lemma stamp_cells_nonempty: "w \<in> set (stamp_cells p) \<Longrightarrow> snd w \<noteq> char_empty"
  by (auto simp: stamp_cells_def Let_def char_empty_def char_single_def split: if_splits)

lemma grid_writes_nonempty: "w \<in> set (grid_writes ps) \<Longrightarrow> snd w \<noteq> char_empty"
  by (auto simp: grid_writes_def dest: stamp_cells_nonempty)

lemma footprint_in_writes:
  "kp \<in> set ps \<Longrightarrow> c \<in> footprint (snd kp) \<Longrightarrow> c \<in> fst ` set (grid_writes ps)"
  by (force simp: grid_writes_def footprint_def)

lemma wf_writes_in_grid:
  assumes "\<forall>kp \<in> set ps. \<forall>c \<in> footprint (snd kp). in_grid h c"
  shows "\<forall>w \<in> set (grid_writes ps). in_grid h (fst w)"
  using assms by (force simp: grid_writes_def footprint_def)

lemma wf_board_writes: "wf_board b \<Longrightarrow> \<forall>w \<in> set (grid_writes (pieces b)). in_grid (height b) (fst w)"
  by (rule wf_writes_in_grid) (simp add: wf_board_def)

lemma wf_board_grid_dims: "wf_board b \<Longrightarrow> grid_dims (height b) (grid b)"
  using update_grid_in_grid[OF wf_board_writes, of b] by (auto simp: wf_board_def)

lemma wf_board_occupied:
  assumes wf: "wf_board b" and kp: "kp \<in> set (pieces b)" and c: "c \<in> footprint (snd kp)"
  shows "is_empty (grid b) (snd c) (fst c) = Inr False"
proof -
  from update_grid_in_grid[OF wf_board_writes[OF wf]] wf
  have cells: "\<And>x y. in_grid (height b) (x, y) \<Longrightarrow>
         grid_get (grid b) y x =
           Inr (case map_of (rev (grid_writes (pieces b))) (x, y) of
                  None \<Rightarrow> CHR ''.'' | Some ch \<Rightarrow> ch)"
    by (auto simp: wf_board_def)
  from wf kp c have ing: "in_grid (height b) c" by (auto simp: wf_board_def)
  have "c \<in> fst ` set (rev (grid_writes (pieces b)))"
    using footprint_in_writes[OF kp c] by simp
  then obtain ch where ch: "map_of (rev (grid_writes (pieces b))) c = Some ch"
    by (metis domD dom_map_of_conv_image_fst)
  then have "(c, ch) \<in> set (grid_writes (pieces b))"
    using map_of_SomeD by fastforce
  then have "ch \<noteq> char_empty" using grid_writes_nonempty by fastforce
  with cells[of "fst c" "snd c"] ing ch show ?thesis
    by (simp add: is_empty_def bind_err_def)
qed

lemma key_in_footprint: "proper_piece p \<Longrightarrow> key_of p \<in> footprint p"
  unfolding proper_piece_def key_of_def
  by (cases "is_2_by_2 p"; cases "is_single p"; cases "orientation p = Some ''h''")
     (auto simp: footprint_block footprint_single footprint_horizontal footprint_vertical)

lemma proper_set_coords: "proper_piece (set_coords p x y) = proper_piece p"
  by (simp add: proper_piece_def set_coords_def)

lemma key_of_set_coords: "key_of (set_coords p x y) = (x, y)"
  by (simp add: key_of_def set_coords_def)

lemma wf_lookup:
  "wf_board b \<Longrightarrow> (k, p) \<in> set (pieces b) \<Longrightarrow> map_of (pieces b) (key_of p) = Some p"
  by (auto simp: wf_board_def)

lemma wf_board_distinct: "wf_board b \<Longrightarrow> distinct (map fst (pieces b))"
  by (simp add: wf_board_def)

lemma wf_board_piece:
  assumes "wf_board b" "(k, p) \<in> set (pieces b)"
  shows "k = key_of p" "proper_piece p" "\<forall>c \<in> footprint p. in_grid (height b) c"
proof -
  from assms(1) have "\<forall>kp \<in> set (pieces b).
            fst kp = key_of (snd kp) \<and> proper_piece (snd kp)
            \<and> (\<forall>c \<in> footprint (snd kp). in_grid (height b) c)"
    by (simp add: wf_board_def)
  from bspec[OF this assms(2)]
  show "k = key_of p" "proper_piece p" "\<forall>c \<in> footprint p. in_grid (height b) c"
    by simp_all
qed

lemma wf_board_disjoint:
  assumes "wf_board b" "(k, p) \<in> set (pieces b)" "(k', q) \<in> set (pieces b)" "k \<noteq> k'"
  shows "footprint p \<inter> footprint q = {}"
proof -
  from assms(1) have "\<forall>kp \<in> set (pieces b). \<forall>kq \<in> set (pieces b).
            kp \<noteq> kq \<longrightarrow> footprint (snd kp) \<inter> footprint (snd kq) = {}"
    by (simp add: wf_board_def)
  from bspec[OF bspec[OF this assms(2)] assms(3)] assms(4) show ?thesis by simp
qed

lemma wf_board_grid: "wf_board b \<Longrightarrow> update_grid (height b) (pieces b) = Inr (grid b)"
  by (simp add: wf_board_def)

lemma wf_boardI:
  assumes "distinct (map fst (pieces b))"
    and "\<And>k p. (k, p) \<in> set (pieces b) \<Longrightarrow>
           k = key_of p \<and> proper_piece p \<and> (\<forall>c \<in> footprint p. in_grid (height b) c)"
    and "\<And>k p k' q. (k, p) \<in> set (pieces b) \<Longrightarrow> (k', q) \<in> set (pieces b) \<Longrightarrow> k \<noteq> k' \<Longrightarrow>
           footprint p \<inter> footprint q = {}"
    and "update_grid (height b) (pieces b) = Inr (grid b)"
  shows "wf_board b"
proof -
  have a: "\<forall>kp \<in> set (pieces b).
            fst kp = key_of (snd kp) \<and> proper_piece (snd kp)
            \<and> (\<forall>c \<in> footprint (snd kp). in_grid (height b) c)"
  proof
    fix kp assume "kp \<in> set (pieces b)"
    then have "(fst kp, snd kp) \<in> set (pieces b)" by simp
    from assms(2)[OF this] show "fst kp = key_of (snd kp) \<and> proper_piece (snd kp)
            \<and> (\<forall>c \<in> footprint (snd kp). in_grid (height b) c)" .
  qed
  have b: "\<forall>kp \<in> set (pieces b). \<forall>kq \<in> set (pieces b).
            kp \<noteq> kq \<longrightarrow> footprint (snd kp) \<inter> footprint (snd kq) = {}"
  proof (intro ballI impI)
    fix kp kq assume m: "kp \<in> set (pieces b)" "kq \<in> set (pieces b)" and ne: "kp \<noteq> kq"
    have "fst kp \<noteq> fst kq"
    proof
      assume e: "fst kp = fst kq"
      from m have "map_of (pieces b) (fst kp) = Some (snd kp)" "map_of (pieces b) (fst kq) = Some (snd kq)"
        using assms(1) by simp_all
      with e have "snd kp = snd kq" by simp
      with e ne show False by (simp add: prod_eq_iff)
    qed
    with assms(3)[of "fst kp" "snd kp" "fst kq" "snd kq"] m
    show "footprint (snd kp) \<inter> footprint (snd kq) = {}" by simp
  qed
  from assms(1) a b assms(4) show ?thesis unfolding wf_board_def by blast
qed

lemma legal_move_wf:
  assumes wf: "wf_board b" and kp: "(k, p) \<in> set (pieces b)" and l: "legal_dest b p d"
  shows "\<exists>b'. copy_board b d (key_of p) = Inr b' \<and> wf_board b'
           \<and> pieces b' = filter (\<lambda>kq. fst kq \<noteq> k) (pieces b) @ [(d, set_coords p (fst d) (snd d))]
           \<and> height b' = height b \<and> goal_board_dict b' = goal_board_dict b"
proof -
  let ?m = "set_coords p (fst d) (snd d)"
  let ?rest = "filter (\<lambda>kq. fst kq \<noteq> k) (pieces b)"
  let ?ps' = "?rest @ [(d, ?m)]"
  let ?h = "height b"
  note pk = wf_board_piece[OF wf kp]
  have dist: "distinct (map fst (pieces b))" using wf by (rule wf_board_distinct)
  have lookup: "map_of (pieces b) (key_of p) = Some p"
    using wf kp by (rule wf_lookup)
  have m_in: "\<forall>c \<in> footprint ?m. in_grid ?h c"
    using l by (simp add: legal_dest_def)
  have lead: "is_empty (grid b) (snd c) (fst c) = Inr True"
    if "c \<in> footprint ?m" "c \<notin> footprint p" for c
    using l that by (simp add: legal_dest_def)
  have others: "footprint ?m \<inter> footprint q = {}" if q: "(k', q) \<in> set (pieces b)" "k' \<noteq> k" for k' q
  proof (rule ccontr)
    assume "footprint ?m \<inter> footprint q \<noteq> {}"
    then obtain c where c: "c \<in> footprint ?m" "c \<in> footprint q" by blast
    show False
    proof (cases "c \<in> footprint p")
      case True
      have "footprint p \<inter> footprint q = {}"
        using wf_board_disjoint[OF wf kp q(1)] q(2) by simp
      with True c(2) show False by blast
    next
      case False
      have "is_empty (grid b) (snd c) (fst c) = Inr True" using c(1) False by (rule lead)
      moreover have "is_empty (grid b) (snd c) (fst c) = Inr False"
        using wf_board_occupied[OF wf q(1)] c(2) by simp
      ultimately show False by simp
    qed
  qed
  have rest_in: "(k', q) \<in> set (pieces b) \<and> k' \<noteq> k" if "(k', q) \<in> set ?rest" for k' q
    using that by simp
  have fresh': "d \<notin> fst ` set ?rest"
  proof
    assume "d \<in> fst ` set ?rest"
    then obtain q where "(d, q) \<in> set ?rest" by force
    then have q: "(d, q) \<in> set (pieces b)" "d \<noteq> k" using rest_in by blast+
    note qk = wf_board_piece[OF wf q(1)]
    have "d \<in> footprint q" using key_in_footprint[OF qk(2)] qk(1) by simp
    moreover have "d \<in> footprint ?m"
      using key_in_footprint[of ?m] pk(2) by (simp add: proper_set_coords key_of_set_coords)
    ultimately show False using others[OF q] by blast
  qed
  have ps': "dict_set (dict_del (pieces b) (key_of p)) d ?m = ?ps'"
    using fresh' dict_del_filter[OF dist, of k] dict_set_fresh[of d ?rest ?m] pk(1) by simp
  have piece': "k' = key_of q \<and> proper_piece q \<and> (\<forall>c \<in> footprint q. in_grid ?h c)"
    if "(k', q) \<in> set ?ps'" for k' q
  proof (cases "(k', q) = (d, ?m)")
    case True
    then show ?thesis using m_in pk(2) by (simp add: key_of_set_coords proper_set_coords)
  next
    case False
    with that have "(k', q) \<in> set ?rest" by auto
    then have "(k', q) \<in> set (pieces b)" using rest_in by blast
    from wf_board_piece[OF wf this] show ?thesis by blast
  qed
  have in_grid': "\<forall>kq \<in> set ?ps'. \<forall>c \<in> footprint (snd kq). in_grid ?h c"
  proof
    fix kq assume "kq \<in> set ?ps'"
    then have "(fst kq, snd kq) \<in> set ?ps'" by simp
    from piece'[OF this] show "\<forall>c \<in> footprint (snd kq). in_grid ?h c" by blast
  qed
  from update_grid_in_grid[OF wf_writes_in_grid[OF in_grid']]
  obtain g' where g': "update_grid ?h ?ps' = Inr g'" by blast
  define b' where "b' = \<lparr>height = ?h, pieces = ?ps', goal_board_dict = goal_board_dict b, grid = g'\<rparr>"
  have sel: "pieces b' = ?ps'" "height b' = ?h" "goal_board_dict b' = goal_board_dict b" "grid b' = g'"
    by (simp_all add: b'_def)
  have src: "update_grid ?h (pieces b) = Inr (grid b)" using wf by (rule wf_board_grid)
  have cb: "copy_board b d (key_of p) = Inr b'"
    unfolding copy_board_eq[OF lookup] ps' src g' b'_def by (simp add: bind_err_def)
  have w1: "distinct (map fst (pieces b'))"
    unfolding sel using dist fresh' by (simp add: distinct_map_filter)
  have w3: "footprint q \<inter> footprint r = {}"
    if m: "(kq, q) \<in> set (pieces b')" "(kr, r) \<in> set (pieces b')" and ne: "kq \<noteq> kr" for kq q kr r
  proof -
    from m have m': "(kq, q) \<in> set ?rest \<or> (kq, q) = (d, ?m)" "(kr, r) \<in> set ?rest \<or> (kr, r) = (d, ?m)"
      unfolding sel by auto
    from m' ne consider
        (old) "(kq, q) \<in> set ?rest" "(kr, r) \<in> set ?rest"
      | (left) "(kq, q) = (d, ?m)" "(kr, r) \<in> set ?rest"
      | (right) "(kq, q) \<in> set ?rest" "(kr, r) = (d, ?m)"
      by blast
    then show ?thesis
    proof cases
      case old
      then have "(kq, q) \<in> set (pieces b)" "(kr, r) \<in> set (pieces b)" using rest_in by blast+
      from wf_board_disjoint[OF wf this ne] show ?thesis .
    next
      case left
      from rest_in[OF left(2)] have "(kr, r) \<in> set (pieces b)" "kr \<noteq> k" by blast+
      from others[OF this] left(1) show ?thesis by simp
    next
      case right
      from rest_in[OF right(1)] have "(kq, q) \<in> set (pieces b)" "kq \<noteq> k" by blast+
      from others[OF this] right(2) show ?thesis by blast
    qed
  qed
  have "wf_board b'"
  proof (rule wf_boardI)
    show "distinct (map fst (pieces b'))" by (rule w1)
    show "k' = key_of q \<and> proper_piece q \<and> (\<forall>c \<in> footprint q. in_grid (height b') c)"
      if "(k', q) \<in> set (pieces b')" for k' q
      using piece'[of k' q] that unfolding sel by blast
    show "footprint q \<inter> footprint r = {}"
      if "(kq, q) \<in> set (pieces b')" "(kr, r) \<in> set (pieces b')" "kq \<noteq> kr" for kq q kr r
      using that by (rule w3)
    show "update_grid (height b') (pieces b') = Inr (grid b')"
      unfolding sel by (rule g')
  qed
  with cb sel show ?thesis by blast
qed

section \<open>Successor generation\<close>

lemma fold_err_collect:
  "fold_err (\<lambda>x acc. bind_err (F x) (\<lambda>s. Inr (acc @ [s]))) xs acc = Inr r \<longleftrightarrow>
     (\<exists>ss. map F xs = map Inr ss \<and> r = acc @ ss)"
proof (induction xs arbitrary: acc)
  case Nil
  then show ?case by auto
next
  case (Cons x xs)
  show ?case
  proof (cases "F x")
    case (Inl e)
    then show ?thesis by (auto simp: bind_err_def map_eq_Cons_conv)
  next
    case (Inr s)
    have "fold_err (\<lambda>x acc. bind_err (F x) (\<lambda>s. Inr (acc @ [s]))) (x # xs) acc = Inr r \<longleftrightarrow>
          (\<exists>ss. map F xs = map Inr ss \<and> r = (acc @ [s]) @ ss)"
      using Cons.IH[of "acc @ [s]"] Inr by (simp add: bind_err_def)
    also have "\<dots> \<longleftrightarrow> (\<exists>ss. map F (x # xs) = map Inr ss \<and> r = acc @ ss)"
    proof
      assume "\<exists>ss. map F xs = map Inr ss \<and> r = (acc @ [s]) @ ss"
      then obtain ss where "map F xs = map Inr ss" "r = (acc @ [s]) @ ss" by blast
      then have "map F (x # xs) = map Inr (s # ss) \<and> r = acc @ (s # ss)" using Inr by simp
      then show "\<exists>ss. map F (x # xs) = map Inr ss \<and> r = acc @ ss" by blast
    next
      assume "\<exists>ss. map F (x # xs) = map Inr ss \<and> r = acc @ ss"
      then obtain ss where ss: "map F (x # xs) = map Inr ss" "r = acc @ ss" by blast
      then obtain s' ss' where "ss = s' # ss'" "F x = Inr s'" "map F xs = map Inr ss'"
        by (cases ss) auto
      with Inr ss show "\<exists>ss. map F xs = map Inr ss \<and> r = (acc @ [s]) @ ss" by auto
    qed
    finally show ?thesis .
  qed
qed

lemma piece_successors_iff:
  "piece_successors s p acc = Inr r \<longleftrightarrow> (\<exists>ss. piece_succ_rel s p ss \<and> r = acc @ ss)"
proof (cases "piece_new_keys (board s) p")
  case (Inl e)
  then show ?thesis by (simp add: piece_successors_def piece_succ_rel_def bind_err_def)
next
  case (Inr ks)
  then show ?thesis
    by (simp add: piece_successors_def piece_succ_rel_def bind_err_Inr fold_err_collect)
qed

lemma fold_piece_successors_iff:
  "fold_err (piece_successors s) ps acc = Inr r \<longleftrightarrow>
     (\<exists>sss. list_all2 (piece_succ_rel s) ps sss \<and> r = acc @ concat sss)"
proof (induction ps arbitrary: acc)
  case Nil
  then show ?case by auto
next
  case (Cons p ps)
  show ?case
  proof
    assume "fold_err (piece_successors s) (p # ps) acc = Inr r"
    then obtain r1 where r1: "piece_successors s p acc = Inr r1"
      and rest: "fold_err (piece_successors s) ps r1 = Inr r"
      by (cases "piece_successors s p acc") (auto simp: bind_err_def)
    from r1 obtain ss where ss: "piece_succ_rel s p ss" "r1 = acc @ ss"
      using piece_successors_iff by blast
    from rest Cons.IH obtain sss where sss: "list_all2 (piece_succ_rel s) ps sss" "r = r1 @ concat sss"
      by blast
    from ss sss have "list_all2 (piece_succ_rel s) (p # ps) (ss # sss) \<and> r = acc @ concat (ss # sss)"
      by simp
    then show "\<exists>sss. list_all2 (piece_succ_rel s) (p # ps) sss \<and> r = acc @ concat sss" by blast
  next
    assume "\<exists>sss. list_all2 (piece_succ_rel s) (p # ps) sss \<and> r = acc @ concat sss"
    then obtain sss where a: "list_all2 (piece_succ_rel s) (p # ps) sss" "r = acc @ concat sss" by blast
    then obtain ss sss' where c: "sss = ss # sss'" "piece_succ_rel s p ss"
      "list_all2 (piece_succ_rel s) ps sss'"
      by (auto simp: list_all2_Cons1)
    have "piece_successors s p acc = Inr (acc @ ss)"
      using piece_successors_iff c(2) by blast
    moreover have "fold_err (piece_successors s) ps (acc @ ss) = Inr r"
      using Cons.IH[of "acc @ ss"] c a by auto
    ultimately show "fold_err (piece_successors s) (p # ps) acc = Inr r"
      by (simp add: bind_err_def)
  qed
qed

lemma generate_successors_iff:
  "generate_successors s = Inr ts \<longleftrightarrow>
     (\<exists>sss. list_all2 (piece_succ_rel s) (map snd (pieces (board s))) sss \<and> ts = concat sss)"
  by (simp add: generate_successors_def fold_piece_successors_iff)

lemma generate_successors_elem:
  assumes "generate_successors s = Inr ts" "t \<in> set ts"
  shows "\<exists>k p ks d. (k, p) \<in> set (pieces (board s)) \<and> piece_new_keys (board s) p = Inr ks
            \<and> d \<in> set ks \<and> successor_for s p d = Inr t"
proof -
  from assms(1) obtain sss where sss: "list_all2 (piece_succ_rel s) (map snd (pieces (board s))) sss"
    "ts = concat sss"
    using generate_successors_iff by blast
  from assms(2) sss(2) obtain ss where ss: "ss \<in> set sss" "t \<in> set ss" by auto
  then obtain i where i: "i < length sss" "sss ! i = ss" by (auto simp: in_set_conv_nth)
  with sss(1) have il: "i < length (pieces (board s))"
    and rel: "piece_succ_rel s (snd (pieces (board s) ! i)) ss"
    by (auto simp: list_all2_conv_all_nth)
  let ?kp = "pieces (board s) ! i"
  from rel obtain ks where ks: "piece_new_keys (board s) (snd ?kp) = Inr ks"
    "map (successor_for s (snd ?kp)) ks = map Inr ss"
    by (auto simp: piece_succ_rel_def)
  from ss(2) obtain j where j: "j < length ss" "ss ! j = t" by (auto simp: in_set_conv_nth)
  from ks(2) have len: "length ks = length ss" by (metis length_map)
  with j ks(2) have "successor_for s (snd ?kp) (ks ! j) = Inr t"
    by (metis nth_map)
  moreover have "ks ! j \<in> set ks" using j len by simp
  moreover have "(fst ?kp, snd ?kp) \<in> set (pieces (board s))" using il by simp
  ultimately show ?thesis using ks(1) by blast
qed

section \<open>The heuristic\<close>

lemma inner_fold_sum:
  "fold (\<lambda>g total. if c g then total + d g else total) gs (t::int) =
     t + sum_list (map (\<lambda>g. if c g then d g else 0) gs)"
  by (induction gs arbitrary: t) auto

lemma outer_fold_sum:
  "fold (\<lambda>p total. total + h p) ps (t::int) = t + sum_list (map h ps)"
  by (induction ps arbitrary: t) auto

lemma init_manhattan_distance_sum:
  "init_manhattan_distance b goal_board =
     sum_list (map (\<lambda>kp. sum_list (map (\<lambda>kg.
         if uid (snd kp) = uid (snd kg)
         then \<bar>coord_x (snd kg) - coord_x (snd kp)\<bar> + \<bar>coord_y (snd kg) - coord_y (snd kp)\<bar>
         else 0) (pieces goal_board))) (pieces b))"
proof -
  have "init_manhattan_distance b goal_board =
     fold (\<lambda>piece total. total + sum_list (map (\<lambda>g.
         if uid piece = uid g
         then \<bar>coord_x g - coord_x piece\<bar> + \<bar>coord_y g - coord_y piece\<bar>
         else 0) (map snd (pieces goal_board)))) (map snd (pieces b)) 0"
    unfolding init_manhattan_distance_def inner_fold_sum ..
  then show ?thesis
    by (simp add: outer_fold_sum comp_def)
qed

lemma matching_goal_sum:
  assumes "distinct (map (\<lambda>kg. uid (snd kg)) gs)"
  shows "sum_list (map (\<lambda>kg. if u = uid (snd kg) then (D (snd kg) :: int) else 0) gs) =
           (case map_of (map (\<lambda>kg. (uid (snd kg), snd kg)) gs) u of None \<Rightarrow> 0 | Some g \<Rightarrow> D g)"
  using assms
proof (induction gs)
  case Nil
  then show ?case by simp
next
  case (Cons kg gs)
  show ?case
  proof (cases "u = uid (snd kg)")
    case True
    with Cons.prems have "\<forall>x \<in> set gs. u \<noteq> uid (snd x)" by auto
    then have "sum_list (map (\<lambda>kg. if u = uid (snd kg) then D (snd kg) else 0) gs) = 0"
      by (induction gs) auto
    with True show ?thesis by simp
  next
    case False
    with Cons show ?thesis by simp
  qed
qed

lemma init_manhattan_distance_heuristic_sum:
  assumes "goal_consistent gd goal_board"
  shows "init_manhattan_distance b goal_board = heuristic_sum gd b"
proof -
  from assms have d: "distinct (map (\<lambda>kg. uid (snd kg)) (pieces goal_board))"
    and m: "map_of gd = map_of (map (\<lambda>kg. (uid (snd kg), snd kg)) (pieces goal_board))"
    by (simp_all add: goal_consistent_def)
  have "sum_list (map (\<lambda>kg.
         if uid p = uid (snd kg)
         then \<bar>coord_x (snd kg) - coord_x p\<bar> + \<bar>coord_y (snd kg) - coord_y p\<bar>
         else 0) (pieces goal_board)) = goal_distance gd p" for p
    unfolding goal_distance_def m
    by (rule matching_goal_sum[OF d, of "uid p" "\<lambda>g. \<bar>coord_x g - coord_x p\<bar> + \<bar>coord_y g - coord_y p\<bar>"])
  then show ?thesis
    unfolding init_manhattan_distance_sum heuristic_sum_def by simp
qed

lemma heuristic_sum_move:
  assumes d: "distinct (map fst (pieces b))" and p: "map_of (pieces b) k = Some p"
    and b': "pieces b' = filter (\<lambda>kq. fst kq \<noteq> k) (pieces b) @ [(d', q)]"
  shows "heuristic_sum gd b' = heuristic_sum gd b - goal_distance gd p + goal_distance gd q"
proof -
  let ?f = "\<lambda>kp. goal_distance gd (snd kp)"
  let ?rest = "filter (\<lambda>kq. fst kq \<noteq> k) (pieces b)"
  have l: "sum_list (map ?f xs) = sum_mset (image_mset ?f (mset xs))"
    for xs :: "((int \<times> int) \<times> Piece) list"
    using sum_mset_sum_list[of "map ?f xs"] by simp
  have "sum_mset (image_mset ?f (mset (pieces b))) =
          sum_mset (image_mset ?f (mset ?rest + {#(k, p)#}))"
    using mset_without_key[OF d p] by simp
  then have "sum_list (map ?f (pieces b)) = sum_list (map ?f ?rest) + goal_distance gd p"
    by (simp add: l)
  then show ?thesis by (simp add: heuristic_sum_def b')
qed

lemma wf_piece_new_keys:
  assumes wf: "wf_board b" and kp: "(k, p) \<in> set (pieces b)"
  shows "piece_new_keys b p = Inr (filter (legal_dest b p) (slide_steps p))"
  using new_keys_proper[OF wf_board_grid_dims[OF wf]] wf_board_piece(2,3)[OF wf kp] by blast

lemma wf_successor:
  assumes wf: "wf_board (board s)" and g: "generate_successors s = Inr ts" and t: "t \<in> set ts"
  shows "\<exists>k p d gp. (k, p) \<in> set (pieces (board s)) \<and> legal_dest (board s) p d
           \<and> goal_lookup (board s) (uid p) = Inr gp
           \<and> copy_board (board s) d (key_of p) = Inr (board t)
           \<and> wf_board (board t)
           \<and> pieces (board t) =
               filter (\<lambda>kq. fst kq \<noteq> k) (pieces (board s)) @ [(d, set_coords p (fst d) (snd d))]
           \<and> height (board t) = height (board s)
           \<and> goal_board_dict (board t) = goal_board_dict (board s)
           \<and> hfn t = (hfn s - (\<bar>coord_x p - coord_x gp\<bar> + \<bar>coord_y p - coord_y gp\<bar>))
                        + (\<bar>fst d - coord_x gp\<bar> + \<bar>snd d - coord_y gp\<bar>)
           \<and> depth t = depth s + 1 \<and> f_value t = f_value s \<and> parent t = Some s"
proof -
  from generate_successors_elem[OF g t]
  obtain k p ks d where kp: "(k, p) \<in> set (pieces (board s))"
    and ks: "piece_new_keys (board s) p = Inr ks" and d: "d \<in> set ks"
    and sf: "successor_for s p d = Inr t"
    by blast
  from ks d wf_piece_new_keys[OF wf kp] have l: "legal_dest (board s) p d" by auto
  from legal_move_wf[OF wf kp l]
  obtain b' where b': "copy_board (board s) d (key_of p) = Inr b'" "wf_board b'"
    "pieces b' = filter (\<lambda>kq. fst kq \<noteq> k) (pieces (board s)) @ [(d, set_coords p (fst d) (snd d))]"
    "height b' = height (board s)" "goal_board_dict b' = goal_board_dict (board s)"
    by blast
  from sf obtain gp where gp: "goal_lookup (board s) (uid p) = Inr gp"
    by (cases "goal_lookup (board s) (uid p)") (simp_all add: successor_for_def bind_err_def Let_def)
  from sf gp b'(1) have
    "t = State b' ((hfn s - (\<bar>coord_x p - coord_x gp\<bar> + \<bar>coord_y p - coord_y gp\<bar>))
                        + (\<bar>fst d - coord_x gp\<bar> + \<bar>snd d - coord_y gp\<bar>))
              (f_value s) (depth s + 1) (Some s)"
    by (simp add: successor_for_def bind_err_def Let_def key_of_def)
  with kp l gp b' show ?thesis
    by (intro exI[of _ k] exI[of _ p] exI[of _ d] exI[of _ gp]) simp
qed

text \<open>
  C3.  Let the state's board be well formed, its goal dictionary be the one that names the
  goal board's pieces, and its heuristic field equal \<^verbatim>\<open>init_manhattan_distance\<close> of its
  board.  Then for every state that \<^verbatim>\<open>generate_successors\<close> returns (one legal move of one
  piece), the incrementally maintained heuristic field equals \<^verbatim>\<open>init_manhattan_distance\<close>
  computed from scratch on the successor's board, which is the sum over its pieces of the
  Manhattan distance to the goal piece of the same uid.  The successor's board is again
  well formed with the same goal dictionary, so this holds for every reachable state.
\<close>

theorem incremental_heuristic_is_recomputed:
  assumes "wf_board (board s)"
    and "goal_board_dict (board s) = Some gd"
    and "goal_consistent gd goal_board"
    and "hfn s = init_manhattan_distance (board s) goal_board"
    and "generate_successors s = Inr ts"
    and "t \<in> set ts"
  shows "hfn t = init_manhattan_distance (board t) goal_board
     \<and> init_manhattan_distance (board t) goal_board = heuristic_sum gd (board t)
     \<and> wf_board (board t) \<and> goal_board_dict (board t) = Some gd"
proof -
  from wf_successor[OF assms(1,5,6)]
  obtain k p d gp where kp: "(k, p) \<in> set (pieces (board s))"
    and gp: "goal_lookup (board s) (uid p) = Inr gp"
    and wf': "wf_board (board t)"
    and ps': "pieces (board t) =
               filter (\<lambda>kq. fst kq \<noteq> k) (pieces (board s)) @ [(d, set_coords p (fst d) (snd d))]"
    and gd': "goal_board_dict (board t) = goal_board_dict (board s)"
    and h: "hfn t = (hfn s - (\<bar>coord_x p - coord_x gp\<bar> + \<bar>coord_y p - coord_y gp\<bar>))
                        + (\<bar>fst d - coord_x gp\<bar> + \<bar>snd d - coord_y gp\<bar>)"
    by blast
  note hs = init_manhattan_distance_heuristic_sum[OF assms(3)]
  from gp assms(2) have m: "map_of gd (uid p) = Some gp"
    by (auto simp: goal_lookup_def dict_get_def split: option.splits)
  have k: "k = key_of p" using wf_board_piece(1)[OF assms(1) kp] .
  have lk: "map_of (pieces (board s)) k = Some p"
    using wf_lookup[OF assms(1) kp] k by simp
  have "heuristic_sum gd (board t) =
          heuristic_sum gd (board s) - goal_distance gd p
            + goal_distance gd (set_coords p (fst d) (snd d))"
    by (rule heuristic_sum_move[OF wf_board_distinct[OF assms(1)] lk ps'])
  moreover have "goal_distance gd p = \<bar>coord_x p - coord_x gp\<bar> + \<bar>coord_y p - coord_y gp\<bar>"
    using m by (simp add: goal_distance_def abs_minus_commute)
  moreover have "goal_distance gd (set_coords p (fst d) (snd d)) =
                   \<bar>fst d - coord_x gp\<bar> + \<bar>snd d - coord_y gp\<bar>"
    using m by (simp add: goal_distance_def set_coords_def abs_minus_commute)
  ultimately have "hfn t = heuristic_sum gd (board t)"
    using h assms(4) hs[of "board s"] by simp
  with hs[of "board t"] wf' gd' assms(2) show ?thesis by simp
qed

lemma ex_board_wf: "wf_board ex_board"
  by code_simp

lemma ex_goal_consistent: "goal_consistent ex_goal_dict ex_goal_board"
proof -
  have "ex_goal_dict = map (\<lambda>kg. (uid (snd kg), snd kg)) (pieces ex_goal_board)"
    by (simp add: ex_goal_dict_def ex_goal_board_def Piece_init_def)
  then show ?thesis
    by (simp add: goal_consistent_def ex_goal_board_def Piece_init_def)
qed

theorem incremental_heuristic_is_recomputed_witness:
  "\<exists>ts. generate_successors ex_state = Inr ts \<and> length ts = 3
     \<and> hfn (hd ts) = 2 \<and> init_manhattan_distance (board (hd ts)) ex_goal_board = 2
     \<and> wf_board (board (hd ts))"
proof -
  have "case generate_successors ex_state of Inl e \<Rightarrow> False
        | Inr ts \<Rightarrow> length ts = 3 \<and> hfn (hd ts) = 2"
    by code_simp
  then obtain ts where ts: "generate_successors ex_state = Inr ts" "length ts = 3" "hfn (hd ts) = 2"
    by (cases "generate_successors ex_state") auto
  then have m: "hd ts \<in> set ts" by (cases ts) auto
  have b: "board ex_state = ex_board" by (simp add: ex_state_def)
  have wf: "wf_board (board ex_state)" using ex_board_wf by (simp add: b)
  have gd: "goal_board_dict (board ex_state) = Some ex_goal_dict"
    by (simp add: b ex_board_def)
  have h: "hfn ex_state = init_manhattan_distance (board ex_state) ex_goal_board"
    unfolding b by code_simp
  from incremental_heuristic_is_recomputed[OF wf gd ex_goal_consistent h ts(1) m] ts
  show ?thesis by auto
qed

section \<open>The heap of best-first search\<close>

lemma item_lt_le: "item_lt a b \<Longrightarrow> fst a \<le> fst b"
  by (auto simp: item_lt_def)

lemma not_item_lt_le: "\<not> item_lt a b \<Longrightarrow> fst b \<le> fst a"
  by (auto simp: item_lt_def)

lemma length_siftdown_loop: "length (siftdown_loop h s pos x) = length h"
  by (induction h s pos x rule: siftdown_loop.induct)
     (subst siftdown_loop.simps, simp add: Let_def)

lemma mset_swap_update:
  assumes "i < length h" "j < length h"
  shows "mset (h[i := h ! j, j := x]) = mset (h[i := x])"
proof (cases "i = j")
  case True
  then show ?thesis by simp
next
  case False
  with assms show ?thesis
    by (simp add: mset_update nth_list_update)
qed

lemma mset_siftdown_loop:
  "pos < length h \<Longrightarrow> mset (siftdown_loop h s pos x) = mset (h[pos := x])"
proof (induction h s pos x rule: siftdown_loop.induct)
  case (1 heap startpos pos newitem)
  show ?case
  proof (cases "pos > startpos \<and> item_lt newitem (heap ! ((pos - 1) div 2))")
    case True
    let ?pp = "(pos - 1) div 2"
    from True "1.prems" have pp: "?pp < length heap" by simp
    have "mset (siftdown_loop heap startpos pos newitem) =
          mset (siftdown_loop (heap[pos := heap ! ?pp]) startpos ?pp newitem)"
      using True by (subst siftdown_loop.simps) (simp add: Let_def)
    also have "\<dots> = mset (heap[pos := heap ! ?pp, ?pp := newitem])"
      using "1.IH"[OF _ refl refl] True pp by simp
    also have "\<dots> = mset (heap[pos := newitem])"
      using mset_swap_update[OF "1.prems" pp] .
    finally show ?thesis .
  next
    case False
    then show ?thesis by (subst siftdown_loop.simps) (auto simp: Let_def)
  qed
qed


text \<open>
  The state of \<open>siftdown_loop\<close>: the slot \<open>pos\<close> is free for \<open>x\<close>; every parent-child pair
  that does not involve \<open>pos\<close> is in order; \<open>x\<close> and the parent of \<open>pos\<close> are both not
  larger than the children of \<open>pos\<close>.
\<close>

lemma heap_ok_siftdown_loop:
  assumes "pos < length h"
    and "\<forall>i < length h. 0 < i \<and> i \<noteq> pos \<and> (i - 1) div 2 \<noteq> pos \<longrightarrow>
           fst (h ! ((i - 1) div 2)) \<le> fst (h ! i)"
    and "\<forall>i < length h. 0 < i \<and> (i - 1) div 2 = pos \<longrightarrow> fst x \<le> fst (h ! i)"
    and "\<forall>i < length h. 0 < i \<and> (i - 1) div 2 = pos \<and> 0 < pos \<longrightarrow>
           fst (h ! ((pos - 1) div 2)) \<le> fst (h ! i)"
  shows "heap_ok (siftdown_loop h 0 pos x)"
  using assms
proof (induction h "0::nat" pos x rule: siftdown_loop.induct)
  case (1 heap pos newitem)
  let ?pp = "(pos - 1) div 2"
  show ?case
  proof (cases "pos > 0 \<and> item_lt newitem (heap ! ?pp)")
    case True
    let ?h' = "heap[pos := heap ! ?pp]"
    from True have pos0: "0 < pos" and lt: "fst newitem \<le> fst (heap ! ?pp)"
      by (auto dest: item_lt_le)
    from pos0 "1.prems"(1) have pp: "?pp < pos" "?pp < length heap" by auto
    have up: "fst (heap ! ((?pp - 1) div 2)) \<le> fst (heap ! ?pp)" if "0 < ?pp"
    proof -
      have "(?pp - 1) div 2 \<noteq> pos" using pp by linarith
      with "1.prems"(2) that pp show ?thesis by auto
    qed
    have a: "\<forall>i < length ?h'. 0 < i \<and> i \<noteq> ?pp \<and> (i - 1) div 2 \<noteq> ?pp \<longrightarrow>
           fst (?h' ! ((i - 1) div 2)) \<le> fst (?h' ! i)"
    proof (intro allI impI)
      fix i assume i: "i < length ?h'" "0 < i \<and> i \<noteq> ?pp \<and> (i - 1) div 2 \<noteq> ?pp"
      then have ip: "i \<noteq> pos" by auto
      show "fst (?h' ! ((i - 1) div 2)) \<le> fst (?h' ! i)"
      proof (cases "(i - 1) div 2 = pos")
        case True
        with i ip "1.prems"(1,4) pos0 show ?thesis by simp
      next
        case False
        with i ip "1.prems"(2) show ?thesis by simp
      qed
    qed
    have b: "\<forall>i < length ?h'. 0 < i \<and> (i - 1) div 2 = ?pp \<longrightarrow> fst newitem \<le> fst (?h' ! i)"
    proof (intro allI impI)
      fix i assume i: "i < length ?h'" "0 < i \<and> (i - 1) div 2 = ?pp"
      show "fst newitem \<le> fst (?h' ! i)"
      proof (cases "i = pos")
        case True
        with lt "1.prems"(1) show ?thesis by simp
      next
        case False
        have "(i - 1) div 2 \<noteq> pos" using i pp by linarith
        with False i "1.prems"(2) have "fst (heap ! ?pp) \<le> fst (heap ! i)" by auto
        with lt False show ?thesis by simp
      qed
    qed
    have c: "\<forall>i < length ?h'. 0 < i \<and> (i - 1) div 2 = ?pp \<and> 0 < ?pp \<longrightarrow>
           fst (?h' ! ((?pp - 1) div 2)) \<le> fst (?h' ! i)"
    proof (intro allI impI)
      fix i assume i: "i < length ?h'" "0 < i \<and> (i - 1) div 2 = ?pp \<and> 0 < ?pp"
      have gp: "(?pp - 1) div 2 \<noteq> pos" using pp by linarith
      show "fst (?h' ! ((?pp - 1) div 2)) \<le> fst (?h' ! i)"
      proof (cases "i = pos")
        case True
        with up i gp "1.prems"(1) show ?thesis by simp
      next
        case False
        have "(i - 1) div 2 \<noteq> pos" using i pp by linarith
        with False i "1.prems"(2) have "fst (heap ! ?pp) \<le> fst (heap ! i)" by auto
        with up i gp False show ?thesis by simp
      qed
    qed
    have "heap_ok (siftdown_loop ?h' 0 ?pp newitem)"
      using "1.hyps"[OF _ refl refl _ _ a b c] True pp by simp
    then show ?thesis
      using True by (subst siftdown_loop.simps) (simp add: Let_def)
  next
    case False
    have "heap_ok (heap[pos := newitem])"
      unfolding heap_ok_def
    proof (intro allI impI)
      fix i assume i: "i < length (heap[pos := newitem])" "0 < i"
      show "fst (heap[pos := newitem] ! ((i - 1) div 2)) \<le> fst (heap[pos := newitem] ! i)"
      proof (cases "i = pos")
        case True
        with i False have "fst (heap ! ?pp) \<le> fst newitem" by (auto dest: not_item_lt_le)
        moreover have "?pp \<noteq> pos" using True i by linarith
        ultimately show ?thesis using True i by simp
      next
        case ne: False
        show ?thesis
        proof (cases "(i - 1) div 2 = pos")
          case True
          with i ne "1.prems"(1,3) show ?thesis by simp
        next
          case False
          with i ne "1.prems"(2) show ?thesis by simp
        qed
      qed
    qed
    then show ?thesis
      using False by (subst siftdown_loop.simps) (auto simp: Let_def)
  qed
qed

lemma heap_ok_heappush:
  assumes "heap_ok h"
  shows "heap_ok (heappush h x)"
proof -
  let ?h = "h @ [x]"
  have a: "\<forall>i < length ?h. 0 < i \<and> i \<noteq> length h \<and> (i - 1) div 2 \<noteq> length h \<longrightarrow>
           fst (?h ! ((i - 1) div 2)) \<le> fst (?h ! i)"
  proof (intro allI impI)
    fix i assume i: "i < length ?h" "0 < i \<and> i \<noteq> length h \<and> (i - 1) div 2 \<noteq> length h"
    then have "i < length h" "(i - 1) div 2 < length h" by auto
    with assms i show "fst (?h ! ((i - 1) div 2)) \<le> fst (?h ! i)"
      by (simp add: heap_ok_def nth_append)
  qed
  have b: "\<forall>i < length ?h. 0 < i \<and> (i - 1) div 2 = length h \<longrightarrow> fst x \<le> fst (?h ! i)"
    by auto
  have c: "\<forall>i < length ?h. 0 < i \<and> (i - 1) div 2 = length h \<and> 0 < length h \<longrightarrow>
           fst (?h ! ((length h - 1) div 2)) \<le> fst (?h ! i)"
    by auto
  have "heap_ok (siftdown_loop ?h 0 (length h) x)"
    by (rule heap_ok_siftdown_loop[OF _ a b c]) simp
  then show ?thesis by (simp add: heappush_def siftdown_def)
qed

lemma mset_heappush: "mset (heappush h x) = add_mset x (mset h)"
  by (simp add: heappush_def siftdown_def mset_siftdown_loop)

lemma siftup_loop_step:
  "2 * pos + 1 < length h \<Longrightarrow>
   siftup_loop h pos = siftup_loop (h[pos := h ! smaller_child h pos]) (smaller_child h pos)"
  by (subst siftup_loop.simps) (simp add: Let_def smaller_child_def)

lemma siftup_loop_stop: "\<not> 2 * pos + 1 < length h \<Longrightarrow> siftup_loop h pos = (h, pos)"
  by (subst siftup_loop.simps) (simp add: Let_def)

lemma smaller_child_bounds:
  assumes "2 * pos + 1 < length h"
  shows "smaller_child h pos < length h" "pos < smaller_child h pos"
    "(smaller_child h pos - 1) div 2 = pos"
  using assms by (auto simp: smaller_child_def)

lemma smaller_child_least:
  assumes "2 * pos + 1 < length h" "i < length h" "0 < i" "(i - 1) div 2 = pos"
  shows "fst (h ! smaller_child h pos) \<le> fst (h ! i)"
proof -
  from assms(3,4) have i: "i = 2 * pos + 1 \<or> i = 2 * pos + 2" by linarith
  show ?thesis
  proof (cases "2 * pos + 2 < length h \<and> \<not> item_lt (h ! (2 * pos + 1)) (h ! (2 * pos + 2))")
    case True
    then have "fst (h ! (2 * pos + 2)) \<le> fst (h ! (2 * pos + 1))" by (auto dest: not_item_lt_le)
    with True i show ?thesis by (auto simp: smaller_child_def)
  next
    case False
    then have s: "smaller_child h pos = 2 * pos + 1" by (auto simp: smaller_child_def)
    from i show ?thesis
    proof
      assume "i = 2 * pos + 1"
      with s show ?thesis by simp
    next
      assume i2: "i = 2 * pos + 2"
      with assms(2) False have "item_lt (h ! (2 * pos + 1)) (h ! (2 * pos + 2))" by simp
      with s i2 show ?thesis by (auto dest: item_lt_le)
    qed
  qed
qed

lemma siftup_loop_props:
  assumes "pos < length h" "siftup_loop h pos = (h', pos')"
  shows "length h' = length h \<and> pos' < length h \<and> \<not> 2 * pos' + 1 < length h
         \<and> mset (h'[pos' := x]) = mset (h[pos := x])"
  using assms
proof (induction "length h - pos" arbitrary: h pos rule: less_induct)
  case less
  show ?case
  proof (cases "2 * pos + 1 < length h")
    case True
    let ?c = "smaller_child h pos"
    let ?h1 = "h[pos := h ! ?c]"
    note cb = smaller_child_bounds[OF True]
    have r: "siftup_loop ?h1 ?c = (h', pos')"
      using less.prems(2) siftup_loop_step[OF True] by simp
    have m: "length ?h1 - ?c < length h - pos" using cb less.prems(1) by simp
    have c: "?c < length ?h1" using cb by simp
    have "length h' = length ?h1 \<and> pos' < length ?h1 \<and> \<not> 2 * pos' + 1 < length ?h1
         \<and> mset (h'[pos' := x]) = mset (?h1[?c := x])"
      by (rule less.hyps[OF m c r])
    moreover have "mset (?h1[?c := x]) = mset (h[pos := x])"
      using mset_swap_update[OF less.prems(1) cb(1)] by simp
    ultimately show ?thesis by simp
  next
    case False
    with less.prems show ?thesis by (simp add: siftup_loop_stop)
  qed
qed

text \<open>
  The state of \<open>siftup_loop\<close>: every parent-child pair whose parent is not the free slot
  \<open>pos\<close> is in order, and the parent of \<open>pos\<close> is not larger than the children of \<open>pos\<close>.
  At the end \<open>pos\<close> has no child, so the whole list is in heap order.
\<close>

lemma siftup_loop_heap_ok:
  assumes "pos < length h" "siftup_loop h pos = (h', pos')"
    and "\<forall>i < length h. 0 < i \<and> (i - 1) div 2 \<noteq> pos \<longrightarrow> fst (h ! ((i - 1) div 2)) \<le> fst (h ! i)"
    and "\<forall>i < length h. 0 < i \<and> (i - 1) div 2 = pos \<and> 0 < pos \<longrightarrow>
           fst (h ! ((pos - 1) div 2)) \<le> fst (h ! i)"
  shows "heap_ok h'"
  using assms
proof (induction "length h - pos" arbitrary: h pos rule: less_induct)
  case less
  show ?case
  proof (cases "2 * pos + 1 < length h")
    case True
    let ?c = "smaller_child h pos"
    let ?h1 = "h[pos := h ! ?c]"
    note cb = smaller_child_bounds[OF True]
    have r: "siftup_loop ?h1 ?c = (h', pos')"
      using less.prems(2) siftup_loop_step[OF True] by simp
    have m: "length ?h1 - ?c < length h - pos" using cb less.prems(1) by simp
    have c: "?c < length ?h1" using cb by simp
    have a: "\<forall>i < length ?h1. 0 < i \<and> (i - 1) div 2 \<noteq> ?c \<longrightarrow>
               fst (?h1 ! ((i - 1) div 2)) \<le> fst (?h1 ! i)"
    proof (intro allI impI)
      fix i assume i: "i < length ?h1" "0 < i \<and> (i - 1) div 2 \<noteq> ?c"
      then have il: "i < length h" by simp
      show "fst (?h1 ! ((i - 1) div 2)) \<le> fst (?h1 ! i)"
      proof (cases "i = pos")
        case True
        then have pp: "(i - 1) div 2 \<noteq> pos" using i by linarith
        have "fst (h ! ((pos - 1) div 2)) \<le> fst (h ! ?c)"
          using less.prems(4) cb True i by simp
        with True pp less.prems(1) show ?thesis by simp
      next
        case ne: False
        show ?thesis
        proof (cases "(i - 1) div 2 = pos")
          case True
          have "fst (h ! ?c) \<le> fst (h ! i)"
            using smaller_child_least[OF \<open>2 * pos + 1 < length h\<close> il _ True] i by simp
          with True ne less.prems(1) show ?thesis by simp
        next
          case False
          with i il ne less.prems(3) show ?thesis by simp
        qed
      qed
    qed
    have b: "\<forall>i < length ?h1. 0 < i \<and> (i - 1) div 2 = ?c \<and> 0 < ?c \<longrightarrow>
               fst (?h1 ! ((?c - 1) div 2)) \<le> fst (?h1 ! i)"
    proof (intro allI impI)
      fix i assume i: "i < length ?h1" "0 < i \<and> (i - 1) div 2 = ?c \<and> 0 < ?c"
      then have il: "i < length h" by simp
      have ne: "i \<noteq> pos" using i cb by linarith
      have "(i - 1) div 2 \<noteq> pos" using i cb by simp
      with less.prems(3) il i have "fst (h ! ?c) \<le> fst (h ! i)" by auto
      with ne cb less.prems(1) show "fst (?h1 ! ((?c - 1) div 2)) \<le> fst (?h1 ! i)" by simp
    qed
    show ?thesis by (rule less.hyps[OF m c r a b])
  next
    case False
    with less.prems(2) have e: "h' = h" "pos' = pos" by (simp_all add: siftup_loop_stop)
    have "fst (h ! ((i - 1) div 2)) \<le> fst (h ! i)" if "i < length h" "0 < i" for i
    proof -
      have "(i - 1) div 2 \<noteq> pos" using False that by linarith
      with less.prems(3) that show ?thesis by simp
    qed
    then show ?thesis by (simp add: e heap_ok_def)
  qed
qed

lemma heap_ok_butlast: "heap_ok h \<Longrightarrow> heap_ok (butlast h)"
  by (auto simp: heap_ok_def nth_butlast)

lemma heap_ok_min:
  assumes "heap_ok h" "i < length h"
  shows "fst (h ! 0) \<le> fst (h ! i)"
  using assms(2)
proof (induction i rule: less_induct)
  case (less i)
  show ?case
  proof (cases "i = 0")
    case True
    then show ?thesis by simp
  next
    case False
    then have "(i - 1) div 2 < i" by linarith
    moreover from this less.prems have "(i - 1) div 2 < length h" by simp
    ultimately have "fst (h ! 0) \<le> fst (h ! ((i - 1) div 2))" by (rule less.IH)
    moreover have "fst (h ! ((i - 1) div 2)) \<le> fst (h ! i)"
      using assms(1) less.prems False by (simp add: heap_ok_def)
    ultimately show ?thesis by simp
  qed
qed

lemma butlast_nonempty: "butlast h \<noteq> [] \<Longrightarrow> Suc 0 < length h"
  by (cases h rule: rev_cases) auto

lemma heappop_props:
  assumes "h \<noteq> []" "heappop h = (x, h')"
  shows "mset h = add_mset x (mset h')"
    and "heap_ok h \<Longrightarrow> heap_ok h' \<and> (\<forall>y \<in> set h. fst x \<le> fst y)"
proof -
  let ?b = "butlast h"
  have hl: "h = ?b @ [last h]" using assms(1) by simp
  have x0: "x = h ! 0"
  proof (cases "?b = []")
    case True
    with assms hl show ?thesis by (auto simp: heappop_def Let_def last_conv_nth)
  next
    case False
    with assms have "x = ?b ! 0" by (auto simp: heappop_def Let_def)
    moreover have "0 < length ?b" using butlast_nonempty[OF False] by simp
    ultimately show ?thesis using nth_butlast[of 0 h] by simp
  qed
  show ms: "mset h = add_mset x (mset h')"
  proof (cases "?b = []")
    case True
    with assms hl show ?thesis by (auto simp: heappop_def Let_def)
  next
    case False
    let ?h0 = "?b[0 := last h]"
    from False assms have xb: "x = ?b ! 0" and h': "h' = siftup ?h0 0"
      by (auto simp: heappop_def Let_def)
    obtain h1 p1 where l: "siftup_loop ?h0 0 = (h1, p1)" by (cases "siftup_loop ?h0 0")
    have p0: "0 < length ?h0" using butlast_nonempty[OF False] by simp
    from siftup_loop_props[OF p0 l, of "?h0 ! 0"]
    have p: "length h1 = length ?h0" "p1 < length ?h0"
      "mset (h1[p1 := ?h0 ! 0]) = mset (?h0[0 := ?h0 ! 0])"
      by simp_all
    have "mset h' = mset (h1[p1 := ?h0 ! 0])"
      using p(1,2) by (simp add: h' siftup_def l siftdown_def mset_siftdown_loop Let_def)
    also have "\<dots> = mset ?h0" using p(3) by simp
    also have "\<dots> = add_mset (last h) (mset ?b - {#?b ! 0#})"
      using mset_update[of 0 ?b "last h"] butlast_nonempty[OF False] by simp
    finally have e: "mset h' = add_mset (last h) (mset ?b - {#?b ! 0#})" .
    have "?b ! 0 \<in># mset ?b"
      using butlast_nonempty[OF False] nth_mem[of 0 ?b] by simp
    then have "add_mset x (mset h') = add_mset (last h) (mset ?b)"
      unfolding e xb by simp
    also have "\<dots> = mset (?b @ [last h])" by simp
    also have "\<dots> = mset h" using hl by simp
    finally show ?thesis by simp
  qed
  show "heap_ok h' \<and> (\<forall>y \<in> set h. fst x \<le> fst y)" if ok: "heap_ok h"
  proof
    show "\<forall>y \<in> set h. fst x \<le> fst y"
    proof
      fix y assume "y \<in> set h"
      then obtain i where "i < length h" "h ! i = y" by (auto simp: in_set_conv_nth)
      with heap_ok_min[OF ok, of i] x0 show "fst x \<le> fst y" by simp
    qed
    show "heap_ok h'"
    proof (cases "?b = []")
      case True
      with assms show ?thesis by (auto simp: heappop_def Let_def heap_ok_def)
    next
      case False
      let ?h0 = "?b[0 := last h]"
      from False assms have h': "h' = siftup ?h0 0"
        by (auto simp: heappop_def Let_def)
      obtain h1 p1 where l: "siftup_loop ?h0 0 = (h1, p1)" by (cases "siftup_loop ?h0 0")
      have p0: "0 < length ?h0" using butlast_nonempty[OF False] by simp
      have okb: "heap_ok ?b" using ok by (rule heap_ok_butlast)
      have a: "\<forall>i < length ?h0. 0 < i \<and> (i - 1) div 2 \<noteq> 0 \<longrightarrow>
                 fst (?h0 ! ((i - 1) div 2)) \<le> fst (?h0 ! i)"
        using okb by (simp add: heap_ok_def)
      have b: "\<forall>i < length ?h0. 0 < i \<and> (i - 1) div 2 = 0 \<and> 0 < (0::nat) \<longrightarrow>
                 fst (?h0 ! ((0 - 1) div 2)) \<le> fst (?h0 ! i)"
        by simp
      have ok1: "heap_ok h1" by (rule siftup_loop_heap_ok[OF p0 l a b])
      from siftup_loop_props[OF p0 l, of "?h0 ! 0"]
      have p: "length h1 = length ?h0" "p1 < length ?h0" "\<not> 2 * p1 + 1 < length ?h0"
        by simp_all
      let ?h2 = "h1[p1 := ?h0 ! 0]"
      have p2: "p1 < length ?h2" using p by simp
      have a2: "\<forall>i < length ?h2. 0 < i \<and> i \<noteq> p1 \<and> (i - 1) div 2 \<noteq> p1 \<longrightarrow>
           fst (?h2 ! ((i - 1) div 2)) \<le> fst (?h2 ! i)"
        using ok1 by (simp add: heap_ok_def)
      have leaf: "(i - 1) div 2 \<noteq> p1" if "i < length ?h2" "0 < i" for i
        using that p by simp
      have b2: "\<forall>i < length ?h2. 0 < i \<and> (i - 1) div 2 = p1 \<longrightarrow> fst (?h0 ! 0) \<le> fst (?h2 ! i)"
        using leaf by blast
      have c2: "\<forall>i < length ?h2. 0 < i \<and> (i - 1) div 2 = p1 \<and> 0 < p1 \<longrightarrow>
           fst (?h2 ! ((p1 - 1) div 2)) \<le> fst (?h2 ! i)"
        using leaf by blast
      have "heap_ok (siftdown_loop ?h2 0 p1 (?h0 ! 0))"
        by (rule heap_ok_siftdown_loop[OF p2 a2 b2 c2])
      then show ?thesis using p(1,2) by (simp add: h' siftup_def l siftdown_def Let_def)
    qed
  qed
qed

section \<open>The search loops\<close>

lemma astar_body_generic: "astar_body goal_board = search_body astar_pop astar_push goal_board"
  by (rule ext) (simp add: astar_body_def search_body_def astar_pop_def Let_def split: prod.splits)

lemma dfs_body_generic: "dfs_body goal_board = search_body dfs_pop dfs_push goal_board"
  by (rule ext) (simp add: dfs_body_def search_body_def dfs_pop_def Let_def split: prod.splits)

lemma search_body_cases:
  assumes "pop fr = (node, fr1)"
  obtains
    (skip) "Board_str (board node) \<in> visited"
      "search_body pop push goal_board (fr, visited) = Continue (fr1, visited)"
  | (found) "Board_str (board node) \<notin> visited" "Board_eq (board node) (PyBoard goal_board)"
      "search_body pop push goal_board (fr, visited) = Done (Inr (Some node))"
  | (raise) e where "Board_str (board node) \<notin> visited" "\<not> Board_eq (board node) (PyBoard goal_board)"
      "generate_successors node = Inl e"
      "search_body pop push goal_board (fr, visited) = Done (Inl e)"
  | (expand) ts where "Board_str (board node) \<notin> visited" "\<not> Board_eq (board node) (PyBoard goal_board)"
      "generate_successors node = Inr ts"
      "search_body pop push goal_board (fr, visited) =
         Continue (fold (push (insert (Board_str (board node)) visited)) ts fr1,
                   insert (Board_str (board node)) visited)"
proof (cases "Board_str (board node) \<in> visited")
  case True
  then show ?thesis using assms skip by (simp add: search_body_def Let_def)
next
  case nv: False
  show ?thesis
  proof (cases "Board_eq (board node) (PyBoard goal_board)")
    case True
    then show ?thesis using assms nv found by (simp add: search_body_def Let_def)
  next
    case ng: False
    show ?thesis
    proof (cases "generate_successors node")
      case (Inl e)
      then show ?thesis using assms nv ng raise by (simp add: search_body_def Let_def)
    next
      case (Inr ts)
      then show ?thesis using assms nv ng expand by (simp add: search_body_def Let_def)
    qed
  qed
qed

lemma while_frontier_total:
  assumes wf: "wf R"
    and inv0: "I st"
    and step: "\<And>st st'. I st \<Longrightarrow> nonempty st \<Longrightarrow> body st = Continue st' \<Longrightarrow> I st' \<and> (st', st) \<in> R"
    and fin: "\<And>st r. I st \<Longrightarrow> nonempty st \<Longrightarrow> body st = Done r \<Longrightarrow> Q r"
    and emp: "\<And>st. I st \<Longrightarrow> \<not> nonempty st \<Longrightarrow> Q (Inr None)"
  shows "\<exists>r. while_frontier nonempty body st = Some r \<and> Q r"
  using wf inv0
proof (induction st rule: wf_induct_rule)
  case (less st)
  show ?case
  proof (cases "nonempty st")
    case False
    then show ?thesis using emp[OF less.prems] by (subst while_frontier.simps) simp
  next
    case True
    show ?thesis
    proof (cases "body st")
      case (Done r)
      then show ?thesis using True fin[OF less.prems True Done]
        by (subst while_frontier.simps) simp
    next
      case (Continue st')
      from step[OF less.prems True Continue] have "I st'" "(st', st) \<in> R" by simp_all
      from less.IH[OF this(2,1)] show ?thesis using True Continue
        by (subst while_frontier.simps) simp
    qed
  qed
qed

lemma after_turns_add:
  "after_turns ne body (m + n) st =
     (case after_turns ne body m st of None \<Rightarrow> None | Some st' \<Rightarrow> after_turns ne body n st')"
proof (induction m arbitrary: st)
  case 0
  then show ?case by simp
next
  case (Suc m)
  then show ?case by (cases "body st") (auto split: turn.splits)
qed

lemma after_turns_Suc:
  "after_turns ne body (Suc n) st =
     (case after_turns ne body n st of
        None \<Rightarrow> None
      | Some st' \<Rightarrow> (if ne st' then (case body st' of Done r \<Rightarrow> None | Continue st'' \<Rightarrow> Some st'') else None))"
  using after_turns_add[of ne body n 1 st] by (simp split: option.splits turn.splits)

lemma after_turns_invariant:
  assumes "after_turns ne body n st0 = Some st" "I st0"
    and "\<And>st st'. I st \<Longrightarrow> ne st \<Longrightarrow> body st = Continue st' \<Longrightarrow> I st'"
  shows "I st"
  using assms(1)
proof (induction n arbitrary: st)
  case 0
  then show ?case using assms(2) by simp
next
  case (Suc n)
  from Suc.prems obtain st1 where s: "after_turns ne body n st0 = Some st1" "ne st1"
    "body st1 = Continue st"
    by (auto simp: after_turns_Suc simp del: after_turns.simps
        split: option.splits if_splits turn.splits)
  from assms(3)[OF Suc.IH[OF s(1)] s(2,3)] show ?case .
qed


lemma finite_grids_of: "finite (grids_of h)"
proof -
  let ?rows = "{row. set row \<subseteq> grid_alphabet \<and> length row = nat width}"
  have "finite grid_alphabet" by (simp add: grid_alphabet_def)
  then have "finite ?rows" by (rule finite_lists_length_eq)
  then have "finite {g. set g \<subseteq> ?rows \<and> length g = nat h}" by (rule finite_lists_length_eq)
  moreover have "grids_of h \<subseteq> {g. set g \<subseteq> ?rows \<and> length g = nat h}"
    by (auto simp: grids_of_def)
  ultimately show ?thesis by (rule rev_finite_subset)
qed

lemma blank_grid_in_grids: "blank_grid h \<in> grids_of h"
  by (auto simp: grids_of_def blank_grid_def grid_alphabet_def)

lemma grid_update_in_grids:
  assumes "g \<in> grids_of h" "ch \<in> grid_alphabet"
  shows "g[r := (g ! r)[c := ch]] \<in> grids_of h"
proof (cases "r < length g")
  case False
  with assms(1) show ?thesis by (simp add: list_update_beyond)
next
  case True
  have row: "length ((g ! r)[c := ch]) = nat width \<and> set ((g ! r)[c := ch]) \<subseteq> grid_alphabet"
  proof -
    from True assms(1) have "length (g ! r) = nat width" "set (g ! r) \<subseteq> grid_alphabet"
      by (auto simp: grids_of_def)
    moreover have "set ((g ! r)[c := ch]) \<subseteq> insert ch (set (g ! r))"
      by (rule set_update_subset_insert)
    ultimately show ?thesis using assms(2) by auto
  qed
  have "length row = nat width \<and> set row \<subseteq> grid_alphabet"
    if "row \<in> set (g[r := (g ! r)[c := ch]])" for row
  proof -
    from that have "row \<in> insert ((g ! r)[c := ch]) (set g)"
      using set_update_subset_insert by fastforce
    with row assms(1) show ?thesis by (auto simp: grids_of_def)
  qed
  with assms(1) show ?thesis by (simp add: grids_of_def)
qed

lemma fold_write_cells_in_grids:
  assumes "fold_err write_cell ws g = Inr g'" "g \<in> grids_of h"
    "\<forall>w \<in> set ws. snd w \<in> grid_alphabet"
  shows "g' \<in> grids_of h"
  using assms
proof (induction ws arbitrary: g)
  case Nil
  then show ?case by simp
next
  case (Cons w ws)
  from Cons.prems(1) obtain g1 where g1: "write_cell w g = Inr g1"
    "fold_err write_cell ws g1 = Inr g'"
    by (cases "write_cell w g") (auto simp: bind_err_def)
  from g1(1) obtain r c where "g1 = g[r := (g ! r)[c := snd w]]"
    by (auto simp: write_cell_def grid_set_def split: option.splits)
  then have "g1 \<in> grids_of h"
    using grid_update_in_grids[OF Cons.prems(2)] Cons.prems(3) by simp
  from Cons.IH[OF g1(2) this] Cons.prems(3) show ?case by simp
qed

lemma stamp_cells_alphabet: "w \<in> set (stamp_cells p) \<Longrightarrow> snd w \<in> grid_alphabet"
  by (auto simp: stamp_cells_def Let_def grid_alphabet_def char_single_def split: if_splits)

lemma update_grid_in_grids: "update_grid h ps = Inr g \<Longrightarrow> g \<in> grids_of h"
  unfolding update_grid_def
  by (erule fold_write_cells_in_grids[OF _ blank_grid_in_grids])
     (auto simp: grid_writes_def dest: stamp_cells_alphabet)

lemma copy_board_in_grids:
  assumes "copy_board b new_key old = Inr b'"
  shows "height b' = height b \<and> grid b' \<in> grids_of (height b)
         \<and> goal_board_dict b' = goal_board_dict b"
proof (cases "map_of (pieces b) old")
  case None
  with assms show ?thesis
    by (simp add: copy_board_missing_key bind_err_def split: sum.splits)
next
  case (Some p)
  with assms show ?thesis
    by (auto simp: copy_board_eq bind_err_def update_grid_in_grids split: sum.splits)
qed

lemma successor_for_fields:
  assumes "successor_for s p d = Inr t"
  shows "\<exists>gp b'. goal_lookup (board s) (uid p) = Inr gp
           \<and> copy_board (board s) d (coord_x p, coord_y p) = Inr b'
           \<and> t = State b' ((hfn s - (\<bar>coord_x p - coord_x gp\<bar> + \<bar>coord_y p - coord_y gp\<bar>))
                             + (\<bar>fst d - coord_x gp\<bar> + \<bar>snd d - coord_y gp\<bar>))
                    (f_value s) (depth s + 1) (Some s)"
  using assms
  by (auto simp: successor_for_def bind_err_def Let_def split: sum.splits)

lemma successor_in_grids:
  assumes "generate_successors s = Inr ts" "t \<in> set ts"
  shows "height (board t) = height (board s) \<and> grid (board t) \<in> grids_of (height (board s))"
proof -
  from generate_successors_elem[OF assms] obtain p d where "successor_for s p d = Inr t" by blast
  from successor_for_fields[OF this] obtain b' where
    "copy_board (board s) d (coord_x p, coord_y p) = Inr b'" "board t = b'" by auto
  with copy_board_in_grids show ?thesis by blast
qed

lemma fold_push_states:
  assumes push: "\<And>v t fr. \<exists>t'. board t' = board t \<and>
        sts (push v t fr) = (if Board_str (board t) \<notin> v then add_mset t' (sts fr) else sts fr)"
    and P_board: "\<And>t t'. board t' = board t \<Longrightarrow> P t \<Longrightarrow> P t'"
    and "\<forall>t \<in> set ts. P t" "\<forall>s \<in># sts fr. P s"
  shows "\<forall>s \<in># sts (fold (push v) ts fr). P s"
  using assms(3,4)
proof (induction ts arbitrary: fr)
  case Nil
  then show ?case by simp
next
  case (Cons t ts)
  from push[of t v fr] obtain t' where t': "board t' = board t"
    "sts (push v t fr) = (if Board_str (board t) \<notin> v then add_mset t' (sts fr) else sts fr)"
    by blast
  have "P t'" using P_board[OF t'(1)] Cons.prems(1) by simp
  with t'(2) Cons.prems(2) have "\<forall>s \<in># sts (push v t fr). P s" by auto
  with Cons.IH[of "push v t fr"] Cons.prems(1) show ?case by simp
qed

lemma search_turn:
  assumes pop: "\<And>fr node fr1. ne fr \<Longrightarrow> pop fr = (node, fr1) \<Longrightarrow> sts fr = add_mset node (sts fr1)"
    and push: "\<And>v t fr. \<exists>t'. board t' = board t \<and>
        sts (push v t fr) = (if Board_str (board t) \<notin> v then add_mset t' (sts fr) else sts fr)"
    and P_board: "\<And>t t'. board t' = board t \<Longrightarrow> P t \<Longrightarrow> P t'"
    and P_succ: "\<And>s ts t. P s \<Longrightarrow> generate_successors s = Inr ts \<Longrightarrow> t \<in> set ts \<Longrightarrow> P t"
    and P_U: "\<And>s. P s \<Longrightarrow> Board_str (board s) \<in> U"
    and finU: "finite U"
    and inv: "\<forall>s \<in># sts fr. P s" and ne: "ne fr"
    and step: "search_body pop push goal_board (fr, v) = Continue (fr', v')"
  shows "(\<forall>s \<in># sts fr'. P s) \<and> ((fr', v'), (fr, v)) \<in> search_rel U sts"
proof -
  obtain node fr1 where p: "pop fr = (node, fr1)" by (cases "pop fr")
  note m = pop[OF ne p]
  from m inv have Pn: "P node" and inv1: "\<forall>s \<in># sts fr1. P s" by simp_all
  from p show ?thesis
  proof (cases rule: search_body_cases[where visited = v and push = push and goal_board = goal_board])
    case skip
    with step have e: "fr' = fr1" "v' = v" by simp_all
    have "size (sts fr1) < size (sts fr)" using m by simp
    with e inv1 show ?thesis by (simp add: search_rel_def)
  next
    case found
    with step show ?thesis by simp
  next
    case (raise e)
    with step show ?thesis by simp
  next
    case (expand ts)
    let ?k = "Board_str (board node)"
    from expand(4) step have e: "fr' = fold (push (insert ?k v)) ts fr1" "v' = insert ?k v"
      by simp_all
    have a: "\<forall>t \<in> set ts. P t" using P_succ[OF Pn expand(3)] by blast
    have i': "\<forall>s \<in># sts fr'. P s"
      unfolding e using push P_board a inv1 by (rule fold_push_states)
    have "?k \<in> U - v" using P_U[OF Pn] expand(1) by simp
    moreover have "U - insert ?k v = (U - v) - {?k}" by auto
    ultimately have "card (U - insert ?k v) < card (U - v)"
      using finU card_Diff1_less[of "U - v" ?k] by simp
    with e i' show ?thesis by (simp add: search_rel_def)
  qed
qed

lemma wf_search_rel: "wf (search_rel U sts)"
  unfolding search_rel_def by (intro wf_inv_image wf_lex_prod wf_less_than)

lemma search_total:
  assumes pop: "\<And>fr node fr1. ne fr \<Longrightarrow> pop fr = (node, fr1) \<Longrightarrow> sts fr = add_mset node (sts fr1)"
    and push: "\<And>v t fr. \<exists>t'. board t' = board t \<and>
        sts (push v t fr) = (if Board_str (board t) \<notin> v then add_mset t' (sts fr) else sts fr)"
    and P_board: "\<And>t t'. board t' = board t \<Longrightarrow> P t \<Longrightarrow> P t'"
    and P_succ: "\<And>s ts t. P s \<Longrightarrow> generate_successors s = Inr ts \<Longrightarrow> t \<in> set ts \<Longrightarrow> P t"
    and P_U: "\<And>s. P s \<Longrightarrow> Board_str (board s) \<in> U"
    and finU: "finite U"
    and inv: "\<forall>s \<in># sts (fst st0). P s"
  shows "\<exists>r n fr v.
           while_frontier (\<lambda>st. ne (fst st)) (search_body pop push goal_board) st0 = Some r
           \<and> after_turns (\<lambda>st. ne (fst st)) (search_body pop push goal_board) n st0 = Some (fr, v)
           \<and> (\<forall>s \<in># sts fr. P s)
           \<and> ((\<not> ne fr \<and> r = Inr None) \<or>
               (ne fr \<and> search_body pop push goal_board (fr, v) = Done r))"
proof -
  let ?ne = "\<lambda>st. ne (fst st)" and ?body = "search_body pop push goal_board"
  let ?I = "\<lambda>st. (\<forall>s \<in># sts (fst st). P s) \<and> (\<exists>n. after_turns ?ne ?body n st0 = Some st)"
  let ?Q = "\<lambda>r. \<exists>n fr v. after_turns ?ne ?body n st0 = Some (fr, v) \<and> (\<forall>s \<in># sts fr. P s)
           \<and> ((\<not> ne fr \<and> r = Inr None) \<or> (ne fr \<and> ?body (fr, v) = Done r))"
  have i0: "?I st0"
  proof -
    have "after_turns ?ne ?body 0 st0 = Some st0" by simp
    with inv show ?thesis by blast
  qed
  have st: "?I st' \<and> (st', st) \<in> search_rel U sts"
    if "?I st" "?ne st" "?body st = Continue st'" for st st'
  proof -
    obtain fr v where s: "st = (fr, v)" by (cases st)
    obtain fr' v' where s': "st' = (fr', v')" by (cases st')
    from that(1) obtain n where n: "after_turns ?ne ?body n st0 = Some st" by blast
    have "after_turns ?ne ?body (Suc n) st0 = Some st'"
      using n that(2,3) by (simp add: after_turns_Suc del: after_turns.simps)
    moreover have "(\<forall>s \<in># sts fr'. P s) \<and> ((fr', v'), (fr, v)) \<in> search_rel U sts"
    proof -
      have a: "\<forall>s \<in># sts fr. P s" "ne fr" "?body (fr, v) = Continue (fr', v')"
        using that s s' by simp_all
      show ?thesis using pop push P_board P_succ P_U finU a by (rule search_turn)
    qed
    ultimately show ?thesis unfolding s s' fst_conv by blast
  qed
  have fin: "?Q r" if "?I st" "?ne st" "?body st = Done r" for st r
  proof -
    obtain fr v where s: "st = (fr, v)" by (cases st)
    from that s show ?thesis by auto
  qed
  have emp: "?Q (Inr None)" if "?I st" "\<not> ?ne st" for st
  proof -
    obtain fr v where s: "st = (fr, v)" by (cases st)
    from that s show ?thesis by auto
  qed
  have "\<exists>r. while_frontier ?ne ?body st0 = Some r \<and> ?Q r"
  proof (rule while_frontier_total[where I = ?I and R = "search_rel U sts"])
    show "wf (search_rel U sts)" by (rule wf_search_rel)
    show "?I st0" by (rule i0)
    show "?I st' \<and> (st', st) \<in> search_rel U sts"
      if "?I st" "?ne st" "?body st = Continue st'" for st st'
      using that by (rule st)
    show "?Q r" if "?I st" "?ne st" "?body st = Done r" for st r
      using that by (rule fin)
    show "?Q (Inr None)" if "?I st" "\<not> ?ne st" for st
      using that by (rule emp)
  qed
  then show ?thesis by blast
qed

lemma astar_pop_states:
  assumes "h \<noteq> []" "astar_pop h = (node, h1)"
  shows "astar_states h = add_mset node (astar_states h1)"
proof -
  obtain x h' where p: "heappop h = (x, h')" by (cases "heappop h")
  with assms(2) have "node = snd x" "h1 = h'"
    by (auto simp: astar_pop_def split: prod.splits)
  with heappop_props(1)[OF assms(1) p] show ?thesis by (simp add: astar_states_def)
qed

lemma astar_push_states:
  "\<exists>t'. board t' = board t \<and>
     astar_states (astar_push v t h) =
       (if Board_str (board t) \<notin> v then add_mset t' (astar_states h) else astar_states h)"
proof -
  let ?t' = "set_f t (depth t + hfn t)"
  have "board ?t' = board t" by (simp add: set_f_def)
  moreover have "astar_states (astar_push v t h) =
       (if Board_str (board t) \<notin> v then add_mset ?t' (astar_states h) else astar_states h)"
    by (simp add: astar_push_def astar_states_def mset_heappush Let_def)
  ultimately show ?thesis by blast
qed

lemma dfs_pop_states:
  assumes "st \<noteq> []" "dfs_pop st = (node, st1)"
  shows "mset st = add_mset node (mset st1)"
proof -
  from assms(2) have "node = last st" "st1 = butlast st" by (simp_all add: dfs_pop_def)
  moreover have "st = butlast st @ [last st]" using assms(1) by simp
  ultimately show ?thesis by (metis mset.simps(1) mset.simps(2) mset_append union_mset_add_mset_right add.right_neutral)
qed

lemma dfs_push_states:
  "\<exists>t'. board t' = board t \<and>
     mset (dfs_push v t st) = (if Board_str (board t) \<notin> v then add_mset t' (mset st) else mset st)"
  by (intro exI[of _ t]) (simp add: dfs_push_def)

lemma finite_grid_strings: "finite (grid_strings h b0)"
  by (simp add: grid_strings_def finite_grids_of)

lemma on_board_board: "board t' = board t \<Longrightarrow> on_board h b0 t \<Longrightarrow> on_board h b0 t'"
  by (simp add: on_board_def)

lemma on_board_successor:
  assumes "on_board h b0 s" "generate_successors s = Inr ts" "t \<in> set ts"
  shows "on_board h b0 t"
proof -
  from successor_in_grids[OF assms(2,3)] assms(1)
  have "height (board t) = h" "grid (board t) \<in> grids_of h" by (simp_all add: on_board_def)
  then show ?thesis by (simp add: on_board_def grid_strings_def Board_str_def)
qed

lemma on_board_string: "on_board h b0 s \<Longrightarrow> Board_str (board s) \<in> grid_strings h b0"
  by (simp add: on_board_def)

lemma on_board_root: "on_board (height (board s)) (board s) s"
  by (simp add: on_board_def grid_strings_def)

lemma list_all2_exists:
  "\<forall>x \<in> set xs. \<exists>y. R x y \<Longrightarrow> \<exists>ys. list_all2 R xs ys"
proof (induction xs)
  case Nil
  then show ?case by simp
next
  case (Cons x xs)
  then obtain y ys where "R x y" "list_all2 R xs ys" by auto
  then have "list_all2 R (x # xs) (y # ys)" by simp
  then show ?case by blast
qed

lemma map_Inr_exists:
  "\<forall>x \<in> set xs. \<exists>y. F x = Inr y \<Longrightarrow> \<exists>ys. map F xs = map Inr ys"
proof (induction xs)
  case Nil
  then show ?case by simp
next
  case (Cons x xs)
  then obtain y ys where "F x = Inr y" "map F xs = map Inr ys" by auto
  then have "map F (x # xs) = map Inr (y # ys)" by simp
  then show ?case by blast
qed

lemma ready_goal_lookup:
  assumes "ready s" "(k, p) \<in> set (pieces (board s))"
  shows "\<exists>gp. goal_lookup (board s) (uid p) = Inr gp"
proof -
  from assms(1) obtain gd where gd: "goal_board_dict (board s) = Some gd"
    "\<forall>kp \<in> set (pieces (board s)). uid (snd kp) \<in> fst ` set gd"
    by (auto simp: ready_def split: option.splits)
  from gd(2) assms(2) have "uid p \<in> fst ` set gd" by force
  then obtain gp where "map_of gd (uid p) = Some gp"
    by (metis domD dom_map_of_conv_image_fst)
  with gd(1) show ?thesis by (simp add: goal_lookup_def dict_get_def)
qed

lemma ready_generates:
  assumes r: "ready s"
  shows "\<exists>ts. generate_successors s = Inr ts"
proof -
  from r have wf: "wf_board (board s)" by (simp add: ready_def)
  have "\<exists>ss. piece_succ_rel s p ss" if kp: "(k, p) \<in> set (pieces (board s))" for k p
  proof -
    let ?ks = "filter (legal_dest (board s) p) (slide_steps p)"
    have ks: "piece_new_keys (board s) p = Inr ?ks" using wf kp by (rule wf_piece_new_keys)
    from ready_goal_lookup[OF r kp] obtain gp where gp: "goal_lookup (board s) (uid p) = Inr gp"
      by blast
    have "\<exists>t. successor_for s p d = Inr t" if "d \<in> set ?ks" for d
    proof -
      from that have "legal_dest (board s) p d" by simp
      from legal_move_wf[OF wf kp this] obtain b' where
        "copy_board (board s) d (key_of p) = Inr b'" by blast
      then show ?thesis using gp
        by (simp add: successor_for_def bind_err_def Let_def key_of_def)
    qed
    then have "\<exists>ss. map (successor_for s p) ?ks = map Inr ss"
      by (intro map_Inr_exists) blast
    with ks show ?thesis by (auto simp: piece_succ_rel_def)
  qed
  then have "\<forall>p \<in> set (map snd (pieces (board s))). \<exists>ss. piece_succ_rel s p ss"
    by auto
  from list_all2_exists[OF this] show ?thesis
    using generate_successors_iff by blast
qed

lemma ready_successor:
  assumes r: "ready s" and g: "generate_successors s = Inr ts" and t: "t \<in> set ts"
  shows "ready t"
proof -
  from r have wf: "wf_board (board s)" by (simp add: ready_def)
  from r obtain gd where gd: "goal_board_dict (board s) = Some gd"
    "\<forall>kp \<in> set (pieces (board s)). uid (snd kp) \<in> fst ` set gd"
    by (auto simp: ready_def split: option.splits)
  from wf_successor[OF wf g t] obtain k p d where kp: "(k, p) \<in> set (pieces (board s))"
    and wf': "wf_board (board t)"
    and ps': "pieces (board t) =
               filter (\<lambda>kq. fst kq \<noteq> k) (pieces (board s)) @ [(d, set_coords p (fst d) (snd d))]"
    and gd': "goal_board_dict (board t) = goal_board_dict (board s)"
    by blast
  have "uid (snd kq) \<in> fst ` set gd" if "kq \<in> set (pieces (board t))" for kq
  proof -
    from that ps' have "kq \<in> set (pieces (board s)) \<or> kq = (d, set_coords p (fst d) (snd d))"
      by auto
    then show ?thesis
    proof
      assume "kq \<in> set (pieces (board s))"
      with gd(2) show ?thesis by blast
    next
      assume "kq = (d, set_coords p (fst d) (snd d))"
      then have "uid (snd kq) = uid p" by (simp add: set_coords_def)
      with gd(2) kp show ?thesis by force
    qed
  qed
  with wf' gd' gd(1) show ?thesis by (simp add: ready_def)
qed

lemma search_outcome_from_total:
  assumes "after_turns (\<lambda>st. ne (fst st)) (search_body pop push goal_board) n st0 = Some (fr, v)"
    and "(\<not> ne fr \<and> r = Inr None) \<or> (ne fr \<and> search_body pop push goal_board (fr, v) = Done r)"
  shows "search_outcome ne pop goal_board (search_body pop push goal_board) st0 r"
proof -
  obtain node fr1 where p: "pop fr = (node, fr1)" by (cases "pop fr")
  have "if ne fr then
             (let node = fst (pop fr) in
              Board_str (board node) \<notin> v
              \<and> (if Board_eq (board node) (PyBoard goal_board) then r = Inr (Some node)
                  else (\<exists>e. generate_successors node = Inl e \<and> r = Inl e)))
           else r = Inr None"
  proof (cases "ne fr")
    case False
    with assms(2) show ?thesis by simp
  next
    case True
    with assms(2) have d: "search_body pop push goal_board (fr, v) = Done r" by simp
    from p show ?thesis
    proof (cases rule: search_body_cases[where visited = v and push = push and goal_board = goal_board])
      case skip
      with d show ?thesis by simp
    next
      case found
      with d True p show ?thesis by simp
    next
      case (raise e)
      with d True p show ?thesis by simp
    next
      case (expand ts)
      with d show ?thesis by simp
    qed
  qed
  with assms(1) show ?thesis unfolding search_outcome_def by blast
qed

lemma search_ends:
  assumes pop: "\<And>fr node fr1. ne fr \<Longrightarrow> pop fr = (node, fr1) \<Longrightarrow> sts fr = add_mset node (sts fr1)"
    and push: "\<And>v t fr. \<exists>t'. board t' = board t \<and>
        sts (push v t fr) = (if Board_str (board t) \<notin> v then add_mset t' (sts fr) else sts fr)"
    and root: "sts fr0 = {#initial#}"
  shows "\<exists>r. while_frontier (\<lambda>st. ne (fst st)) (search_body pop push goal_board) (fr0, {}) = Some r
           \<and> search_outcome ne pop goal_board (search_body pop push goal_board) (fr0, {}) r"
    and "ready initial \<Longrightarrow>
         \<exists>r. while_frontier (\<lambda>st. ne (fst st)) (search_body pop push goal_board) (fr0, {}) = Some (Inr r)
           \<and> search_outcome ne pop goal_board (search_body pop push goal_board) (fr0, {}) (Inr r)
           \<and> (\<forall>s. r = Some s \<longrightarrow> Board_eq (board s) (PyBoard goal_board) \<and> ready s)"
proof -
  let ?h = "height (board initial)" and ?b0 = "board initial"
  let ?body = "search_body pop push goal_board"
  let ?P = "on_board ?h ?b0"
  have i1: "\<forall>s \<in># sts (fst (fr0, {}::string set)). ?P s"
    using root on_board_root[of initial] by simp
  have "\<exists>r n fr v.
           while_frontier (\<lambda>st. ne (fst st)) ?body (fr0, {}) = Some r
           \<and> after_turns (\<lambda>st. ne (fst st)) ?body n (fr0, {}) = Some (fr, v)
           \<and> (\<forall>s \<in># sts fr. ?P s)
           \<and> ((\<not> ne fr \<and> r = Inr None) \<or> (ne fr \<and> ?body (fr, v) = Done r))"
  proof (rule search_total[where sts = sts and P = ?P and U = "grid_strings ?h ?b0"])
    show "sts fr = add_mset node (sts fr1)" if "ne fr" "pop fr = (node, fr1)" for fr node fr1
      using that by (rule pop)
    show "\<exists>t'. board t' = board t \<and>
        sts (push v t fr) = (if Board_str (board t) \<notin> v then add_mset t' (sts fr) else sts fr)"
      for v t fr by (rule push)
    show "?P t'" if "board t' = board t" "?P t" for t t' using that by (rule on_board_board)
    show "?P t" if "?P s" "generate_successors s = Inr ts" "t \<in> set ts" for s ts t
      using that by (rule on_board_successor)
    show "Board_str (board s) \<in> grid_strings ?h ?b0" if "?P s" for s
      using that by (rule on_board_string)
    show "finite (grid_strings ?h ?b0)" by (rule finite_grid_strings)
    show "\<forall>s \<in># sts (fst (fr0, {}::string set)). ?P s" by (rule i1)
  qed
  then obtain r n fr v where
    "while_frontier (\<lambda>st. ne (fst st)) ?body (fr0, {}) = Some r"
    "after_turns (\<lambda>st. ne (fst st)) ?body n (fr0, {}) = Some (fr, v)"
    "(\<not> ne fr \<and> r = Inr None) \<or> (ne fr \<and> ?body (fr, v) = Done r)"
    by blast
  with search_outcome_from_total[of ne pop push goal_board n "(fr0, {})" fr v r]
  show "\<exists>r. while_frontier (\<lambda>st. ne (fst st)) ?body (fr0, {}) = Some r
           \<and> search_outcome ne pop goal_board ?body (fr0, {}) r"
    by blast
  show "\<exists>r. while_frontier (\<lambda>st. ne (fst st)) ?body (fr0, {}) = Some (Inr r)
           \<and> search_outcome ne pop goal_board ?body (fr0, {}) (Inr r)
           \<and> (\<forall>s. r = Some s \<longrightarrow> Board_eq (board s) (PyBoard goal_board) \<and> ready s)"
    if rd: "ready initial"
  proof -
    let ?P2 = "\<lambda>s. ready s \<and> on_board ?h ?b0 s"
    have i2: "\<forall>s \<in># sts (fst (fr0, {}::string set)). ?P2 s"
      using root on_board_root[of initial] rd by simp
    have pb: "?P2 t'" if "board t' = board t" "?P2 t" for t t'
    proof -
      have "ready t' = ready t" unfolding ready_def that(1) ..
      with that on_board_board[of t' t ?h ?b0] show ?thesis by simp
    qed
    have ps: "?P2 t" if "?P2 s" "generate_successors s = Inr ts" "t \<in> set ts" for s ts t
      using that ready_successor[of s ts t] on_board_successor[of ?h ?b0 s ts t] by simp
    have pu: "Board_str (board s) \<in> grid_strings ?h ?b0" if "?P2 s" for s
      using that by (simp add: on_board_string)
    have "\<exists>r n fr v.
           while_frontier (\<lambda>st. ne (fst st)) ?body (fr0, {}) = Some r
           \<and> after_turns (\<lambda>st. ne (fst st)) ?body n (fr0, {}) = Some (fr, v)
           \<and> (\<forall>s \<in># sts fr. ?P2 s)
           \<and> ((\<not> ne fr \<and> r = Inr None) \<or> (ne fr \<and> ?body (fr, v) = Done r))"
    proof (rule search_total[where sts = sts and P = ?P2 and U = "grid_strings ?h ?b0"])
      show "sts fr = add_mset node (sts fr1)" if "ne fr" "pop fr = (node, fr1)" for fr node fr1
        using that by (rule pop)
      show "\<exists>t'. board t' = board t \<and>
          sts (push v t fr) = (if Board_str (board t) \<notin> v then add_mset t' (sts fr) else sts fr)"
        for v t fr by (rule push)
      show "?P2 t'" if "board t' = board t" "?P2 t" for t t' using that by (rule pb)
      show "?P2 t" if "?P2 s" "generate_successors s = Inr ts" "t \<in> set ts" for s ts t
        using that by (rule ps)
      show "Board_str (board s) \<in> grid_strings ?h ?b0" if "?P2 s" for s
        using that by (rule pu)
      show "finite (grid_strings ?h ?b0)" by (rule finite_grid_strings)
      show "\<forall>s \<in># sts (fst (fr0, {}::string set)). ?P2 s" by (rule i2)
    qed
    then obtain r n fr v where t:
      "while_frontier (\<lambda>st. ne (fst st)) ?body (fr0, {}) = Some r"
      "after_turns (\<lambda>st. ne (fst st)) ?body n (fr0, {}) = Some (fr, v)"
      "\<forall>s \<in># sts fr. ?P2 s"
      "(\<not> ne fr \<and> r = Inr None) \<or> (ne fr \<and> ?body (fr, v) = Done r)"
      by blast
    note so = search_outcome_from_total[OF t(2,4)]
    have "\<exists>r'. r = Inr r' \<and> (\<forall>s. r' = Some s \<longrightarrow> Board_eq (board s) (PyBoard goal_board) \<and> ready s)"
    proof (cases "ne fr")
      case False
      with t(4) show ?thesis by simp
    next
      case True
      with t(4) have d: "?body (fr, v) = Done r" by simp
      obtain node fr1 where p: "pop fr = (node, fr1)" by (cases "pop fr")
      from pop[OF True p] t(3) have rn: "ready node" by simp
      from p show ?thesis
      proof (cases rule: search_body_cases[where visited = v and push = push and goal_board = goal_board])
        case skip
        with d show ?thesis by simp
      next
        case found
        with d rn show ?thesis by auto
      next
        case (raise e)
        with ready_generates[OF rn] show ?thesis by simp
      next
        case (expand ts)
        with d show ?thesis by simp
      qed
    qed
    with t(1) so show ?thesis by blast
  qed
qed

lemma astar_root_states: "astar_states (heappush [] (f, initial)) = {#initial#}"
  by (simp add: astar_states_def mset_heappush)

lemma astar_unfold:
  "astar initial goal_board =
     while_frontier (\<lambda>st. (\<lambda>h. h \<noteq> []) (fst st)) (search_body astar_pop astar_push goal_board)
       (heappush [] (f_value initial, initial), {})"
  by (simp add: astar_def astar_body_generic)

lemma dfs_unfold:
  "dfs initial goal_board =
     while_frontier (\<lambda>st. (\<lambda>h. h \<noteq> []) (fst st)) (search_body dfs_pop dfs_push goal_board)
       ([initial], {})"
  by (simp add: dfs_def dfs_body_generic)

text \<open>
  C6.  Both searches return for every root state and goal board.  The call ends in one of
  three ways: the frontier is empty and the result is \<^verbatim>\<open>None\<close>; or the popped node is
  unvisited and its grid equals the goal's, and the result is that node (the first such
  node, since every earlier turn went on); or \<^verbatim>\<open>generate_successors\<close> raises on the popped
  node.  From a root that is ready for expansion (a well-formed board whose goal dictionary
  has every piece's uid) nothing raises: the result is \<^verbatim>\<open>None\<close> or a node whose board
  equals the goal board.
\<close>

theorem search_terminates:
  "(\<exists>r. astar initial goal_board = Some r
        \<and> search_outcome (\<lambda>h. h \<noteq> []) astar_pop goal_board (astar_body goal_board)
            (heappush [] (f_value initial, initial), {}) r)
   \<and> (\<exists>r. dfs initial goal_board = Some r
        \<and> search_outcome (\<lambda>h. h \<noteq> []) dfs_pop goal_board (dfs_body goal_board) ([initial], {}) r)
   \<and> (ready initial \<longrightarrow>
        (\<exists>r. astar initial goal_board = Some (Inr r)
            \<and> (\<forall>s. r = Some s \<longrightarrow> Board_eq (board s) (PyBoard goal_board) \<and> ready s))
      \<and> (\<exists>r. dfs initial goal_board = Some (Inr r)
            \<and> (\<forall>s. r = Some s \<longrightarrow> Board_eq (board s) (PyBoard goal_board) \<and> ready s)))"
proof -
  let ?ne = "\<lambda>h. h \<noteq> []"
  let ?a0 = "heappush [] (f_value initial, initial)"
  have dr: "mset [initial] = {#initial#}" by simp
  have "\<exists>r. while_frontier (\<lambda>st. ?ne (fst st)) (search_body astar_pop astar_push goal_board) (?a0, {}) = Some r
           \<and> search_outcome ?ne astar_pop goal_board (search_body astar_pop astar_push goal_board) (?a0, {}) r"
    by (rule search_ends(1)[where sts = astar_states and initial = initial])
       (rule astar_pop_states, assumption+, rule astar_push_states, rule astar_root_states)
  then have 1: "\<exists>r. astar initial goal_board = Some r
        \<and> search_outcome ?ne astar_pop goal_board (astar_body goal_board) (?a0, {}) r"
    unfolding astar_unfold astar_body_generic .
  have "\<exists>r. while_frontier (\<lambda>st. ?ne (fst st)) (search_body dfs_pop dfs_push goal_board) ([initial], {}) = Some r
           \<and> search_outcome ?ne dfs_pop goal_board (search_body dfs_pop dfs_push goal_board) ([initial], {}) r"
    by (rule search_ends(1)[where sts = mset and initial = initial])
       (rule dfs_pop_states, assumption+, rule dfs_push_states, rule dr)
  then have 2: "\<exists>r. dfs initial goal_board = Some r
        \<and> search_outcome ?ne dfs_pop goal_board (dfs_body goal_board) ([initial], {}) r"
    unfolding dfs_unfold dfs_body_generic .
  have 3: "\<exists>r. astar initial goal_board = Some (Inr r)
            \<and> (\<forall>s. r = Some s \<longrightarrow> Board_eq (board s) (PyBoard goal_board) \<and> ready s)"
    if rd: "ready initial"
  proof -
    have "\<exists>r. while_frontier (\<lambda>st. ?ne (fst st)) (search_body astar_pop astar_push goal_board) (?a0, {}) = Some (Inr r)
           \<and> search_outcome ?ne astar_pop goal_board (search_body astar_pop astar_push goal_board) (?a0, {}) (Inr r)
           \<and> (\<forall>s. r = Some s \<longrightarrow> Board_eq (board s) (PyBoard goal_board) \<and> ready s)"
      by (rule search_ends(2)[where sts = astar_states and initial = initial])
         (rule astar_pop_states, assumption+, rule astar_push_states, rule astar_root_states, rule rd)
    then show ?thesis unfolding astar_unfold by blast
  qed
  have 4: "\<exists>r. dfs initial goal_board = Some (Inr r)
            \<and> (\<forall>s. r = Some s \<longrightarrow> Board_eq (board s) (PyBoard goal_board) \<and> ready s)"
    if rd: "ready initial"
  proof -
    have "\<exists>r. while_frontier (\<lambda>st. ?ne (fst st)) (search_body dfs_pop dfs_push goal_board) ([initial], {}) = Some (Inr r)
           \<and> search_outcome ?ne dfs_pop goal_board (search_body dfs_pop dfs_push goal_board) ([initial], {}) (Inr r)
           \<and> (\<forall>s. r = Some s \<longrightarrow> Board_eq (board s) (PyBoard goal_board) \<and> ready s)"
      by (rule search_ends(2)[where sts = mset and initial = initial])
         (rule dfs_pop_states, assumption+, rule dfs_push_states, rule dr, rule rd)
    then show ?thesis unfolding dfs_unfold by blast
  qed
  from 1 2 3 4 show ?thesis by blast
qed

lemma ex_row_ready: "ready ex_row_state"
  by code_simp

theorem search_terminates_witness:
  "ready ex_row_state
   \<and> (\<exists>s. astar ex_row_state ex_row_goal = Some (Inr (Some s))
          \<and> Board_eq (board s) (PyBoard ex_row_goal) \<and> depth s = 2)
   \<and> (\<exists>s. dfs ex_row_state ex_row_goal = Some (Inr (Some s))
          \<and> Board_eq (board s) (PyBoard ex_row_goal) \<and> depth s = 2)"
proof -
  have ea: "map_option (map_sum id (map_option depth)) (astar ex_row_state ex_row_goal) = Some (Inr (Some 2))"
    by code_simp
  have ed: "map_option (map_sum id (map_option depth)) (dfs ex_row_state ex_row_goal) = Some (Inr (Some 2))"
    by code_simp
  from search_terminates[of ex_row_state ex_row_goal] ex_row_ready
  obtain ra rd where
    a: "astar ex_row_state ex_row_goal = Some (Inr ra)"
       "\<forall>s. ra = Some s \<longrightarrow> Board_eq (board s) (PyBoard ex_row_goal) \<and> ready s"
    and d: "dfs ex_row_state ex_row_goal = Some (Inr rd)"
       "\<forall>s. rd = Some s \<longrightarrow> Board_eq (board s) (PyBoard ex_row_goal) \<and> ready s"
    by blast
  from ea a(1) obtain sa where sa: "ra = Some sa" "depth sa = 2" by (cases ra) auto
  from ed d(1) obtain sd where sd: "rd = Some sd" "depth sd = 2" by (cases rd) auto
  from a sa d sd ex_row_ready show ?thesis by blast
qed

lemma search_body_visited:
  assumes "pop fr = (node, fr1)"
  shows "Board_str (board node) \<in> v \<Longrightarrow>
           search_body pop push goal_board (fr, v) = Continue (fr1, v)"
    and "search_body pop push goal_board (fr, v) = Continue (fr', v') \<Longrightarrow>
           v' = insert (Board_str (board node)) v"
  using assms
  by (cases rule: search_body_cases[where visited = v and push = push and goal_board = goal_board];
      auto)+

lemma after_turns_visited_mono:
  assumes "after_turns ne (search_body pop push goal_board) m st = Some st'"
  shows "snd st \<subseteq> snd st'"
  using assms
proof (induction m arbitrary: st')
  case 0
  then show ?case by simp
next
  case (Suc m)
  from Suc.prems obtain st1 where s: "after_turns ne (search_body pop push goal_board) m st = Some st1"
    "search_body pop push goal_board st1 = Continue st'"
    by (auto simp: after_turns_Suc simp del: after_turns.simps
        split: option.splits if_splits turn.splits)
  obtain fr v where st1: "st1 = (fr, v)" by (cases st1)
  obtain fr' v' where st': "st' = (fr', v')" by (cases st')
  obtain node fr1 where p: "pop fr = (node, fr1)" by (cases "pop fr")
  from s(2) have "v' = insert (Board_str (board node)) v"
    unfolding st1 st' by (rule search_body_visited(2)[where pop = pop and fr = fr, OF p])
  then have "v \<subseteq> v'" by blast
  with Suc.IH[OF s(1)] show ?case by (simp add: st1 st')
qed

lemma expands_once:
  assumes i: "after_turns (\<lambda>st. ne (fst st)) (search_body pop push goal_board) i st0 = Some si"
    and j: "after_turns (\<lambda>st. ne (fst st)) (search_body pop push goal_board) j st0 = Some sj"
    and lt: "i < j"
    and e: "expands ne pop goal_board si = Some k"
  shows "expands ne pop goal_board sj \<noteq> Some k"
proof -
  let ?ne = "\<lambda>st. ne (fst st)" and ?body = "search_body pop push goal_board"
  obtain m where m: "j = Suc i + m" using lt less_iff_Suc_add by auto
  from j obtain s1 where s1: "after_turns ?ne ?body (Suc i) st0 = Some s1"
    "after_turns ?ne ?body m s1 = Some sj"
    unfolding m after_turns_add[of ?ne ?body "Suc i" m st0] by (auto split: option.splits)
  from s1(1) i have b: "?body si = Continue s1"
    by (auto simp: after_turns_Suc simp del: after_turns.simps split: if_splits turn.splits)
  obtain fr v where si: "si = (fr, v)" by (cases si)
  obtain fr' v' where s1': "s1 = (fr', v')" by (cases s1)
  obtain node fr1 where p: "pop fr = (node, fr1)" by (cases "pop fr")
  from e have k: "k = Board_str (board node)"
    by (auto simp: expands_def si p Let_def split: if_splits)
  from b have "v' = insert (Board_str (board node)) v"
    unfolding si s1' by (rule search_body_visited(2)[where pop = pop and fr = fr, OF p])
  then have "k \<in> snd s1" by (simp add: s1' k)
  with after_turns_visited_mono[OF s1(2)] have "k \<in> snd sj" by blast
  then show ?thesis by (auto simp: expands_def Let_def split: if_splits)
qed

lemma expands_calls_generate:
  assumes "pop fr = (node, fr1)" "expands ne pop goal_board (fr, v) = Some k"
  shows "search_body pop push goal_board (fr, v) =
           (case generate_successors node of
              Inl e \<Rightarrow> Done (Inl e)
            | Inr ts \<Rightarrow> Continue (fold (push (insert k v)) ts fr1, insert k v))"
  using assms by (auto simp: expands_def search_body_def Let_def split: if_splits sum.splits)

text \<open>
  C2.  In a turn of either loop the visited set changes only by the grid string of the
  node just popped: the pushes of the turn add nothing to it.  A popped node whose grid
  string is already visited is dropped, whatever \<^verbatim>\<open>generate_successors\<close> would do on it.
  A turn that expands calls \<^verbatim>\<open>generate_successors\<close> on the popped node and marks its grid
  string visited.  Along one run, from the root on, no two turns expand the same grid
  string.
\<close>

theorem visited_on_pop_expanded_once:
  "(astar_pop heap_lst = (node, heap1) \<longrightarrow>
       (Board_str (board node) \<in> visited \<longrightarrow>
          astar_body goal_board (heap_lst, visited) = Continue (heap1, visited))
     \<and> (astar_body goal_board (heap_lst, visited) = Continue (heap', visited') \<longrightarrow>
          visited' = insert (Board_str (board node)) visited)
     \<and> (expands (\<lambda>h. h \<noteq> []) astar_pop goal_board (heap_lst, visited) = Some k \<longrightarrow>
          astar_body goal_board (heap_lst, visited) =
            (case generate_successors node of
               Inl e \<Rightarrow> Done (Inl e)
             | Inr ts \<Rightarrow> Continue (fold (astar_push (insert k visited)) ts heap1, insert k visited))))
   \<and> (dfs_pop stack = (dnode, stack1) \<longrightarrow>
       (Board_str (board dnode) \<in> visited \<longrightarrow>
          dfs_body goal_board (stack, visited) = Continue (stack1, visited))
     \<and> (dfs_body goal_board (stack, visited) = Continue (stack', visited') \<longrightarrow>
          visited' = insert (Board_str (board dnode)) visited)
     \<and> (expands (\<lambda>h. h \<noteq> []) dfs_pop goal_board (stack, visited) = Some k \<longrightarrow>
          dfs_body goal_board (stack, visited) =
            (case generate_successors dnode of
               Inl e \<Rightarrow> Done (Inl e)
             | Inr ts \<Rightarrow> Continue (fold (dfs_push (insert k visited)) ts stack1, insert k visited))))
   \<and> (i < j
       \<and> after_turns (\<lambda>st. fst st \<noteq> []) (astar_body goal_board) i
            (heappush [] (f_value initial, initial), {}) = Some si
       \<and> after_turns (\<lambda>st. fst st \<noteq> []) (astar_body goal_board) j
            (heappush [] (f_value initial, initial), {}) = Some sj
       \<and> expands (\<lambda>h. h \<noteq> []) astar_pop goal_board si = Some k
       \<longrightarrow> expands (\<lambda>h. h \<noteq> []) astar_pop goal_board sj \<noteq> Some k)
   \<and> (i < j
       \<and> after_turns (\<lambda>st. fst st \<noteq> []) (dfs_body goal_board) i ([initial], {}) = Some di
       \<and> after_turns (\<lambda>st. fst st \<noteq> []) (dfs_body goal_board) j ([initial], {}) = Some dj
       \<and> expands (\<lambda>h. h \<noteq> []) dfs_pop goal_board di = Some k
       \<longrightarrow> expands (\<lambda>h. h \<noteq> []) dfs_pop goal_board dj \<noteq> Some k)"
proof -
  have a: "(Board_str (board node) \<in> visited \<longrightarrow>
          astar_body goal_board (heap_lst, visited) = Continue (heap1, visited))
     \<and> (astar_body goal_board (heap_lst, visited) = Continue (heap', visited') \<longrightarrow>
          visited' = insert (Board_str (board node)) visited)
     \<and> (expands (\<lambda>h. h \<noteq> []) astar_pop goal_board (heap_lst, visited) = Some k \<longrightarrow>
          astar_body goal_board (heap_lst, visited) =
            (case generate_successors node of
               Inl e \<Rightarrow> Done (Inl e)
             | Inr ts \<Rightarrow> Continue (fold (astar_push (insert k visited)) ts heap1, insert k visited)))"
    if p: "astar_pop heap_lst = (node, heap1)"
    unfolding astar_body_generic
  proof (intro conjI impI)
    assume "Board_str (board node) \<in> visited"
    with p show "search_body astar_pop astar_push goal_board (heap_lst, visited) = Continue (heap1, visited)"
      by (rule search_body_visited(1))
  next
    assume "search_body astar_pop astar_push goal_board (heap_lst, visited) = Continue (heap', visited')"
    with p show "visited' = insert (Board_str (board node)) visited"
      by (rule search_body_visited(2))
  next
    assume "expands (\<lambda>h. h \<noteq> []) astar_pop goal_board (heap_lst, visited) = Some k"
    with p show "search_body astar_pop astar_push goal_board (heap_lst, visited) =
            (case generate_successors node of
               Inl e \<Rightarrow> Done (Inl e)
             | Inr ts \<Rightarrow> Continue (fold (astar_push (insert k visited)) ts heap1, insert k visited))"
      by (rule expands_calls_generate)
  qed
  have d: "(Board_str (board dnode) \<in> visited \<longrightarrow>
          dfs_body goal_board (stack, visited) = Continue (stack1, visited))
     \<and> (dfs_body goal_board (stack, visited) = Continue (stack', visited') \<longrightarrow>
          visited' = insert (Board_str (board dnode)) visited)
     \<and> (expands (\<lambda>h. h \<noteq> []) dfs_pop goal_board (stack, visited) = Some k \<longrightarrow>
          dfs_body goal_board (stack, visited) =
            (case generate_successors dnode of
               Inl e \<Rightarrow> Done (Inl e)
             | Inr ts \<Rightarrow> Continue (fold (dfs_push (insert k visited)) ts stack1, insert k visited)))"
    if p: "dfs_pop stack = (dnode, stack1)"
    unfolding dfs_body_generic
  proof (intro conjI impI)
    assume "Board_str (board dnode) \<in> visited"
    with p show "search_body dfs_pop dfs_push goal_board (stack, visited) = Continue (stack1, visited)"
      by (rule search_body_visited(1))
  next
    assume "search_body dfs_pop dfs_push goal_board (stack, visited) = Continue (stack', visited')"
    with p show "visited' = insert (Board_str (board dnode)) visited"
      by (rule search_body_visited(2))
  next
    assume "expands (\<lambda>h. h \<noteq> []) dfs_pop goal_board (stack, visited) = Some k"
    with p show "search_body dfs_pop dfs_push goal_board (stack, visited) =
            (case generate_successors dnode of
               Inl e \<Rightarrow> Done (Inl e)
             | Inr ts \<Rightarrow> Continue (fold (dfs_push (insert k visited)) ts stack1, insert k visited))"
      by (rule expands_calls_generate)
  qed
  have ra: "expands (\<lambda>h. h \<noteq> []) astar_pop goal_board sj \<noteq> Some k"
    if "i < j
       \<and> after_turns (\<lambda>st. fst st \<noteq> []) (astar_body goal_board) i
            (heappush [] (f_value initial, initial), {}) = Some si
       \<and> after_turns (\<lambda>st. fst st \<noteq> []) (astar_body goal_board) j
            (heappush [] (f_value initial, initial), {}) = Some sj
       \<and> expands (\<lambda>h. h \<noteq> []) astar_pop goal_board si = Some k"
  proof -
    from that have t: "i < j"
      "after_turns (\<lambda>st. (\<lambda>h. h \<noteq> []) (fst st)) (search_body astar_pop astar_push goal_board) i
            (heappush [] (f_value initial, initial), {}) = Some si"
      "after_turns (\<lambda>st. (\<lambda>h. h \<noteq> []) (fst st)) (search_body astar_pop astar_push goal_board) j
            (heappush [] (f_value initial, initial), {}) = Some sj"
      "expands (\<lambda>h. h \<noteq> []) astar_pop goal_board si = Some k"
      unfolding astar_body_generic by simp_all
    from t(2,3,1,4) show ?thesis by (rule expands_once)
  qed
  have rd: "expands (\<lambda>h. h \<noteq> []) dfs_pop goal_board dj \<noteq> Some k"
    if "i < j
       \<and> after_turns (\<lambda>st. fst st \<noteq> []) (dfs_body goal_board) i ([initial], {}) = Some di
       \<and> after_turns (\<lambda>st. fst st \<noteq> []) (dfs_body goal_board) j ([initial], {}) = Some dj
       \<and> expands (\<lambda>h. h \<noteq> []) dfs_pop goal_board di = Some k"
  proof -
    from that have t: "i < j"
      "after_turns (\<lambda>st. (\<lambda>h. h \<noteq> []) (fst st)) (search_body dfs_pop dfs_push goal_board) i
            ([initial], {}) = Some di"
      "after_turns (\<lambda>st. (\<lambda>h. h \<noteq> []) (fst st)) (search_body dfs_pop dfs_push goal_board) j
            ([initial], {}) = Some dj"
      "expands (\<lambda>h. h \<noteq> []) dfs_pop goal_board di = Some k"
      unfolding dfs_body_generic by simp_all
    from t(2,3,1,4) show ?thesis by (rule expands_once)
  qed
  show ?thesis
    by (rule conjI[OF impI[OF a] conjI[OF impI[OF d] conjI[OF impI[OF ra] impI[OF rd]]]])
qed

theorem visited_on_pop_expanded_once_witness:
  "expands (\<lambda>h. h \<noteq> []) dfs_pop ex_row_goal ([ex_row_state], {}) = Some (Board_str ex_row_board)
   \<and> (\<exists>dj. after_turns (\<lambda>st. fst st \<noteq> []) (dfs_body ex_row_goal) (Suc 0) ([ex_row_state], {}) = Some dj
          \<and> expands (\<lambda>h. h \<noteq> []) dfs_pop ex_row_goal dj \<noteq> Some (Board_str ex_row_board))"
proof -
  have e0: "expands (\<lambda>h. h \<noteq> []) dfs_pop ex_row_goal ([ex_row_state], {}) = Some (Board_str ex_row_board)"
    by code_simp
  have "after_turns (\<lambda>st. fst st \<noteq> []) (dfs_body ex_row_goal) (Suc 0) ([ex_row_state], {}) \<noteq> None"
    by code_simp
  then obtain dj where dj:
    "after_turns (\<lambda>st. fst st \<noteq> []) (dfs_body ex_row_goal) (Suc 0) ([ex_row_state], {}) = Some dj"
    by blast
  have d0: "after_turns (\<lambda>st. fst st \<noteq> []) (dfs_body ex_row_goal) 0 ([ex_row_state], {})
              = Some ([ex_row_state], {})"
    by simp
  have lt: "(0::nat) < Suc 0" by simp
  note t = visited_on_pop_expanded_once[where i = 0 and j = "Suc 0" and initial = ex_row_state
      and goal_board = ex_row_goal and di = "([ex_row_state], {})" and dj = dj
      and k = "Board_str ex_row_board"]
  from t[THEN conjunct2, THEN conjunct2, THEN conjunct2, THEN mp, OF conjI[OF lt conjI[OF d0 conjI[OF dj e0]]]]
  have "expands (\<lambda>h. h \<noteq> []) dfs_pop ex_row_goal dj \<noteq> Some (Board_str ex_row_board)" .
  with e0 dj show ?thesis by blast
qed

section \<open>Best-first search: successors and priorities\<close>

lemma set_heappush: "set (heappush h x) = insert x (set h)"
  using arg_cong[OF mset_heappush[of h x], of set_mset] by simp

lemma astar_push_eq:
  "astar_push visited t heap_lst =
     (if Board_str (board t) \<notin> visited
      then heappush heap_lst (depth t + hfn t, set_f t (depth t + hfn t)) else heap_lst)"
  by (simp add: astar_push_def Let_def set_f_def)

lemma astar_push_heap_ok: "astar_heap_ok h \<Longrightarrow> astar_heap_ok (astar_push v t h)"
  by (simp add: astar_push_eq astar_heap_ok_def heap_ok_heappush set_heappush set_f_def)

lemma fold_astar_push_heap_ok: "astar_heap_ok h \<Longrightarrow> astar_heap_ok (fold (astar_push v) ts h)"
  by (induction ts arbitrary: h) (simp_all add: astar_push_heap_ok)

lemma mset_fold_astar_push:
  "mset (fold (astar_push v) ts h) =
     mset h + mset (map (\<lambda>t. (depth t + hfn t, set_f t (depth t + hfn t)))
                     (filter (\<lambda>t. Board_str (board t) \<notin> v) ts))"
  by (induction ts arbitrary: h) (simp_all add: astar_push_eq mset_heappush)

lemma heappop_heap_ok:
  assumes "astar_heap_ok h" "h \<noteq> []" "heappop h = (x, h1)"
  shows "astar_heap_ok h1" "fst x = f_value (snd x)" "\<forall>it \<in> set h. fst x \<le> fst it"
proof -
  note m = heappop_props(1)[OF assms(2,3)]
  from assms(1) have ok: "heap_ok h" and f: "\<forall>it \<in> set h. fst it = f_value (snd it)"
    by (simp_all add: astar_heap_ok_def)
  from heappop_props(2)[OF assms(2,3) ok] have ok1: "heap_ok h1"
    and mn: "\<forall>it \<in> set h. fst x \<le> fst it" by simp_all
  from arg_cong[OF m, of set_mset] have s: "set h = insert x (set h1)" by simp
  with f ok1 show "astar_heap_ok h1" by (simp add: astar_heap_ok_def)
  from s f show "fst x = f_value (snd x)" by simp
  from mn show "\<forall>it \<in> set h. fst x \<le> fst it" .
qed

lemma astar_body_heap_ok:
  assumes "astar_heap_ok (fst st)" "fst st \<noteq> []" "astar_body goal_board st = Continue st'"
  shows "astar_heap_ok (fst st')"
proof -
  obtain h v where st: "st = (h, v)" by (cases st)
  obtain x h1 where p: "heappop h = (x, h1)" by (cases "heappop h")
  from heappop_heap_ok(1)[OF _ _ p] assms(1,2) st have ok1: "astar_heap_ok h1" by simp
  have ap: "astar_pop h = (snd x, h1)" using p by (simp add: astar_pop_def split: prod.splits)
  from ap show ?thesis
  proof (cases rule: search_body_cases[where visited = v and push = astar_push and goal_board = goal_board])
    case skip
    with assms(3) ok1 show ?thesis by (auto simp: astar_body_generic st)
  next
    case found
    with assms(3) show ?thesis by (simp add: astar_body_generic st)
  next
    case (raise e)
    with assms(3) show ?thesis by (simp add: astar_body_generic st)
  next
    case (expand ts)
    with assms(3) fold_astar_push_heap_ok[OF ok1] show ?thesis
      by (auto simp: astar_body_generic st)
  qed
qed

lemma astar_run_heap_ok:
  assumes "after_turns (\<lambda>st. fst st \<noteq> []) (astar_body goal_board) n
             (heappush [] (f_value initial, initial), {}) = Some st"
  shows "astar_heap_ok (fst st)"
proof (rule after_turns_invariant[where I = "\<lambda>st. astar_heap_ok (fst st)", OF assms])
  have "astar_heap_ok []" by (simp add: astar_heap_ok_def heap_ok_def)
  then show "astar_heap_ok (fst (heappush [] (f_value initial, initial), {}::string set))"
    by (simp add: astar_heap_ok_def heap_ok_heappush set_heappush)
  show "astar_heap_ok (fst st')"
    if "astar_heap_ok (fst st)" "fst st \<noteq> []" "astar_body goal_board st = Continue st'" for st st'
    using that by (rule astar_body_heap_ok)
qed



lemma successor_for_iff:
  "successor_for s p d = Inr t \<longleftrightarrow>
     (\<exists>gp b'. goal_lookup (board s) (uid p) = Inr gp
                 \<and> copy_board (board s) d (coord_x p, coord_y p) = Inr b'
                 \<and> t = State b'
                       ((hfn s - (\<bar>coord_x p - coord_x gp\<bar> + \<bar>coord_y p - coord_y gp\<bar>))
                          + (\<bar>fst d - coord_x gp\<bar> + \<bar>snd d - coord_y gp\<bar>))
                       (f_value s) (depth s + 1) (Some s))"
proof
  assume "successor_for s p d = Inr t"
  from successor_for_fields[OF this] show "(\<exists>gp b'. goal_lookup (board s) (uid p) = Inr gp
                 \<and> copy_board (board s) d (coord_x p, coord_y p) = Inr b'
                 \<and> t = State b'
                       ((hfn s - (\<bar>coord_x p - coord_x gp\<bar> + \<bar>coord_y p - coord_y gp\<bar>))
                          + (\<bar>fst d - coord_x gp\<bar> + \<bar>snd d - coord_y gp\<bar>))
                       (f_value s) (depth s + 1) (Some s))"
    by blast
next
  assume "(\<exists>gp b'. goal_lookup (board s) (uid p) = Inr gp
                 \<and> copy_board (board s) d (coord_x p, coord_y p) = Inr b'
                 \<and> t = State b'
                       ((hfn s - (\<bar>coord_x p - coord_x gp\<bar> + \<bar>coord_y p - coord_y gp\<bar>))
                          + (\<bar>fst d - coord_x gp\<bar> + \<bar>snd d - coord_y gp\<bar>))
                       (f_value s) (depth s + 1) (Some s))"
  then show "successor_for s p d = Inr t"
    by (auto simp: successor_for_def bind_err_def Let_def)
qed

lemma map_Inr_list_all2:
  "map F xs = map Inr ys \<longleftrightarrow> list_all2 (\<lambda>x y. F x = Inr y) xs ys"
proof (induction xs arbitrary: ys)
  case Nil
  then show ?case by auto
next
  case (Cons x xs)
  then show ?case by (cases ys) auto
qed

lemma piece_succ_rel_built:
  "piece_succ_rel s p ss \<longleftrightarrow>
     (\<exists>ks. piece_new_keys (board s) p = Inr ks
        \<and> list_all2 (\<lambda>d t. (\<exists>gp b'. goal_lookup (board s) (uid p) = Inr gp
                           \<and> copy_board (board s) d (coord_x p, coord_y p) = Inr b'
                           \<and> t = State b'
                                 ((hfn s - (\<bar>coord_x p - coord_x gp\<bar> + \<bar>coord_y p - coord_y gp\<bar>))
                                    + (\<bar>fst d - coord_x gp\<bar> + \<bar>snd d - coord_y gp\<bar>))
                                 (f_value s) (depth s + 1) (Some s))) ks ss)"
  unfolding piece_succ_rel_def map_Inr_list_all2 successor_for_iff ..

lemma generate_successors_built:
  "generate_successors s = Inr ts \<longleftrightarrow>
     (\<exists>sss. list_all2 (\<lambda>p ss. \<exists>ks. piece_new_keys (board s) p = Inr ks
                \<and> list_all2 (\<lambda>d t. (\<exists>gp b'. goal_lookup (board s) (uid p) = Inr gp
                           \<and> copy_board (board s) d (coord_x p, coord_y p) = Inr b'
                           \<and> t = State b'
                                 ((hfn s - (\<bar>coord_x p - coord_x gp\<bar> + \<bar>coord_y p - coord_y gp\<bar>))
                                    + (\<bar>fst d - coord_x gp\<bar> + \<bar>snd d - coord_y gp\<bar>))
                                 (f_value s) (depth s + 1) (Some s))) ks ss)
             (map snd (pieces (board s))) sss
        \<and> ts = concat sss)"
  unfolding generate_successors_iff piece_succ_rel_built ..

lemma successor_built:
  assumes "generate_successors s = Inr ts" "t \<in> set ts"
  shows "\<exists>k p ks d. (k, p) \<in> set (pieces (board s)) \<and> piece_new_keys (board s) p = Inr ks
           \<and> d \<in> set ks \<and> (\<exists>gp b'. goal_lookup (board s) (uid p) = Inr gp
                     \<and> copy_board (board s) d (coord_x p, coord_y p) = Inr b'
                     \<and> t = State b'
                           ((hfn s - (\<bar>coord_x p - coord_x gp\<bar> + \<bar>coord_y p - coord_y gp\<bar>))
                              + (\<bar>fst d - coord_x gp\<bar> + \<bar>snd d - coord_y gp\<bar>))
                           (f_value s) (depth s + 1) (Some s))"
proof -
  from generate_successors_elem[OF assms] obtain k p ks d where
    a: "(k, p) \<in> set (pieces (board s))" "piece_new_keys (board s) p = Inr ks" "d \<in> set ks"
    and sf: "successor_for s p d = Inr t" by blast
  from sf have "(\<exists>gp b'. goal_lookup (board s) (uid p) = Inr gp
                 \<and> copy_board (board s) d (coord_x p, coord_y p) = Inr b'
                 \<and> t = State b'
                       ((hfn s - (\<bar>coord_x p - coord_x gp\<bar> + \<bar>coord_y p - coord_y gp\<bar>))
                          + (\<bar>fst d - coord_x gp\<bar> + \<bar>snd d - coord_y gp\<bar>))
                       (f_value s) (depth s + 1) (Some s))"
    by (simp only: successor_for_iff)
  with a show ?thesis by blast
qed

text \<open>
  C9.  \<^verbatim>\<open>generate_successors\<close> returns exactly one state for every piece of the board, in
  dictionary order, and every destination the move generator gives for it, in order: the
  state whose board is the clone with that piece moved there, whose heuristic is the
  parent's minus the piece's old Manhattan distance to its goal piece plus the new one,
  whose depth is the parent's plus one, whose \<open>f\<close> is still the parent's and whose parent
  is the expanded state.  The push loop of \<^verbatim>\<open>astar\<close> sets \<open>f\<close> to depth plus heuristic and
  pushes the state under that priority, and only if its grid string is not in the visited
  set; after the loop the heap holds what it held and exactly these items.  \<^verbatim>\<open>astar\<close>
  returns, and its result comes from a run of turns of its loop body from the heap that
  holds the initial state; in every loop state of such a run, the item \<^verbatim>\<open>heappop\<close> returns
  has the least priority in the heap, and that priority is the popped state's \<open>f\<close>.
\<close>

theorem astar_successors_and_priority:
  "(generate_successors s = Inr ts \<and> t \<in> set ts \<longrightarrow>
      depth t = depth s + 1 \<and> parent t = Some s
      \<and> (\<exists>k p ks d. (k, p) \<in> set (pieces (board s)) \<and> piece_new_keys (board s) p = Inr ks
            \<and> d \<in> set ks \<and> (\<exists>gp b'. goal_lookup (board s) (uid p) = Inr gp
                      \<and> copy_board (board s) d (coord_x p, coord_y p) = Inr b'
                      \<and> t = State b'
                            ((hfn s - (\<bar>coord_x p - coord_x gp\<bar> + \<bar>coord_y p - coord_y gp\<bar>))
                               + (\<bar>fst d - coord_x gp\<bar> + \<bar>snd d - coord_y gp\<bar>))
                            (f_value s) (depth s + 1) (Some s))))
   \<and> (generate_successors s = Inr ts \<longleftrightarrow>
        (\<exists>sss. list_all2 (\<lambda>p ss. \<exists>ks. piece_new_keys (board s) p = Inr ks
                   \<and> list_all2 (\<lambda>d t. (\<exists>gp b'. goal_lookup (board s) (uid p) = Inr gp
                              \<and> copy_board (board s) d (coord_x p, coord_y p) = Inr b'
                              \<and> t = State b'
                                    ((hfn s - (\<bar>coord_x p - coord_x gp\<bar> + \<bar>coord_y p - coord_y gp\<bar>))
                                       + (\<bar>fst d - coord_x gp\<bar> + \<bar>snd d - coord_y gp\<bar>))
                                    (f_value s) (depth s + 1) (Some s))) ks ss)
                (map snd (pieces (board s))) sss
           \<and> ts = concat sss))
   \<and> astar_push visited t heap_lst =
       (if Board_str (board t) \<notin> visited
        then heappush heap_lst (depth t + hfn t, set_f t (depth t + hfn t)) else heap_lst)
   \<and> set_f t (depth t + hfn t) = State (board t) (hfn t) (depth t + hfn t) (depth t) (parent t)
   \<and> mset (fold (astar_push visited) ts heap_lst) =
       mset heap_lst + mset (map (\<lambda>t. (depth t + hfn t, set_f t (depth t + hfn t)))
                              (filter (\<lambda>t. Board_str (board t) \<notin> visited) ts))
   \<and> (\<exists>r. astar initial goal_board = Some r
         \<and> search_outcome (\<lambda>h. h \<noteq> []) astar_pop goal_board (astar_body goal_board)
              (heappush [] (f_value initial, initial), {}) r)
   \<and> (after_turns (\<lambda>st. fst st \<noteq> []) (astar_body goal_board) n
          (heappush [] (f_value initial, initial), {}) = Some (h, v)
        \<and> h \<noteq> [] \<and> heappop h = ((popped_f, node), h1) \<longrightarrow>
          popped_f = f_value node
          \<and> (\<forall>it \<in> set h. popped_f \<le> fst it \<and> fst it = f_value (snd it))
          \<and> mset h = add_mset (popped_f, node) (mset h1))"
proof -
  have 1: "depth t = depth s + 1 \<and> parent t = Some s
      \<and> (\<exists>k p ks d. (k, p) \<in> set (pieces (board s)) \<and> piece_new_keys (board s) p = Inr ks
            \<and> d \<in> set ks \<and> (\<exists>gp b'. goal_lookup (board s) (uid p) = Inr gp
                      \<and> copy_board (board s) d (coord_x p, coord_y p) = Inr b'
                      \<and> t = State b'
                            ((hfn s - (\<bar>coord_x p - coord_x gp\<bar> + \<bar>coord_y p - coord_y gp\<bar>))
                               + (\<bar>fst d - coord_x gp\<bar> + \<bar>snd d - coord_y gp\<bar>))
                            (f_value s) (depth s + 1) (Some s)))"
    if a: "generate_successors s = Inr ts \<and> t \<in> set ts"
  proof -
    from a have g: "generate_successors s = Inr ts" and m: "t \<in> set ts" by simp_all
    note b = successor_built[OF g m]
    from b have "depth t = depth s + 1" "parent t = Some s" by auto
    with b show ?thesis by (intro conjI)
  qed
  have 2: "set_f t (depth t + hfn t) = State (board t) (hfn t) (depth t + hfn t) (depth t) (parent t)"
    by (simp add: set_f_def)
  have "\<exists>r. while_frontier (\<lambda>st. (\<lambda>h. h \<noteq> []) (fst st)) (search_body astar_pop astar_push goal_board)
              (heappush [] (f_value initial, initial), {}) = Some r
           \<and> search_outcome (\<lambda>h. h \<noteq> []) astar_pop goal_board
                (search_body astar_pop astar_push goal_board)
                (heappush [] (f_value initial, initial), {}) r"
    by (rule search_ends(1)[where sts = astar_states and initial = initial])
       (rule astar_pop_states, assumption+, rule astar_push_states, rule astar_root_states)
  then have 6: "\<exists>r. astar initial goal_board = Some r
         \<and> search_outcome (\<lambda>h. h \<noteq> []) astar_pop goal_board (astar_body goal_board)
              (heappush [] (f_value initial, initial), {}) r"
    unfolding astar_unfold astar_body_generic .
  have 3: "popped_f = f_value node
          \<and> (\<forall>it \<in> set h. popped_f \<le> fst it \<and> fst it = f_value (snd it))
          \<and> mset h = add_mset (popped_f, node) (mset h1)"
    if a: "after_turns (\<lambda>st. fst st \<noteq> []) (astar_body goal_board) n
          (heappush [] (f_value initial, initial), {}) = Some (h, v)
        \<and> h \<noteq> [] \<and> heappop h = ((popped_f, node), h1)"
  proof -
    from a astar_run_heap_ok[of goal_board n initial "(h, v)"] have ok: "astar_heap_ok h" by simp
    from a have ne: "h \<noteq> []" and p: "heappop h = ((popped_f, node), h1)" by simp_all
    from heappop_heap_ok(2,3)[OF ok ne p] heappop_props(1)[OF ne p] ok
    show ?thesis by (simp add: astar_heap_ok_def)
  qed
  show ?thesis
    by (rule conjI[OF impI[OF 1] conjI[OF generate_successors_built conjI[OF astar_push_eq
          conjI[OF 2 conjI[OF mset_fold_astar_push conjI[OF 6 impI[OF 3]]]]]]])
qed

theorem astar_successors_and_priority_witness:
  "\<exists>ts h v node h1 k p ks d gp b'.
     generate_successors ex_state = Inr ts \<and> length ts = 3
     \<and> depth (hd ts) = 1 \<and> hfn (hd ts) = 2 \<and> parent (hd ts) = Some ex_state
     \<and> (k, p) \<in> set (pieces (board ex_state)) \<and> piece_new_keys (board ex_state) p = Inr ks
     \<and> d \<in> set ks \<and> goal_lookup (board ex_state) (uid p) = Inr gp
     \<and> copy_board (board ex_state) d (coord_x p, coord_y p) = Inr b'
     \<and> hd ts = State b'
                  ((hfn ex_state - (\<bar>coord_x p - coord_x gp\<bar> + \<bar>coord_y p - coord_y gp\<bar>))
                     + (\<bar>fst d - coord_x gp\<bar> + \<bar>snd d - coord_y gp\<bar>))
                  (f_value ex_state) (depth ex_state + 1) (Some ex_state)
     \<and> after_turns (\<lambda>st. fst st \<noteq> []) (astar_body ex_goal_board) (Suc 0)
          (heappush [] (f_value ex_state, ex_state), {}) = Some (h, v)
     \<and> length h = 3 \<and> heappop h = ((3, node), h1) \<and> f_value node = 3 \<and> f_value (snd (last h)) = 3"
proof -
  have "case generate_successors ex_state of Inl e \<Rightarrow> False
        | Inr ts \<Rightarrow> length ts = 3 \<and> hfn (hd ts) = 2"
    by code_simp
  then obtain ts where ts: "generate_successors ex_state = Inr ts" "length ts = 3" "hfn (hd ts) = 2"
    by (cases "generate_successors ex_state") auto
  then have m: "hd ts \<in> set ts" by (cases ts) auto
  have "case after_turns (\<lambda>st. fst st \<noteq> []) (astar_body ex_goal_board) (Suc 0)
          (heappush [] (f_value ex_state, ex_state), {}) of
          None \<Rightarrow> False
        | Some st \<Rightarrow> length (fst st) = 3 \<and> fst (fst (heappop (fst st))) = 3"
    by code_simp
  then obtain h v where hv: "after_turns (\<lambda>st. fst st \<noteq> []) (astar_body ex_goal_board) (Suc 0)
          (heappush [] (f_value ex_state, ex_state), {}) = Some (h, v)"
    "length h = 3" "fst (fst (heappop h)) = 3"
    by (auto split: option.splits)
  obtain pf node h1 where p: "heappop h = ((pf, node), h1)"
    by (cases "heappop h") auto
  with hv(3) have pf: "pf = 3" by simp
  from hv(2) have ne: "h \<noteq> []" by auto
  then have l: "last h \<in> set h" by simp
  note t = astar_successors_and_priority[where s = ex_state and ts = ts and t = "hd ts"
      and goal_board = ex_goal_board and n = "Suc 0" and initial = ex_state and h = h and v = v
      and popped_f = pf and node = node and ?h1.0 = h1 and visited = "{}" and heap_lst = "[]"]
  note c1 = t[THEN conjunct1, THEN mp, OF conjI[OF ts(1) m]]
  from c1 have s1: "depth (hd ts) = depth ex_state + 1" "parent (hd ts) = Some ex_state"
    by (rule conjunct1, rule conjunct2[THEN conjunct1])
  from c1[THEN conjunct2, THEN conjunct2] obtain k q ks d gp b' where
    b: "(k, q) \<in> set (pieces (board ex_state))" "piece_new_keys (board ex_state) q = Inr ks"
      "d \<in> set ks" "goal_lookup (board ex_state) (uid q) = Inr gp"
      "copy_board (board ex_state) d (coord_x q, coord_y q) = Inr b'"
      "hd ts = State b'
                  ((hfn ex_state - (\<bar>coord_x q - coord_x gp\<bar> + \<bar>coord_y q - coord_y gp\<bar>))
                     + (\<bar>fst d - coord_x gp\<bar> + \<bar>snd d - coord_y gp\<bar>))
                  (f_value ex_state) (depth ex_state + 1) (Some ex_state)"
    by blast
  from t[THEN conjunct2, THEN conjunct2, THEN conjunct2, THEN conjunct2, THEN conjunct2,
      THEN conjunct2, THEN mp, OF conjI[OF hv(1) conjI[OF ne p]]]
  have s2: "pf = f_value node" "\<forall>it \<in> set h. pf \<le> fst it \<and> fst it = f_value (snd it)"
    by blast+
  have "3 \<le> f_value (snd (last h))" using s2(2) l pf by auto
  moreover have "f_value (snd (last h)) \<le> 3"
  proof -
    have "case after_turns (\<lambda>st. fst st \<noteq> []) (astar_body ex_goal_board) (Suc 0)
          (heappush [] (f_value ex_state, ex_state), {}) of
          None \<Rightarrow> False
        | Some st \<Rightarrow> f_value (snd (last (fst st))) \<le> 3"
      by code_simp
    with hv(1) show ?thesis by simp
  qed
  ultimately have fl: "f_value (snd (last h)) = 3" by simp
  have d1: "depth (hd ts) = 1" using s1(1) by (simp add: ex_state_def)
  have pn: "heappop h = ((3, node), h1)" using p pf by simp
  have fn: "f_value node = 3" using s2(1) pf by simp
  show ?thesis
    by (intro exI[of _ ts] exI[of _ h] exI[of _ v] exI[of _ node] exI[of _ h1] exI[of _ k]
          exI[of _ q] exI[of _ ks] exI[of _ d] exI[of _ gp] exI[of _ b'] conjI)
       (rule ts d1 s1(2) b hv(1,2) pn fn fl)+
qed

section \<open>The loader: matching and the goal dictionary\<close>

lemma find_min_index_fold:
  assumes "n \<le> length arr"
  shows "case fold (\<lambda>i (min_i, min_dist).
                  let piece = arr ! i;
                      new_dist = \<bar>x - coord_x piece\<bar> + \<bar>y - coord_y piece\<bar>
                  in if (case min_dist of None \<Rightarrow> True | Some m \<Rightarrow> new_dist < m)
                     then (i, Some new_dist) else (min_i, min_dist))
            [0 ..< n] (0, None) of
           (i, d) \<Rightarrow>
             (if n = 0 then i = 0 \<and> d = None
              else i < n \<and> d = Some (manhattan x y (arr ! i))
                   \<and> (\<forall>j < n. manhattan x y (arr ! i) \<le> manhattan x y (arr ! j))
                   \<and> (\<forall>j < i. manhattan x y (arr ! i) < manhattan x y (arr ! j)))"
  using assms
proof (induction n)
  case 0
  then show ?case by simp
next
  case (Suc n)
  let ?F = "\<lambda>i (min_i, min_dist).
                  let piece = arr ! i;
                      new_dist = \<bar>x - coord_x piece\<bar> + \<bar>y - coord_y piece\<bar>
                  in if (case min_dist of None \<Rightarrow> True | Some m \<Rightarrow> new_dist < m)
                     then (i, Some new_dist) else (min_i, min_dist)"
  obtain i d where r: "fold ?F [0 ..< n] (0, None) = (i, d)" by (cases "fold ?F [0 ..< n] (0, None)")
  from Suc r have ih: "if n = 0 then i = 0 \<and> d = None
              else i < n \<and> d = Some (manhattan x y (arr ! i))
                   \<and> (\<forall>j < n. manhattan x y (arr ! i) \<le> manhattan x y (arr ! j))
                   \<and> (\<forall>j < i. manhattan x y (arr ! i) < manhattan x y (arr ! j))" by simp
  have step: "fold ?F [0 ..< Suc n] (0, None) = ?F n (i, d)" using r by simp
  show ?case
  proof (cases "n = 0")
    case True
    with ih step show ?thesis by (simp add: manhattan_def Let_def)
  next
    case False
    with ih have i: "i < n" and d: "d = Some (manhattan x y (arr ! i))"
      and le: "\<forall>j < n. manhattan x y (arr ! i) \<le> manhattan x y (arr ! j)"
      and lt: "\<forall>j < i. manhattan x y (arr ! i) < manhattan x y (arr ! j)" by simp_all
    show ?thesis
    proof (cases "manhattan x y (arr ! n) < manhattan x y (arr ! i)")
      case True
      then have s: "?F n (i, d) = (n, Some (manhattan x y (arr ! n)))"
        using d by (simp add: manhattan_def Let_def)
      have "\<forall>j < Suc n. manhattan x y (arr ! n) \<le> manhattan x y (arr ! j)"
        using le True by (auto simp: less_Suc_eq)
      moreover have "\<forall>j < n. manhattan x y (arr ! n) < manhattan x y (arr ! j)"
        using le True by force
      ultimately show ?thesis unfolding step s by simp
    next
      case False
      then have s: "?F n (i, d) = (i, d)"
        using d by (simp add: manhattan_def Let_def)
      have "\<forall>j < Suc n. manhattan x y (arr ! i) \<le> manhattan x y (arr ! j)"
        using le False by (auto simp: less_Suc_eq)
      then show ?thesis unfolding step s using i d lt by simp
    qed
  qed
qed

lemma find_min_index_first_argmin:
  assumes "arr \<noteq> []"
  shows "find_min_index arr x y < length arr"
    and "\<forall>j < length arr. manhattan x y (arr ! find_min_index arr x y) \<le> manhattan x y (arr ! j)"
    and "\<forall>j < find_min_index arr x y.
           manhattan x y (arr ! find_min_index arr x y) < manhattan x y (arr ! j)"
  using find_min_index_fold[of "length arr" arr x y] assms
  by (auto simp: find_min_index_def split: prod.splits)

lemma find_min_index_Nil: "find_min_index [] x y = 0"
  by (simp add: find_min_index_def)

lemma remove_nth_filter:
  assumes "distinct (map f xs)" "i < length xs"
  shows "filter (\<lambda>p. f p \<noteq> f (xs ! i)) xs = remove_nth i xs"
proof -
  have xs: "xs = take i xs @ xs ! i # drop (Suc i) xs" using assms(2) by (rule id_take_nth_drop)
  have d: "distinct (map f (take i xs @ xs ! i # drop (Suc i) xs))" using assms(1) xs by simp
  then have a: "\<forall>p \<in> set (take i xs). f p \<noteq> f (xs ! i)"
    and b: "\<forall>p \<in> set (drop (Suc i) xs). f p \<noteq> f (xs ! i)" by (auto simp: image_iff)
  have "filter (\<lambda>p. f p \<noteq> f (xs ! i)) (take i xs @ xs ! i # drop (Suc i) xs)
          = take i xs @ drop (Suc i) xs"
    using a b by (simp add: filter_id_conv)
  with xs show ?thesis by (simp add: remove_nth_def)
qed

lemma match_piece_eq:
  assumes "pool \<noteq> []"
  shows "match_piece pool x y =
           Inr (uid (pool ! find_min_index pool x y), remove_nth (find_min_index pool x y) pool)"
  using find_min_index_first_argmin(1)[OF assms, of x y]
  by (simp add: match_piece_def list_pop_def bind_err_def remove_nth_def)

lemma match_piece_Nil: "match_piece [] x y = Inl IndexError"
  by (simp add: match_piece_def list_pop_def bind_err_def)

lemma loader_inv_init: "loader_inv 0 loader_init"
  by (simp add: loader_inv_def loader_init_def candidates_def)

lemma symbol_shapes:
  "symbol_shape ` piece_symbols =
     {(False, False, Some ''v''), (False, False, Some ''h''), (False, True, None), (True, False, None)}"
  by (auto simp: piece_symbols_def symbol_shape_def char_single_def)

lemma new_key_fresh:
  "list_all (\<lambda>kp. snd (fst kp) < y \<or> (snd (fst kp) = y \<and> fst (fst kp) < c)) ps
     \<Longrightarrow> (c, y) \<notin> fst ` set ps" for c y :: int
  by (force simp: list_all_iff)

lemma initial_piece_inv:
  assumes inv: "loader_inv c st" and nf: "\<not> l_final st"
    and sh: "(b2, s, orient) \<in> {(False, False, Some ''v''), (False, False, Some ''h''),
                               (False, True, None), (True, False, None)}"
    and b2: "b2 \<Longrightarrow> \<not> l_found_2by2 st"
    and p: "piece = Piece_init b2 s c (l_line_index st) orient (l_next_uid st)"
    and ps: "l_pieces st' = dict_set (l_pieces st) (c, l_line_index st) piece"
    and nx: "l_next_uid st' = Suc (l_next_uid st)"
    and v: "l_vert st' = l_vert st @ (if (b2, s, orient) = symbol_shape (CHR ''^'') then [piece] else [])"
    and h: "l_hori st' = l_hori st @ (if (b2, s, orient) = symbol_shape (CHR ''<'') then [piece] else [])"
    and si: "l_singles st' = l_singles st @ (if (b2, s, orient) = symbol_shape char_single then [piece] else [])"
    and d: "l_double st' = (if b2 then Some piece else l_double st)"
    and f: "l_found_2by2 st' = (b2 \<or> l_found_2by2 st)"
    and rest: "l_final st' = l_final st" "l_line_index st' = l_line_index st"
      "l_goal_board_dict st' = l_goal_board_dict st" "l_finalfound_2by2 st' = l_finalfound_2by2 st"
  shows "loader_inv (c + 1) st'"
proof -
  from inv nf have keys: "list_all (\<lambda>kp. snd (fst kp) < l_line_index st
                              \<or> (snd (fst kp) = l_line_index st \<and> fst (fst kp) < c)) (l_pieces st)"
    and gd: "l_goal_board_dict st = []" and nff: "\<not> l_finalfound_2by2 st"
    by (simp_all add: loader_inv_def)
  from inv have dist: "distinct (map (\<lambda>kp. uid (snd kp)) (l_pieces st))"
    and below: "list_all (\<lambda>kp. uid (snd kp) < l_next_uid st
                       \<and> shape_of (snd kp) \<in> symbol_shape ` piece_symbols) (l_pieces st)"
    and pv: "l_vert st = candidates st (symbol_shape (CHR ''^''))"
    and ph: "l_hori st = candidates st (symbol_shape (CHR ''<''))"
    and psi: "l_singles st = candidates st (symbol_shape char_single)"
    and dbl: "filter is_2_by_2 (map snd (l_pieces st)) = (case l_double st of None \<Rightarrow> [] | Some d \<Rightarrow> [d])"
    and fnd: "l_found_2by2 st = (l_double st \<noteq> None)"
    by (simp_all add: loader_inv_def)
  have ps': "l_pieces st' = l_pieces st @ [((c, l_line_index st), piece)]"
    unfolding ps using new_key_fresh[OF keys] by (rule dict_set_fresh)
  have shp: "shape_of piece = (b2, s, orient)" and up: "uid piece = l_next_uid st"
    and b2p: "is_2_by_2 piece = b2"
    by (simp_all add: p shape_of_def Piece_init_def)
  have cand: "candidates st' sh = candidates st sh @ (if (b2, s, orient) = sh then [piece] else [])" for sh
    by (simp add: candidates_def ps' rest gd shp)
  have 1: "distinct (map (\<lambda>kp. uid (snd kp)) (l_pieces st'))"
    using dist below by (auto simp: ps' up list_all_iff)
  have 2: "list_all (\<lambda>kp. uid (snd kp) < l_next_uid st'
                       \<and> shape_of (snd kp) \<in> symbol_shape ` piece_symbols) (l_pieces st')"
    using below sh unfolding symbol_shapes by (auto simp: ps' nx up shp list_all_iff)
  have 3: "list_all (\<lambda>kp. snd (fst kp) < l_line_index st'
                              \<or> (snd (fst kp) = l_line_index st' \<and> fst (fst kp) < c + 1)) (l_pieces st')"
    using keys by (auto simp: ps' rest list_all_iff)
  have 4: "filter is_2_by_2 (map snd (l_pieces st')) = (case l_double st' of None \<Rightarrow> [] | Some d \<Rightarrow> [d])"
  proof (cases b2)
    case True
    with b2 fnd have "l_double st = None" by simp
    with dbl True show ?thesis by (simp add: ps' d b2p)
  next
    case False
    with dbl show ?thesis by (simp add: ps' d b2p)
  qed
  have 5: "l_found_2by2 st' = (l_double st' \<noteq> None)" using fnd by (simp add: f d)
  have 6: "l_finalfound_2by2 st' = (\<exists>d. l_double st' = Some d \<and> uid d \<in> fst ` set (l_goal_board_dict st'))"
    using nff gd by (simp add: rest)
  show ?thesis
    unfolding loader_inv_def
    using 1 2 3 4 5 6 nff gd by (simp add: rest cand v h si pv ph psi)
qed

lemma loader_inv_mono:
  assumes "loader_inv c st" "c \<le> c'"
  shows "loader_inv c' st"
proof -
  have "list_all (\<lambda>kp. snd (fst kp) < l_line_index st
              \<or> (snd (fst kp) = l_line_index st \<and> fst (fst kp) < c')) (l_pieces st)"
    if "list_all (\<lambda>kp. snd (fst kp) < l_line_index st
              \<or> (snd (fst kp) = l_line_index st \<and> fst (fst kp) < c)) (l_pieces st)"
    using that assms(2) by (auto simp: list_all_iff)
  with assms(1) show ?thesis unfolding loader_inv_def by blast
qed

lemma initial_char_inv:
  assumes inv: "loader_inv c st" and nf: "\<not> l_final st" and r: "initial_char (c, ch) st = Inr st'"
  shows "loader_inv (c + 1) st' \<and> \<not> l_final st' \<and> l_line_index st' = l_line_index st"
proof -
  have same: "loader_inv (c + 1) st" using inv by (rule loader_inv_mono) simp
  consider (v) "ch = CHR ''^''" | (h) "ch = CHR ''<''" | (s) "ch = char_single"
    | (b) "ch = CHR ''1''" "\<not> l_found_2by2 st" | (b') "ch = CHR ''1''" "l_found_2by2 st"
    | (o) "ch \<notin> piece_symbols"
    by (auto simp: piece_symbols_def)
  then show ?thesis
  proof cases
    case v
    with r have st': "st' = st\<lparr>l_next_uid := Suc (l_next_uid st),
        l_pieces := dict_set (l_pieces st) (c, l_line_index st)
                      (Piece_init False False c (l_line_index st) (Some ''v'') (l_next_uid st)),
        l_vert := l_vert st @ [Piece_init False False c (l_line_index st) (Some ''v'') (l_next_uid st)]\<rparr>"
      by (simp add: initial_char_def new_piece_def Let_def)
    have "loader_inv (c + 1) st'"
      by (rule initial_piece_inv[OF inv nf, where ?b2.0 = False and s = False and orient = "Some ''v''"])
         (simp_all add: st' symbol_shape_def char_single_def)
    with nf show ?thesis by (simp add: st')
  next
    case h
    with r have st': "st' = st\<lparr>l_next_uid := Suc (l_next_uid st),
        l_pieces := dict_set (l_pieces st) (c, l_line_index st)
                      (Piece_init False False c (l_line_index st) (Some ''h'') (l_next_uid st)),
        l_hori := l_hori st @ [Piece_init False False c (l_line_index st) (Some ''h'') (l_next_uid st)]\<rparr>"
      by (simp add: initial_char_def new_piece_def Let_def)
    have "loader_inv (c + 1) st'"
      by (rule initial_piece_inv[OF inv nf, where ?b2.0 = False and s = False and orient = "Some ''h''"])
         (simp_all add: st' symbol_shape_def char_single_def)
    with nf show ?thesis by (simp add: st')
  next
    case s
    with r have st': "st' = st\<lparr>l_next_uid := Suc (l_next_uid st),
        l_pieces := dict_set (l_pieces st) (c, l_line_index st)
                      (Piece_init False True c (l_line_index st) None (l_next_uid st)),
        l_singles := l_singles st @ [Piece_init False True c (l_line_index st) None (l_next_uid st)]\<rparr>"
      by (simp add: initial_char_def new_piece_def Let_def char_single_def)
    have "loader_inv (c + 1) st'"
      by (rule initial_piece_inv[OF inv nf, where ?b2.0 = False and s = True and orient = None])
         (simp_all add: st' symbol_shape_def char_single_def)
    with nf show ?thesis by (simp add: st')
  next
    case b
    with r have st': "st' = st\<lparr>l_next_uid := Suc (l_next_uid st),
        l_pieces := dict_set (l_pieces st) (c, l_line_index st)
                      (Piece_init True False c (l_line_index st) None (l_next_uid st)),
        l_double := Some (Piece_init True False c (l_line_index st) None (l_next_uid st)),
        l_found_2by2 := True\<rparr>"
      by (simp add: initial_char_def new_piece_def Let_def char_single_def)
    have "loader_inv (c + 1) st'"
      by (rule initial_piece_inv[OF inv nf, where ?b2.0 = True and s = False and orient = None])
         (simp_all add: st' symbol_shape_def char_single_def b)
    with nf show ?thesis by (simp add: st')
  next
    case b'
    with r have "st' = st" by (simp add: initial_char_def char_single_def)
    with same nf show ?thesis by simp
  next
    case o
    with r have "st' = st" by (auto simp: initial_char_def piece_symbols_def)
    with same nf show ?thesis by simp
  qed
qed

lemma dict_set_keys: "fst ` set (dict_set d k v) = insert k (fst ` set d)"
  using arg_cong[OF map_of_dict_set[of d k v], of dom] by (simp add: dom_map_of_conv_image_fst)

lemma loader_uid_inj:
  assumes "loader_inv c st" "p \<in> snd ` set (l_pieces st)" "q \<in> snd ` set (l_pieces st)"
    "uid p = uid q"
  shows "p = q"
proof -
  from assms(1) have "inj_on (\<lambda>kp. uid (snd kp)) (set (l_pieces st))"
    by (simp add: loader_inv_def distinct_map)
  with assms(2-4) show ?thesis by (auto simp: inj_on_def)
qed

lemma candidates_subset: "set (candidates st sh) \<subseteq> snd ` set (l_pieces st)"
  by (auto simp: candidates_def)

lemma candidates_shape: "p \<in> set (candidates st sh) \<Longrightarrow> shape_of p = sh"
  by (simp add: candidates_def)

lemma candidates_unmatched:
  "p \<in> set (candidates st sh) \<Longrightarrow> uid p \<notin> fst ` set (l_goal_board_dict st)"
  by (simp add: candidates_def)

lemma candidates_distinct:
  assumes "loader_inv c st"
  shows "distinct (map uid (candidates st sh))"
proof -
  from assms have "distinct (map uid (map snd (l_pieces st)))"
    by (simp add: loader_inv_def comp_def)
  then show ?thesis unfolding candidates_def by (rule distinct_map_filter)
qed

lemma candidates_remove:
  assumes "loader_inv c st" "i < length (candidates st sh)"
  shows "filter (\<lambda>q. uid q \<noteq> uid (candidates st sh ! i)) (candidates st sh)
           = remove_nth i (candidates st sh)"
  using candidates_distinct[OF assms(1)] assms(2) by (rule remove_nth_filter)

lemma candidates_other_shape:
  assumes inv: "loader_inv c st" and p: "p \<in> snd ` set (l_pieces st)" and sh: "shape_of p \<noteq> sh"
  shows "filter (\<lambda>q. uid q \<noteq> uid p) (candidates st sh) = candidates st sh"
proof -
  have "uid q \<noteq> uid p" if q: "q \<in> set (candidates st sh)" for q
  proof
    assume "uid q = uid p"
    with loader_uid_inj[OF inv _ p, of q] q candidates_subset[of st sh] have "q = p" by auto
    with candidates_shape[OF q] sh show False by simp
  qed
  then show ?thesis by (simp add: filter_id_conv)
qed

lemma candidates_matched:
  assumes "l_pieces st' = l_pieces st"
    and "l_goal_board_dict st' = dict_set (l_goal_board_dict st) u g"
  shows "candidates st' sh = filter (\<lambda>q. uid q \<noteq> u) (candidates st sh)"
  unfolding candidates_def assms dict_set_keys filter_filter
  by (rule filter_cong[OF refl]) auto

lemma block_shape:
  assumes "loader_inv c st" "p \<in> snd ` set (l_pieces st)"
  shows "is_2_by_2 p \<longleftrightarrow> shape_of p = symbol_shape (CHR ''1'')"
proof -
  from assms have "shape_of p \<in> symbol_shape ` piece_symbols"
    by (auto simp: loader_inv_def list_all_iff)
  then show ?thesis unfolding symbol_shapes
    by (auto simp: shape_of_def symbol_shape_def char_single_def)
qed

lemma loader_double:
  assumes "loader_inv c st"
  shows "candidates st (symbol_shape (CHR ''1'')) =
           (case l_double st of
              None \<Rightarrow> []
            | Some d \<Rightarrow> if l_finalfound_2by2 st then [] else [d])"
proof -
  have "candidates st (symbol_shape (CHR ''1'')) =
          filter (\<lambda>p. uid p \<notin> fst ` set (l_goal_board_dict st))
            (filter is_2_by_2 (map snd (l_pieces st)))"
  proof -
    have "(shape_of p = symbol_shape (CHR ''1'') \<and> uid p \<notin> fst ` set (l_goal_board_dict st))
            = (is_2_by_2 p \<and> uid p \<notin> fst ` set (l_goal_board_dict st))"
      if "p \<in> set (map snd (l_pieces st))" for p
      using block_shape[OF assms, of p] that by simp
    then show ?thesis
      unfolding candidates_def filter_filter by (rule filter_cong[OF refl])
  qed
  also have "filter is_2_by_2 (map snd (l_pieces st)) = (case l_double st of None \<Rightarrow> [] | Some d \<Rightarrow> [d])"
    using assms unfolding loader_inv_def by (elim conjE)
  finally have c: "candidates st (symbol_shape (CHR ''1'')) =
          filter (\<lambda>p. uid p \<notin> fst ` set (l_goal_board_dict st))
            (case l_double st of None \<Rightarrow> [] | Some d \<Rightarrow> [d])" .
  from assms have "l_finalfound_2by2 st =
      (\<exists>d. l_double st = Some d \<and> uid d \<in> fst ` set (l_goal_board_dict st))"
    by (simp add: loader_inv_def)
  with c show ?thesis by (cases "l_double st") simp_all
qed

lemma match_inv:
  assumes inv: "loader_inv c st" and fin: "l_final st"
    and p: "p \<in> snd ` set (l_pieces st)"
    and gd: "l_goal_board_dict st' = dict_set (l_goal_board_dict st) (uid p) g"
    and ps: "l_pieces st' = l_pieces st"
    and v: "l_vert st' = filter (\<lambda>q. uid q \<noteq> uid p) (l_vert st)"
    and h: "l_hori st' = filter (\<lambda>q. uid q \<noteq> uid p) (l_hori st)"
    and s: "l_singles st' = filter (\<lambda>q. uid q \<noteq> uid p) (l_singles st)"
    and ff: "l_finalfound_2by2 st' = (l_finalfound_2by2 st \<or> is_2_by_2 p)"
    and rest: "l_next_uid st' = l_next_uid st" "l_final st' = l_final st"
      "l_double st' = l_double st" "l_found_2by2 st' = l_found_2by2 st"
  shows "loader_inv c st'"
proof -
  note c = candidates_matched[OF ps gd]
  from inv have pv: "l_vert st = candidates st (symbol_shape (CHR ''^''))"
    and ph: "l_hori st = candidates st (symbol_shape (CHR ''<''))"
    and psi: "l_singles st = candidates st (symbol_shape char_single)"
    and dbl: "filter is_2_by_2 (map snd (l_pieces st)) = (case l_double st of None \<Rightarrow> [] | Some d \<Rightarrow> [d])"
    and fnd: "l_found_2by2 st = (l_double st \<noteq> None)"
    and ffd: "l_finalfound_2by2 st = (\<exists>d. l_double st = Some d \<and> uid d \<in> fst ` set (l_goal_board_dict st))"
    and dist: "distinct (map (\<lambda>kp. uid (snd kp)) (l_pieces st))"
    and below: "list_all (\<lambda>kp. uid (snd kp) < l_next_uid st
                       \<and> shape_of (snd kp) \<in> symbol_shape ` piece_symbols) (l_pieces st)"
    by (simp_all add: loader_inv_def)
  have 6: "l_finalfound_2by2 st' = (\<exists>d. l_double st' = Some d \<and> uid d \<in> fst ` set (l_goal_board_dict st'))"
  proof (cases "is_2_by_2 p")
    case True
    with p have "p \<in> set (filter is_2_by_2 (map snd (l_pieces st)))" by auto
    with dbl have "l_double st = Some p" by (auto split: option.splits)
    with True show ?thesis by (simp add: ff rest gd dict_set_keys)
  next
    case False
    have "uid d \<noteq> uid p" if d: "l_double st = Some d" for d
    proof
      assume e: "uid d = uid p"
      from d dbl have "d \<in> set (filter is_2_by_2 (map snd (l_pieces st)))" by simp
      then have dd: "d \<in> snd ` set (l_pieces st)" "is_2_by_2 d" by auto
      from loader_uid_inj[OF inv dd(1) p e] dd(2) False show False by simp
    qed
    with False ffd show ?thesis by (auto simp: ff rest gd dict_set_keys)
  qed
  show ?thesis
    unfolding loader_inv_def
    using dist below dbl fnd 6 fin by (simp add: ps rest c v h s pv ph psi)
qed

lemma symbol_shape_distinct:
  "symbol_shape (CHR ''^'') \<noteq> symbol_shape (CHR ''<'')"
  "symbol_shape (CHR ''^'') \<noteq> symbol_shape char_single"
  "symbol_shape (CHR ''^'') \<noteq> symbol_shape (CHR ''1'')"
  "symbol_shape (CHR ''<'') \<noteq> symbol_shape char_single"
  "symbol_shape (CHR ''<'') \<noteq> symbol_shape (CHR ''1'')"
  "symbol_shape char_single \<noteq> symbol_shape (CHR ''1'')"
  by (simp_all add: symbol_shape_def char_single_def)

lemma loader_inv_pools:
  assumes "loader_inv c st"
  shows "l_vert st = candidates st (symbol_shape (CHR ''^''))"
    and "l_hori st = candidates st (symbol_shape (CHR ''<''))"
    and "l_singles st = candidates st (symbol_shape char_single)"
  using assms by (simp_all add: loader_inv_def)

lemma match_step:
  assumes inv: "loader_inv c st" and fin: "l_final st"
    and i: "i < length (candidates st sh)"
    and gd: "l_goal_board_dict st' = dict_set (l_goal_board_dict st) (uid (candidates st sh ! i)) g"
    and ps: "l_pieces st' = l_pieces st"
    and v: "l_vert st' = (if sh = symbol_shape (CHR ''^'') then remove_nth i (l_vert st) else l_vert st)"
    and h: "l_hori st' = (if sh = symbol_shape (CHR ''<'') then remove_nth i (l_hori st) else l_hori st)"
    and s: "l_singles st' = (if sh = symbol_shape char_single then remove_nth i (l_singles st) else l_singles st)"
    and ff: "l_finalfound_2by2 st' = (l_finalfound_2by2 st \<or> sh = symbol_shape (CHR ''1''))"
    and rest: "l_next_uid st' = l_next_uid st" "l_final st' = l_final st"
      "l_double st' = l_double st" "l_found_2by2 st' = l_found_2by2 st"
  shows "loader_inv c st'"
    and "candidates st' sh' = (if sh' = sh then remove_nth i (candidates st sh) else candidates st sh')"
proof -
  let ?p = "candidates st sh ! i"
  from i have pc: "?p \<in> set (candidates st sh)" by simp
  with candidates_subset have p: "?p \<in> snd ` set (l_pieces st)" by blast
  note shp = candidates_shape[OF pc]
  note pv = loader_inv_pools(1)[OF inv] and ph = loader_inv_pools(2)[OF inv]
    and psi = loader_inv_pools(3)[OF inv]
  have f: "filter (\<lambda>q. uid q \<noteq> uid ?p) (candidates st sh') =
             (if sh' = sh then remove_nth i (candidates st sh) else candidates st sh')" for sh'
    using candidates_remove[OF inv i] candidates_other_shape[OF inv p, of sh'] shp by auto
  show "candidates st' sh' = (if sh' = sh then remove_nth i (candidates st sh) else candidates st sh')"
    unfolding candidates_matched[OF ps gd] by (rule f)
  have b: "is_2_by_2 ?p = (sh = symbol_shape (CHR ''1''))"
    using block_shape[OF inv p] shp by simp
  show "loader_inv c st'"
  proof (rule match_inv[OF inv fin p gd ps])
    show "l_vert st' = filter (\<lambda>q. uid q \<noteq> uid ?p) (l_vert st)"
      unfolding v pv f by auto
    show "l_hori st' = filter (\<lambda>q. uid q \<noteq> uid ?p) (l_hori st)"
      unfolding h ph f by auto
    show "l_singles st' = filter (\<lambda>q. uid q \<noteq> uid ?p) (l_singles st)"
      unfolding s psi f by auto
    show "l_finalfound_2by2 st' = (l_finalfound_2by2 st \<or> is_2_by_2 ?p)"
      unfolding ff b ..
  qed (rule rest)+
qed

text \<open>
  One symbol of the goal layout that stands for a piece, read while a candidate of its
  shape is left: the nearest candidate, the earliest among the nearest, is matched.
\<close>

lemma goal_char_match:
  fixes x :: int
  assumes inv: "loader_inv c st" and fin: "l_final st" and ch: "ch \<in> piece_symbols"
    and ne: "candidates st (symbol_shape ch) \<noteq> []"
  defines "cands \<equiv> candidates st (symbol_shape ch)"
  defines "i \<equiv> find_min_index cands x (l_line_index st)"
  defines "g \<equiv> shaped (symbol_shape ch) x (l_line_index st) (uid (cands ! i))"
  shows "\<exists>st'. goal_char (x, ch) st = Inr st'
           \<and> l_goal_board_dict st' = dict_set (l_goal_board_dict st) (uid (cands ! i)) g
           \<and> l_final_pieces st' = dict_set (l_final_pieces st) (x, l_line_index st) g
           \<and> l_pieces st' = l_pieces st \<and> l_line_index st' = l_line_index st
           \<and> l_final st' \<and> l_height st' = l_height st
           \<and> (\<forall>sh. candidates st' sh =
                      (if sh = symbol_shape ch then remove_nth i cands else candidates st sh))
           \<and> loader_inv c st'"
proof -
  note pv = loader_inv_pools(1)[OF inv] and ph = loader_inv_pools(2)[OF inv]
    and psi = loader_inv_pools(3)[OF inv]
  from ne have cne: "cands \<noteq> []" by (simp add: cands_def)
  have il: "i < length (candidates st (symbol_shape ch))"
    using find_min_index_first_argmin(1)[OF cne] by (simp add: i_def cands_def)
  have ex: "\<exists>st'. goal_char (x, ch) st = Inr st'
           \<and> l_goal_board_dict st' = dict_set (l_goal_board_dict st) (uid (cands ! i)) g
           \<and> l_final_pieces st' = dict_set (l_final_pieces st) (x, l_line_index st) g
           \<and> l_pieces st' = l_pieces st \<and> l_line_index st' = l_line_index st
           \<and> l_final st' = l_final st \<and> l_height st' = l_height st
           \<and> l_vert st' = (if symbol_shape ch = symbol_shape (CHR ''^'') then remove_nth i (l_vert st) else l_vert st)
           \<and> l_hori st' = (if symbol_shape ch = symbol_shape (CHR ''<'') then remove_nth i (l_hori st) else l_hori st)
           \<and> l_singles st' = (if symbol_shape ch = symbol_shape char_single then remove_nth i (l_singles st) else l_singles st)
           \<and> l_finalfound_2by2 st' = (l_finalfound_2by2 st \<or> symbol_shape ch = symbol_shape (CHR ''1''))
           \<and> l_next_uid st' = l_next_uid st \<and> l_double st' = l_double st
           \<and> l_found_2by2 st' = l_found_2by2 st"
  proof -
    consider (v) "ch = CHR ''^''" | (h) "ch = CHR ''<''" | (s) "ch = char_single" | (b) "ch = CHR ''1''"
      using ch by (auto simp: piece_symbols_def)
    then show ?thesis
    proof cases
      case v
      with cne have "l_vert st \<noteq> []" by (simp add: pv cands_def)
      from match_piece_eq[OF this, of x "l_line_index st"]
      have m: "match_piece (l_vert st) x (l_line_index st) = Inr (uid (cands ! i), remove_nth i (l_vert st))"
        by (simp add: pv v i_def cands_def)
      show ?thesis
        using symbol_shape_distinct
        by (simp add: v goal_char_def m bind_err_def store_goal_def g_def shaped_def
              symbol_shape_def char_single_def Piece_init_def)
    next
      case h
      with cne have "l_hori st \<noteq> []" by (simp add: ph cands_def)
      from match_piece_eq[OF this, of x "l_line_index st"]
      have m: "match_piece (l_hori st) x (l_line_index st) = Inr (uid (cands ! i), remove_nth i (l_hori st))"
        by (simp add: ph h i_def cands_def)
      show ?thesis
        by (simp add: h goal_char_def m bind_err_def store_goal_def g_def shaped_def
              symbol_shape_def char_single_def Piece_init_def)
    next
      case s
      with cne have "l_singles st \<noteq> []" by (simp add: psi cands_def)
      from match_piece_eq[OF this, of x "l_line_index st"]
      have m: "match_piece (l_singles st) x (l_line_index st) = Inr (uid (cands ! i), remove_nth i (l_singles st))"
        by (simp add: psi s i_def cands_def)
      show ?thesis
        by (simp add: s goal_char_def m bind_err_def store_goal_def g_def shaped_def
              symbol_shape_def char_single_def Piece_init_def)
    next
      case b
      from cne loader_double[OF inv] obtain d where d: "l_double st = Some d"
        and nff: "\<not> l_finalfound_2by2 st" and c: "cands = [d]"
        by (auto simp: cands_def b split: option.splits if_splits)
      from il c have i0: "i = 0" by (simp add: cands_def)
      show ?thesis
        by (simp add: b goal_char_def d nff c i0 store_goal_def g_def shaped_def
              symbol_shape_def char_single_def Piece_init_def)
    qed
  qed
  then obtain st' where r: "goal_char (x, ch) st = Inr st'"
    and gd: "l_goal_board_dict st' = dict_set (l_goal_board_dict st) (uid (cands ! i)) g"
    and fp: "l_final_pieces st' = dict_set (l_final_pieces st) (x, l_line_index st) g"
    and ps: "l_pieces st' = l_pieces st" and li: "l_line_index st' = l_line_index st"
    and fe: "l_final st' = l_final st" and he: "l_height st' = l_height st"
    and v: "l_vert st' = (if symbol_shape ch = symbol_shape (CHR ''^'') then remove_nth i (l_vert st) else l_vert st)"
    and h: "l_hori st' = (if symbol_shape ch = symbol_shape (CHR ''<'') then remove_nth i (l_hori st) else l_hori st)"
    and s: "l_singles st' = (if symbol_shape ch = symbol_shape char_single then remove_nth i (l_singles st) else l_singles st)"
    and ff: "l_finalfound_2by2 st' = (l_finalfound_2by2 st \<or> symbol_shape ch = symbol_shape (CHR ''1''))"
    and rest: "l_next_uid st' = l_next_uid st" "l_final st' = l_final st"
      "l_double st' = l_double st" "l_found_2by2 st' = l_found_2by2 st"
    by blast
  note ms = match_step[OF inv fin il gd[unfolded cands_def] ps v h s ff rest]
  from ms(1) ms(2) r gd fp ps li fe he fin show ?thesis
    by (simp add: cands_def)
qed

lemma goal_char_cases:
  assumes inv: "loader_inv c st" and r: "goal_char (x, ch) st = Inr st'"
  shows "st' = st \<or> (ch \<in> piece_symbols \<and> candidates st (symbol_shape ch) \<noteq> [])"
proof -
  note pv = loader_inv_pools(1)[OF inv] and ph = loader_inv_pools(2)[OF inv]
    and psi = loader_inv_pools(3)[OF inv]
  consider (v) "ch = CHR ''^''" | (h) "ch = CHR ''<''" | (s) "ch = char_single"
    | (b) "ch = CHR ''1''" "\<not> l_finalfound_2by2 st" | (b') "ch = CHR ''1''" "l_finalfound_2by2 st"
    | (o) "ch \<notin> piece_symbols"
    by (auto simp: piece_symbols_def)
  then show ?thesis
  proof cases
    case v
    have "l_vert st \<noteq> []"
    proof
      assume "l_vert st = []"
      with r v show False by (simp add: goal_char_def match_piece_Nil bind_err_def)
    qed
    with v pv show ?thesis by (simp add: piece_symbols_def)
  next
    case h
    have "l_hori st \<noteq> []"
    proof
      assume "l_hori st = []"
      with r h show False by (simp add: goal_char_def match_piece_Nil bind_err_def)
    qed
    with h ph show ?thesis by (simp add: piece_symbols_def)
  next
    case s
    have "l_singles st \<noteq> []"
    proof
      assume "l_singles st = []"
      with r s show False
        by (simp add: goal_char_def match_piece_Nil bind_err_def char_single_def)
    qed
    with s psi show ?thesis by (simp add: piece_symbols_def)
  next
    case b
    with r obtain d where "l_double st = Some d"
      by (cases "l_double st") (simp_all add: goal_char_def char_single_def)
    with b loader_double[OF inv] show ?thesis by (simp add: piece_symbols_def)
  next
    case b'
    with r show ?thesis by (simp add: goal_char_def char_single_def)
  next
    case o
    with r show ?thesis by (auto simp: goal_char_def piece_symbols_def)
  qed
qed

lemma goal_dict_le_refl: "goal_dict_le st st"
  by (simp add: goal_dict_le_def)

lemma goal_dict_le_trans: "goal_dict_le a b \<Longrightarrow> goal_dict_le b c \<Longrightarrow> goal_dict_le a c"
  by (simp add: goal_dict_le_def)

lemma goal_dict_le_same:
  "l_goal_board_dict st' = l_goal_board_dict st \<Longrightarrow> goal_dict_le st st'"
  by (simp add: goal_dict_le_def)

lemma goal_char_inv:
  assumes inv: "loader_inv c st" and fin: "l_final st" and r: "goal_char (x, ch) st = Inr st'"
  shows "loader_inv c st' \<and> l_final st' \<and> l_pieces st' = l_pieces st
           \<and> l_line_index st' = l_line_index st \<and> goal_dict_le st st'"
proof -
  from goal_char_cases[OF inv r] show ?thesis
  proof
    assume "st' = st"
    with inv fin show ?thesis by (simp add: goal_dict_le_refl)
  next
    assume a: "ch \<in> piece_symbols \<and> candidates st (symbol_shape ch) \<noteq> []"
    let ?cands = "candidates st (symbol_shape ch)"
    let ?i = "find_min_index ?cands x (l_line_index st)"
    from a have ne: "?cands \<noteq> []" by simp
    from goal_char_match[OF inv fin, of ch x] a r
    obtain g where gd: "l_goal_board_dict st' = dict_set (l_goal_board_dict st) (uid (?cands ! ?i)) g"
      and rest: "l_pieces st' = l_pieces st" "l_line_index st' = l_line_index st" "l_final st'"
        "loader_inv c st'"
      by auto
    have "?cands ! ?i \<in> set ?cands"
      using find_min_index_first_argmin(1)[OF ne] by simp
    then have "uid (?cands ! ?i) \<notin> fst ` set (l_goal_board_dict st)"
      by (rule candidates_unmatched)
    then have "map_of (l_goal_board_dict st) (uid (?cands ! ?i)) = None"
      by (simp add: map_of_eq_None_iff)
    then have "goal_dict_le st st'"
      unfolding goal_dict_le_def gd map_of_dict_set by auto
    with rest show ?thesis by simp
  qed
qed

lemma fold_goal_char_inv:
  assumes "fold_err goal_char xs st = Inr st'" "loader_inv c st" "l_final st"
  shows "loader_inv c st' \<and> l_final st' \<and> l_pieces st' = l_pieces st
           \<and> l_line_index st' = l_line_index st \<and> goal_dict_le st st'"
  using assms
proof (induction xs arbitrary: st)
  case Nil
  then show ?case by (simp add: goal_dict_le_refl)
next
  case (Cons xc xs)
  from Cons.prems(1) obtain st1 where s1: "goal_char xc st = Inr st1"
    and s2: "fold_err goal_char xs st1 = Inr st'"
    by (cases "goal_char xc st") (simp_all add: bind_err_def)
  from goal_char_inv[OF Cons.prems(2,3), of "fst xc" "snd xc" st1] s1
  have a: "loader_inv c st1" "l_final st1" "l_pieces st1 = l_pieces st"
    "l_line_index st1 = l_line_index st" "goal_dict_le st st1" by simp_all
  from Cons.IH[OF s2 a(1,2)] a(3,4,5) show ?case
    by (auto intro: goal_dict_le_trans)
qed

lemma fold_initial_char_inv:
  assumes "fold_err initial_char (zip (map int [n ..< n + length cs]) cs) st = Inr st'"
    "loader_inv (int n) st" "\<not> l_final st"
  shows "loader_inv (int (n + length cs)) st' \<and> \<not> l_final st'
           \<and> l_line_index st' = l_line_index st"
  using assms
proof (induction cs arbitrary: n st)
  case Nil
  then show ?case by simp
next
  case (Cons ch cs)
  have e: "zip (map int [n ..< n + length (ch # cs)]) (ch # cs)
             = (int n, ch) # zip (map int [Suc n ..< Suc n + length cs]) cs"
    by (simp add: upt_conv_Cons del: upt_Suc)
  from Cons.prems(1) obtain st1 where s1: "initial_char (int n, ch) st = Inr st1"
    and s2: "fold_err initial_char (zip (map int [Suc n ..< Suc n + length cs]) cs) st1 = Inr st'"
    unfolding e by (cases "initial_char (int n, ch) st") (simp_all add: bind_err_def)
  from initial_char_inv[OF Cons.prems(2,3) s1]
  have a: "loader_inv (int (Suc n)) st1" "\<not> l_final st1" "l_line_index st1 = l_line_index st"
    by (simp_all add: add.commute)
  from Cons.IH[OF s2 a(1,2)] a(3) show ?case by simp
qed

lemma loader_inv_height [simp]: "loader_inv c (st\<lparr>l_height := h\<rparr>) = loader_inv c st"
  by (simp add: loader_inv_def candidates_def)

lemma loader_inv_next_line:
  assumes "loader_inv c st"
  shows "loader_inv 0 (st\<lparr>l_line_index := l_line_index st + 1\<rparr>)"
proof -
  have "list_all (\<lambda>kp. snd (fst kp) < l_line_index st + 1
              \<or> (snd (fst kp) = l_line_index st + 1 \<and> fst (fst kp) < 0)) (l_pieces st)"
    if "list_all (\<lambda>kp. snd (fst kp) < l_line_index st
              \<or> (snd (fst kp) = l_line_index st \<and> fst (fst kp) < c)) (l_pieces st)"
    using that by (auto simp: list_all_iff)
  with assms show ?thesis unfolding loader_inv_def candidates_def by auto
qed

lemma loader_inv_goal_section:
  assumes "loader_inv c st"
  shows "loader_inv 0 (st\<lparr>l_height := 0, l_final := True, l_line_index := 0\<rparr>)"
  using assms unfolding loader_inv_def candidates_def by simp

lemma read_line_inv:
  assumes inv: "loader_inv 0 st" and r: "read_line line st = Inr st'"
  shows "loader_inv 0 st'"
    and "l_final st \<Longrightarrow> l_final st' \<and> l_pieces st' = l_pieces st \<and> goal_dict_le st st'"
    and "\<not> l_final st \<Longrightarrow> l_goal_board_dict st' = l_goal_board_dict st"
proof -
  let ?st = "st\<lparr>l_height := l_height st + 1\<rparr>"
  have inv1: "loader_inv 0 ?st" using inv by simp
  have "loader_inv 0 st'
      \<and> (l_final st \<longrightarrow> l_final st' \<and> l_pieces st' = l_pieces st \<and> goal_dict_le st st')
      \<and> (\<not> l_final st \<longrightarrow> l_goal_board_dict st' = l_goal_board_dict st)"
  proof (cases "line = [CHR 0x0A]")
    case True
    show ?thesis
    proof (cases "l_final st")
      case True
      with r \<open>line = [CHR 0x0A]\<close> have "st' = ?st" by (simp add: read_line_def)
      with inv1 True show ?thesis by (simp add: goal_dict_le_same)
    next
      case False
      with r \<open>line = [CHR 0x0A]\<close>
      have "st' = ?st\<lparr>l_height := 0, l_final := True, l_line_index := 0\<rparr>"
        by (simp add: read_line_def)
      with loader_inv_goal_section[OF inv1] False show ?thesis by simp
    qed
  next
    case nb: False
    show ?thesis
    proof (cases "l_final st")
      case True
      with r nb obtain st1 where f: "fold_err goal_char (enumerate_line line) ?st = Inr st1"
        and st': "st' = st1\<lparr>l_line_index := l_line_index st1 + 1\<rparr>"
        by (cases "fold_err goal_char (enumerate_line line) ?st")
           (simp_all add: read_line_def bind_err_def)
      from fold_goal_char_inv[OF f inv1] True
      have a: "loader_inv 0 st1" "l_final st1" "l_pieces st1 = l_pieces st" "goal_dict_le ?st st1"
        by simp_all
      from a(4) have "goal_dict_le st st'" by (simp add: goal_dict_le_def st')
      with loader_inv_next_line[OF a(1)] a(2,3) True show ?thesis by (simp add: st')
    next
      case False
      with r nb obtain st1 where f: "fold_err initial_char (enumerate_line line) ?st = Inr st1"
        and st': "st' = st1\<lparr>l_line_index := l_line_index st1 + 1\<rparr>"
        by (cases "fold_err initial_char (enumerate_line line) ?st")
           (simp_all add: read_line_def bind_err_def)
      from f have f': "fold_err initial_char (zip (map int [0 ..< 0 + length line]) line) ?st = Inr st1"
        by (simp add: enumerate_line_def)
      from fold_initial_char_inv[OF f'] inv1 False
      have a: "loader_inv (int (length line)) st1" "\<not> l_final st1" by simp_all
      from a have "l_goal_board_dict st1 = []" by (simp add: loader_inv_def)
      moreover from inv False have "l_goal_board_dict st = []" by (simp add: loader_inv_def)
      ultimately show ?thesis using loader_inv_next_line[OF a(1)] False by (simp add: st')
    qed
  qed
  then show "loader_inv 0 st'"
    and "l_final st \<Longrightarrow> l_final st' \<and> l_pieces st' = l_pieces st \<and> goal_dict_le st st'"
    and "\<not> l_final st \<Longrightarrow> l_goal_board_dict st' = l_goal_board_dict st"
    by simp_all
qed

lemma fold_read_line_inv:
  assumes "fold_err read_line ls st = Inr st'" "loader_inv 0 st"
  shows "loader_inv 0 st'
     \<and> (l_final st \<longrightarrow> l_final st' \<and> l_pieces st' = l_pieces st \<and> goal_dict_le st st')"
  using assms
proof (induction ls arbitrary: st)
  case Nil
  then show ?case by (simp add: goal_dict_le_refl)
next
  case (Cons l ls)
  from Cons.prems(1) obtain st1 where s1: "read_line l st = Inr st1"
    and s2: "fold_err read_line ls st1 = Inr st'"
    by (cases "read_line l st") (simp_all add: bind_err_def)
  note a = read_line_inv[OF Cons.prems(2) s1]
  from Cons.IH[OF s2 a(1)] a(2) show ?case
    by (auto intro: goal_dict_le_trans)
qed

lemma read_lines_inv: "read_lines ls = Inr st \<Longrightarrow> loader_inv 0 st"
  using fold_read_line_inv[of ls loader_init st] loader_inv_init by (simp add: read_lines_def)

lemma fold_err_append:
  "fold_err f (xs @ ys) s = bind_err (fold_err f xs s) (fold_err f ys)"
  by (induction xs arbitrary: s) (simp_all add: bind_err_def split: sum.splits)

lemma enumerate_line_nth:
  "n < length line \<Longrightarrow> enumerate_line line =
     take n (enumerate_line line) @ (int n, line ! n) # drop (Suc n) (enumerate_line line)"
proof -
  assume n: "n < length line"
  then have l: "n < length (enumerate_line line)" by (simp add: enumerate_line_def)
  have "enumerate_line line ! n = (int n, line ! n)" using n by (simp add: enumerate_line_def)
  with id_take_nth_drop[OF l] show ?thesis by simp
qed

lemma read_from_file_fields:
  assumes "read_from_file file_lines = Inr (b, gb)"
  shows "\<exists>st. read_lines file_lines = Inr st \<and> pieces b = l_pieces st
           \<and> goal_board_dict b = Some (l_goal_board_dict st) \<and> height b = l_height st
           \<and> update_grid (l_height st) (l_pieces st) = Inr (grid b)"
  using assms
  by (auto simp: read_from_file_def Board_init_def bind_err_def split: sum.splits)

text \<open>
  C8.  Let the loader have read the lines \<open>pre\<close>, be in the goal layout, and have come to
  column \<open>n\<close> of the next line, which holds a piece symbol; \<open>st\<close> holds its variables then.
  The candidates are the initial-layout pieces of the symbol's shape that are not matched
  yet, in load order; they are what the pool of that shape holds (for the 2x2 block, what
  \<^verbatim>\<open>double\<close> holds).  If there is one, \<^verbatim>\<open>find_min_index\<close> picks the candidate at the least
  Manhattan distance from \<open>(n, line_index)\<close>, the earliest of them; the symbol is read
  without an exception; that candidate leaves the candidates of its shape and the others
  stay; the goal piece, built at \<open>(n, line_index)\<close> with the candidate's uid, is stored in
  \<^verbatim>\<open>final_pieces\<close> and under that uid in \<^verbatim>\<open>goal_board_dict\<close>; and whatever follows in the
  file, the goal dictionary of the board \<^verbatim>\<open>read_from_file\<close> returns maps this uid, which is
  the uid of a piece of that board, to this goal piece.
\<close>

theorem loader_matches_greedy_nearest_first:
  assumes pre: "read_lines pre = Inr st0" and fin: "l_final st0"
    and nb: "line \<noteq> [CHR 0x0A]" and n: "n < length line" and ch: "line ! n \<in> piece_symbols"
    and st: "fold_err goal_char (take n (enumerate_line line))
               (st0\<lparr>l_height := l_height st0 + 1\<rparr>) = Inr st"
    and ne: "candidates st (symbol_shape (line ! n)) \<noteq> []"
  shows "let cands = candidates st (symbol_shape (line ! n));
             y = l_line_index st;
             i = find_min_index cands (int n) y;
             g = shaped (symbol_shape (line ! n)) (int n) y (uid (cands ! i))
         in (if line ! n = CHR ''^'' then l_vert st = cands
             else if line ! n = CHR ''<'' then l_hori st = cands
             else if line ! n = char_single then l_singles st = cands
             else l_double st = Some (cands ! i) \<and> length cands = 1)
            \<and> i < length cands
            \<and> (\<forall>j < length cands. manhattan (int n) y (cands ! i) \<le> manhattan (int n) y (cands ! j))
            \<and> (\<forall>j < i. manhattan (int n) y (cands ! i) < manhattan (int n) y (cands ! j))
            \<and> (\<exists>st'. goal_char (int n, line ! n) st = Inr st'
                  \<and> (\<forall>sh. candidates st' sh =
                        (if sh = symbol_shape (line ! n) then remove_nth i cands
                         else candidates st sh))
                  \<and> l_final_pieces st' = dict_set (l_final_pieces st) (int n, y) g
                  \<and> l_goal_board_dict st' = dict_set (l_goal_board_dict st) (uid (cands ! i)) g)
            \<and> (\<forall>post b goal_board.
                  read_from_file (pre @ line # post) = Inr (b, goal_board) \<longrightarrow>
                    cands ! i \<in> snd ` set (pieces b)
                    \<and> (\<exists>gd. goal_board_dict b = Some gd \<and> map_of gd (uid (cands ! i)) = Some g))"
proof -
  define cands where "cands = candidates st (symbol_shape (line ! n))"
  define y where "y = l_line_index st"
  define i where "i = find_min_index cands (int n) y"
  define g where "g = shaped (symbol_shape (line ! n)) (int n) y (uid (cands ! i))"
  let ?st0 = "st0\<lparr>l_height := l_height st0 + 1\<rparr>"
  have inv0: "loader_inv 0 ?st0" using read_lines_inv[OF pre] by simp
  from fold_goal_char_inv[OF st inv0] fin
  have inv: "loader_inv 0 st" and fst: "l_final st" and pst: "l_pieces st = l_pieces st0"
    by simp_all
  from ne have cne: "cands \<noteq> []" by (simp add: cands_def)
  note am = find_min_index_first_argmin[OF cne, of "int n" y, folded i_def]
  from am(1) have mem: "cands ! i \<in> set cands" by simp
  then have pin: "cands ! i \<in> snd ` set (l_pieces st)"
    using candidates_subset[of st "symbol_shape (line ! n)"] by (auto simp: cands_def)
  have pool: "if line ! n = CHR ''^'' then l_vert st = cands
             else if line ! n = CHR ''<'' then l_hori st = cands
             else if line ! n = char_single then l_singles st = cands
             else l_double st = Some (cands ! i) \<and> length cands = 1"
  proof -
    consider (v) "line ! n = CHR ''^''" | (h) "line ! n = CHR ''<''" | (s) "line ! n = char_single"
      | (b) "line ! n = CHR ''1''"
      using ch by (auto simp: piece_symbols_def)
    then show ?thesis
    proof cases
      case v
      then show ?thesis using loader_inv_pools(1)[OF inv] by (simp add: cands_def)
    next
      case h
      then show ?thesis using loader_inv_pools(2)[OF inv] by (simp add: cands_def)
    next
      case s
      then show ?thesis using loader_inv_pools(3)[OF inv]
        by (simp add: cands_def char_single_def)
    next
      case b
      with cne loader_double[OF inv] obtain d where "l_double st = Some d" "cands = [d]"
        by (auto simp: cands_def split: option.splits if_splits)
      with am(1) b show ?thesis by (simp add: char_single_def)
    qed
  qed
  from goal_char_match[OF inv fst ch ne, of "int n"]
  obtain st' where r: "goal_char (int n, line ! n) st = Inr st'"
    and gd: "l_goal_board_dict st' = dict_set (l_goal_board_dict st) (uid (cands ! i)) g"
    and fp: "l_final_pieces st' = dict_set (l_final_pieces st) (int n, y) g"
    and ps': "l_pieces st' = l_pieces st" and fin': "l_final st'"
    and cs: "\<forall>sh. candidates st' sh =
                (if sh = symbol_shape (line ! n) then remove_nth i cands else candidates st sh)"
    and inv': "loader_inv 0 st'"
    unfolding cands_def y_def i_def g_def by blast
  have step: "\<exists>st'. goal_char (int n, line ! n) st = Inr st'
                  \<and> (\<forall>sh. candidates st' sh =
                        (if sh = symbol_shape (line ! n) then remove_nth i cands
                         else candidates st sh))
                  \<and> l_final_pieces st' = dict_set (l_final_pieces st) (int n, y) g
                  \<and> l_goal_board_dict st' = dict_set (l_goal_board_dict st) (uid (cands ! i)) g"
    using r cs fp gd by blast
  have entry: "map_of (l_goal_board_dict st') (uid (cands ! i)) = Some g"
    by (simp add: gd map_of_dict_set)
  have final: "cands ! i \<in> snd ` set (pieces b)
                 \<and> (\<exists>gd. goal_board_dict b = Some gd \<and> map_of gd (uid (cands ! i)) = Some g)"
    if rf: "read_from_file (pre @ line # post) = Inr (b, goal_board)" for post b goal_board
  proof -
    from read_from_file_fields[OF rf] obtain e where e: "read_lines (pre @ line # post) = Inr e"
      and pb: "pieces b = l_pieces e" and gb: "goal_board_dict b = Some (l_goal_board_dict e)"
      by blast
    from e pre obtain st2 where l2: "read_line line st0 = Inr st2"
      and l3: "fold_err read_line post st2 = Inr e"
      by (cases "read_line line st0")
         (simp_all add: read_lines_def fold_err_append bind_err_def)
    from l2 nb fin obtain st3 where f3: "fold_err goal_char (enumerate_line line) ?st0 = Inr st3"
      and st2: "st2 = st3\<lparr>l_line_index := l_line_index st3 + 1\<rparr>"
      by (cases "fold_err goal_char (enumerate_line line) ?st0")
         (simp_all add: read_line_def bind_err_def)
    from f3 have "fold_err goal_char
        (take n (enumerate_line line) @ (int n, line ! n) # drop (Suc n) (enumerate_line line)) ?st0
        = Inr st3"
      using enumerate_line_nth[OF n] by simp
    with st r have f4: "fold_err goal_char (drop (Suc n) (enumerate_line line)) st' = Inr st3"
      by (simp add: fold_err_append bind_err_def)
    from fold_goal_char_inv[OF f4 inv' fin']
    have a3: "loader_inv 0 st3" "l_final st3" "l_pieces st3 = l_pieces st'" "goal_dict_le st' st3"
      by simp_all
    have inv2: "loader_inv 0 st2" unfolding st2 using a3(1) by (rule loader_inv_next_line)
    have a2: "l_final st2" "l_pieces st2 = l_pieces st3" "goal_dict_le st3 st2"
      using a3(2) by (simp_all add: st2 goal_dict_le_def)
    from fold_read_line_inv[OF l3 inv2] a2(1)
    have ae: "l_pieces e = l_pieces st2" "goal_dict_le st2 e" by simp_all
    from a3(4) a2(3) ae(2) have "goal_dict_le st' e" by (blast intro: goal_dict_le_trans)
    with entry have "map_of (l_goal_board_dict e) (uid (cands ! i)) = Some g"
      by (simp add: goal_dict_le_def)
    moreover have "l_pieces e = l_pieces st" using ae(1) a2(2) a3(3) ps' by simp
    ultimately show ?thesis using pin pb gb by simp
  qed
  from pool am step final show ?thesis
    unfolding Let_def cands_def[symmetric] y_def[symmetric] i_def[symmetric] g_def[symmetric]
    by blast
qed

theorem loader_matches_greedy_nearest_first_witness:
  "\<exists>st0 st b goal_board gd.
     read_lines (take 3 ex_file_match) = Inr st0 \<and> l_final st0
     \<and> fold_err goal_char (take 3 (enumerate_line (ex_file_match ! 3)))
          (st0\<lparr>l_height := l_height st0 + 1\<rparr>) = Inr st
     \<and> l_line_index st = 0
     \<and> candidates st (symbol_shape char_single) =
          [Piece_init False True 0 0 None 0, Piece_init False True 2 0 None 1,
           Piece_init False True 3 1 None 2]
     \<and> l_singles st = candidates st (symbol_shape char_single)
     \<and> find_min_index (candidates st (symbol_shape char_single)) 3 0 = 1
     \<and> read_from_file ex_file_match = Inr (b, goal_board)
     \<and> Piece_init False True 2 0 None 1 \<in> snd ` set (pieces b)
     \<and> goal_board_dict b = Some gd \<and> map_of gd 1 = Some (Piece_init False True 3 0 None 1)"
proof -
  let ?line = "ex_file_match ! 3"
  let ?cs = "[Piece_init False True 0 0 None 0, Piece_init False True 2 0 None 1,
              Piece_init False True 3 1 None 2]"
  have "case read_lines (take 3 ex_file_match) of
          Inl e \<Rightarrow> False
        | Inr st0 \<Rightarrow>
            l_final st0
            \<and> (case fold_err goal_char (take 3 (enumerate_line ?line))
                       (st0\<lparr>l_height := l_height st0 + 1\<rparr>) of
                 Inl e \<Rightarrow> False
               | Inr st \<Rightarrow> l_line_index st = 0 \<and> candidates st (symbol_shape char_single) = ?cs)"
    by code_simp
  then obtain st0 st where pre: "read_lines (take 3 ex_file_match) = Inr st0" and fin: "l_final st0"
    and st: "fold_err goal_char (take 3 (enumerate_line ?line))
               (st0\<lparr>l_height := l_height st0 + 1\<rparr>) = Inr st"
    and y: "l_line_index st = 0" and cs: "candidates st (symbol_shape char_single) = ?cs"
    by (auto split: sum.splits)
  have "case read_from_file ex_file_match of Inl e \<Rightarrow> False | Inr r \<Rightarrow> True"
    by code_simp
  then obtain b goal_board where rf: "read_from_file ex_file_match = Inr (b, goal_board)"
    by (cases "read_from_file ex_file_match") auto
  have fl: "ex_file_match = take 3 ex_file_match @ ?line # [ex_file_match ! 4]"
    by (simp add: ex_file_match_def)
  have line: "?line \<noteq> [CHR 0x0A]" "3 < length ?line" "?line ! 3 = char_single"
    by (simp_all add: ex_file_match_def char_single_def)
  have ch: "?line ! 3 \<in> piece_symbols" by (simp add: line(3) piece_symbols_def)
  have ne: "candidates st (symbol_shape (?line ! 3)) \<noteq> []" by (simp add: line(3) cs)
  have i: "find_min_index ?cs 3 0 = 1" by code_simp
  have uid_Piece_init: "uid (Piece_init b2 s x y' orient u) = u" for b2 s x y' orient u
    by (simp add: Piece_init_def)
  from rf fl have rf': "read_from_file (take 3 ex_file_match @ ?line # [ex_file_match ! 4])
                             = Inr (b, goal_board)" by simp
  note t = loader_matches_greedy_nearest_first[OF pre fin line(1,2) ch st ne, unfolded Let_def]
  from t[THEN conjunct1] have pool: "l_singles st = candidates st (symbol_shape char_single)"
    by (simp add: line(3) char_single_def)
  note f = t[THEN conjunct2, THEN conjunct2, THEN conjunct2, THEN conjunct2, THEN conjunct2,
      rule_format, OF rf']
  from f have "Piece_init False True 2 0 None 1 \<in> snd ` set (pieces b)
      \<and> (\<exists>gd. goal_board_dict b = Some gd
            \<and> map_of gd 1 = Some (shaped (symbol_shape char_single) 3 0 1))"
    by (simp add: line(3) cs y i[unfolded One_nat_def] uid_Piece_init)
  then obtain gd where m': "Piece_init False True 2 0 None 1 \<in> snd ` set (pieces b)"
    and g: "goal_board_dict b = Some gd"
    and e: "map_of gd 1 = Some (shaped (symbol_shape char_single) 3 0 1)"
    by blast
  from e have e': "map_of gd 1 = Some (Piece_init False True 3 0 None 1)"
    by (simp add: shaped_def symbol_shape_def char_single_def)
  have i': "find_min_index (candidates st (symbol_shape char_single)) 3 0 = 1"
    unfolding cs by (rule i)
  show ?thesis
    by (intro exI[of _ st0] exI[of _ st] exI[of _ b] exI[of _ goal_board] exI[of _ gd] conjI)
       (rule pre fin st y cs pool i' rf m' g e')+
qed

lemma goal_complete_lookup:
  assumes "goal_complete b" "kp \<in> set (pieces b)"
  shows "\<exists>g. goal_lookup b (uid (snd kp)) = Inr g"
proof -
  from assms(1) obtain gd where gd: "goal_board_dict b = Some gd"
    "list_all (\<lambda>kp. uid (snd kp) \<in> fst ` set gd) (pieces b)"
    by (auto simp: goal_complete_def split: option.splits)
  from gd(2) assms(2) have "uid (snd kp) \<in> fst ` set gd" by (simp add: list_all_iff)
  then have "uid (snd kp) \<in> dom (map_of gd)" by (simp add: dom_map_of_conv_image_fst)
  then obtain g where "map_of gd (uid (snd kp)) = Some g" by blast
  with gd(1) show ?thesis by (simp add: goal_lookup_def dict_get_def)
qed

lemma copy_board_uids:
  assumes "copy_board b new_key old = Inr b'"
  shows "uid ` snd ` set (pieces b') \<subseteq> uid ` snd ` set (pieces b)"
    and "goal_board_dict b' = goal_board_dict b"
proof -
  show "goal_board_dict b' = goal_board_dict b"
    using copy_board_in_grids[OF assms] by simp
  show "uid ` snd ` set (pieces b') \<subseteq> uid ` snd ` set (pieces b)"
  proof (cases "map_of (pieces b) old")
    case None
    with assms show ?thesis
      by (simp add: copy_board_missing_key bind_err_def split: sum.splits)
  next
    case (Some q)
    let ?m = "set_coords q (fst new_key) (snd new_key)"
    from assms have ps: "pieces b' = dict_set (dict_del (pieces b) old) new_key ?m"
      unfolding copy_board_eq[OF Some] by (auto simp: bind_err_def split: sum.splits)
    from Some have q: "q \<in> snd ` set (pieces b)" by (force dest: map_of_SomeD)
    have "snd ` set (pieces b') \<subseteq> insert ?m (snd ` set (pieces b))"
      unfolding ps using dict_set_values[of "dict_del (pieces b) old" new_key ?m]
        dict_del_subset[of "pieces b" old] by blast
    moreover have "uid ?m = uid q" by (simp add: set_coords_def)
    ultimately show ?thesis using q by force
  qed
qed

lemma goal_complete_successor:
  assumes c: "goal_complete (board s)" and g: "generate_successors s = Inr ts" and t: "t \<in> set ts"
  shows "goal_complete (board t)" and "goal_board_dict (board t) = goal_board_dict (board s)"
    and "uid ` snd ` set (pieces (board t)) \<subseteq> uid ` snd ` set (pieces (board s))"
proof -
  from generate_successors_elem[OF g t] obtain p d where sf: "successor_for s p d = Inr t"
    by blast
  from successor_for_fields[OF sf] obtain b' where
    cb: "copy_board (board s) d (coord_x p, coord_y p) = Inr b'" and bt: "board t = b'"
    by auto
  note u = copy_board_uids[OF cb, folded bt]
  show "goal_board_dict (board t) = goal_board_dict (board s)" by (rule u(2))
  show "uid ` snd ` set (pieces (board t)) \<subseteq> uid ` snd ` set (pieces (board s))" by (rule u(1))
  from c obtain gd where gd: "goal_board_dict (board s) = Some gd"
    "\<forall>kp \<in> set (pieces (board s)). uid (snd kp) \<in> fst ` set gd"
    by (auto simp: goal_complete_def list_all_iff split: option.splits)
  have "\<forall>kp \<in> set (pieces (board t)). uid (snd kp) \<in> fst ` set gd"
    using u(1) gd(2) by force
  with gd(1) u(2) show "goal_complete (board t)"
    by (simp add: goal_complete_def list_all_iff)
qed

lemma all_matched_complete:
  assumes inv: "loader_inv c st" and m: "all_matched st" and p: "p \<in> snd ` set (l_pieces st)"
  shows "uid p \<in> fst ` set (l_goal_board_dict st)"
proof (rule ccontr)
  assume n: "uid p \<notin> fst ` set (l_goal_board_dict st)"
  with p have pc: "p \<in> set (candidates st (shape_of p))" by (auto simp: candidates_def)
  from inv p have "shape_of p \<in> symbol_shape ` piece_symbols"
    by (auto simp: loader_inv_def list_all_iff)
  then consider (v) "shape_of p = symbol_shape (CHR ''^'')"
    | (h) "shape_of p = symbol_shape (CHR ''<'')"
    | (s) "shape_of p = symbol_shape char_single"
    | (b) "shape_of p = symbol_shape (CHR ''1'')"
    by (auto simp: piece_symbols_def)
  then show False
  proof cases
    case v
    with pc loader_inv_pools(1)[OF inv] m show False by (simp add: all_matched_def)
  next
    case h
    with pc loader_inv_pools(2)[OF inv] m show False by (simp add: all_matched_def)
  next
    case s
    with pc loader_inv_pools(3)[OF inv] m show False by (simp add: all_matched_def)
  next
    case b
    with pc loader_double[OF inv] obtain d where d: "l_double st = Some d"
      and nf: "\<not> l_finalfound_2by2 st"
      by (auto split: option.splits if_splits)
    from inv have "l_found_2by2 st = (l_double st \<noteq> None)" by (simp add: loader_inv_def)
    with d m nf show False by (simp add: all_matched_def)
  qed
qed

lemma loaded_board_complete:
  assumes rl: "read_lines file_lines = Inr st" and m: "all_matched st"
    and rf: "read_from_file file_lines = Inr (b, goal_board)"
  shows "goal_complete b"
proof -
  from read_from_file_fields[OF rf] rl have pb: "pieces b = l_pieces st"
    and gb: "goal_board_dict b = Some (l_goal_board_dict st)" by auto
  have "uid (snd kp) \<in> fst ` set (l_goal_board_dict st)" if "kp \<in> set (l_pieces st)" for kp
    using all_matched_complete[OF read_lines_inv[OF rl] m, of "snd kp"] that by simp
  then show ?thesis by (simp add: goal_complete_def gb pb list_all_iff)
qed

lemma wf_piece_succ_iff:
  assumes wf: "wf_board (board s)" and kp: "(k, p) \<in> set (pieces (board s))"
  shows "(\<exists>ss. piece_succ_rel s p ss) \<longleftrightarrow>
           (piece_new_keys (board s) p = Inr [] \<or> (\<exists>g. goal_lookup (board s) (uid p) = Inr g))"
proof -
  let ?ks = "filter (legal_dest (board s) p) (slide_steps p)"
  have ks: "piece_new_keys (board s) p = Inr ?ks" using wf kp by (rule wf_piece_new_keys)
  show ?thesis
  proof
    assume "\<exists>ss. piece_succ_rel s p ss"
    then obtain ss where ss: "map (successor_for s p) ?ks = map Inr ss"
      using ks by (auto simp: piece_succ_rel_def)
    show "piece_new_keys (board s) p = Inr [] \<or> (\<exists>g. goal_lookup (board s) (uid p) = Inr g)"
    proof (cases "?ks")
      case Nil
      with ks show ?thesis by simp
    next
      case (Cons d ds)
      with ss obtain t where "successor_for s p d = Inr t" by (cases ss) auto
      from successor_for_fields[OF this] show ?thesis by blast
    qed
  next
    assume a: "piece_new_keys (board s) p = Inr [] \<or> (\<exists>g. goal_lookup (board s) (uid p) = Inr g)"
    have "\<exists>t. successor_for s p d = Inr t" if d: "d \<in> set ?ks" for d
    proof -
      from d have "?ks \<noteq> []" by (auto simp: filter_empty_conv)
      with ks have "piece_new_keys (board s) p \<noteq> Inr []" by simp
      with a obtain gp where gp: "goal_lookup (board s) (uid p) = Inr gp" by blast
      from d have "legal_dest (board s) p d" by simp
      from legal_move_wf[OF wf kp this] obtain b' where
        "copy_board (board s) d (key_of p) = Inr b'" by blast
      then show ?thesis using gp
        by (simp add: successor_for_def bind_err_def Let_def key_of_def)
    qed
    then have "\<exists>ss. map (successor_for s p) ?ks = map Inr ss"
      by (intro map_Inr_exists) blast
    with ks show "\<exists>ss. piece_succ_rel s p ss" by (auto simp: piece_succ_rel_def)
  qed
qed

lemma list_all2_exists_iff:
  "(\<exists>ys. list_all2 R xs ys) \<longleftrightarrow> (\<forall>x \<in> set xs. \<exists>y. R x y)"
proof
  assume "\<exists>ys. list_all2 R xs ys"
  then obtain ys where "list_all2 R xs ys" by blast
  then show "\<forall>x \<in> set xs. \<exists>y. R x y"
    by (induction rule: list_all2_induct) auto
next
  assume "\<forall>x \<in> set xs. \<exists>y. R x y"
  then show "\<exists>ys. list_all2 R xs ys" by (rule list_all2_exists)
qed

lemma wf_generates_iff:
  assumes wf: "wf_board (board s)"
  shows "(\<exists>ts. generate_successors s = Inr ts) \<longleftrightarrow>
           (\<forall>kp \<in> set (pieces (board s)).
              piece_new_keys (board s) (snd kp) = Inr []
              \<or> (\<exists>g. goal_lookup (board s) (uid (snd kp)) = Inr g))"
proof -
  have "(\<exists>ts. generate_successors s = Inr ts) \<longleftrightarrow>
          (\<exists>sss. list_all2 (piece_succ_rel s) (map snd (pieces (board s))) sss)"
    using generate_successors_iff[of s] by blast
  also have "\<dots> \<longleftrightarrow> (\<forall>p \<in> set (map snd (pieces (board s))). \<exists>ss. piece_succ_rel s p ss)"
    by (rule list_all2_exists_iff)
  also have "\<dots> \<longleftrightarrow> (\<forall>kp \<in> set (pieces (board s)). \<exists>ss. piece_succ_rel s (snd kp) ss)"
    by simp
  also have "\<dots> \<longleftrightarrow> (\<forall>kp \<in> set (pieces (board s)).
              piece_new_keys (board s) (snd kp) = Inr []
              \<or> (\<exists>g. goal_lookup (board s) (uid (snd kp)) = Inr g))"
  proof (rule ball_cong[OF refl])
    fix kp assume "kp \<in> set (pieces (board s))"
    then have "(fst kp, snd kp) \<in> set (pieces (board s))" by simp
    from wf_piece_succ_iff[OF wf this]
    show "(\<exists>ss. piece_succ_rel s (snd kp) ss) \<longleftrightarrow>
            (piece_new_keys (board s) (snd kp) = Inr []
             \<or> (\<exists>g. goal_lookup (board s) (uid (snd kp)) = Inr g))" .
  qed
  finally show ?thesis .
qed

lemma body_raises:
  assumes "Board_str (board node) \<notin> visited" "\<not> Board_eq (board node) (PyBoard goal_board)"
    "generate_successors node = Inl e"
  shows "dfs_body goal_board (stack @ [node], visited) = Done (Inl e)"
    and "heappop heap_lst = ((node_f, node), h1) \<Longrightarrow>
           astar_body goal_board (heap_lst, visited) = Done (Inl e)"
  using assms by (simp_all add: dfs_body_def astar_body_def Let_def)

section \<open>The goal dictionary of loaded boards\<close>

lemma goal_lookup_defined:
  "(\<exists>g. goal_lookup b u = Inr g) \<longleftrightarrow> (\<exists>gd. goal_board_dict b = Some gd \<and> u \<in> fst ` set gd)"
proof (cases "goal_board_dict b")
  case None
  then show ?thesis by (simp add: goal_lookup_def)
next
  case (Some gd)
  have "(\<exists>g. map_of gd u = Some g) \<longleftrightarrow> u \<in> dom (map_of gd)" by blast
  then show ?thesis
    by (auto simp: goal_lookup_def dict_get_def Some dom_map_of_conv_image_fst split: option.splits)
qed

lemma unmatched_piece:
  assumes inv: "loader_inv c st" and m: "\<not> all_matched st"
  shows "\<exists>p \<in> snd ` set (l_pieces st). uid p \<notin> fst ` set (l_goal_board_dict st)"
proof -
  have pool: "\<exists>p \<in> snd ` set (l_pieces st). uid p \<notin> fst ` set (l_goal_board_dict st)"
    if "candidates st sh \<noteq> []" for sh
  proof -
    from that have h: "hd (candidates st sh) \<in> set (candidates st sh)" by simp
    from h candidates_subset[of st sh] candidates_unmatched[OF h] show ?thesis by blast
  qed
  from m consider (v) "l_vert st \<noteq> []" | (h) "l_hori st \<noteq> []" | (s) "l_singles st \<noteq> []"
    | (b) "l_found_2by2 st" "\<not> l_finalfound_2by2 st"
    by (auto simp: all_matched_def)
  then show ?thesis
  proof cases
    case v
    then show ?thesis using pool[of "symbol_shape (CHR ''^'')"] loader_inv_pools(1)[OF inv] by simp
  next
    case h
    then show ?thesis using pool[of "symbol_shape (CHR ''<'')"] loader_inv_pools(2)[OF inv] by simp
  next
    case s
    then show ?thesis using pool[of "symbol_shape char_single"] loader_inv_pools(3)[OF inv] by simp
  next
    case b
    from inv have "l_found_2by2 st = (l_double st \<noteq> None)" by (simp add: loader_inv_def)
    with b(1) obtain d where d: "l_double st = Some d" by auto
    with b(2) loader_double[OF inv] have "candidates st (symbol_shape (CHR ''1'')) \<noteq> []" by simp
    then show ?thesis by (rule pool)
  qed
qed

lemma loaded_board_complete_iff:
  assumes rl: "read_lines file_lines = Inr st"
    and rf: "read_from_file file_lines = Inr (b, goal_board)"
  shows "goal_complete b \<longleftrightarrow> all_matched st"
    and "\<not> all_matched st \<Longrightarrow> \<exists>kp \<in> set (pieces b). goal_lookup b (uid (snd kp)) = Inl KeyError"
proof -
  from read_from_file_fields[OF rf] rl have pb: "pieces b = l_pieces st"
    and gb: "goal_board_dict b = Some (l_goal_board_dict st)" by auto
  have un: "\<exists>kp \<in> set (pieces b). uid (snd kp) \<notin> fst ` set (l_goal_board_dict st)"
    if "\<not> all_matched st"
    using unmatched_piece[OF read_lines_inv[OF rl] that] by (auto simp: pb)
  show "goal_complete b \<longleftrightarrow> all_matched st"
  proof
    assume "all_matched st"
    with rl show "goal_complete b" using rf by (rule loaded_board_complete)
  next
    assume g: "goal_complete b"
    show "all_matched st"
    proof (rule ccontr)
      assume "\<not> all_matched st"
      from un[OF this] g show False by (auto simp: goal_complete_def gb list_all_iff)
    qed
  qed
  show "\<exists>kp \<in> set (pieces b). goal_lookup b (uid (snd kp)) = Inl KeyError"
    if "\<not> all_matched st"
  proof -
    from un[OF that] obtain kp where kp: "kp \<in> set (pieces b)"
      and u: "uid (snd kp) \<notin> fst ` set (l_goal_board_dict st)" by blast
    from u have "map_of (l_goal_board_dict st) (uid (snd kp)) = None"
      by (simp add: map_of_eq_None_iff)
    then have "goal_lookup b (uid (snd kp)) = Inl KeyError"
      by (simp add: goal_lookup_def gb dict_get_def)
    with kp show ?thesis by blast
  qed
qed

text \<open>
  C10 (as the code has it).  On a well-formed board \<^verbatim>\<open>generate_successors\<close> returns exactly
  when the goal lookup succeeds for every piece with a legal destination, and the lookup
  succeeds exactly when the goal dictionary is set and has the uid as a key.  In \<^verbatim>\<open>dfs\<close> as
  in \<^verbatim>\<open>astar\<close>, a turn that pops an unvisited node other than the goal ends the search
  with the exception \<^verbatim>\<open>generate_successors\<close> raises on it.  The board \<^verbatim>\<open>read_from_file\<close>
  returns has a goal dictionary with an entry for every piece exactly when the loader has
  matched every piece of the initial layout by the end of the file; otherwise the lookup
  raises \<^verbatim>\<open>KeyError\<close> for a piece of that board.  Every state \<^verbatim>\<open>generate_successors\<close> returns
  for a board with an entry for every piece has the same goal dictionary and no uid the
  parent has not, so it is such a board again; and on such a board the lookup succeeds
  for every piece.
\<close>

theorem goal_lookup_defined_when_all_matched:
  "(wf_board (board s) \<longrightarrow>
      ((\<exists>ts. generate_successors s = Inr ts) \<longleftrightarrow>
       (\<forall>kp \<in> set (pieces (board s)).
          piece_new_keys (board s) (snd kp) = Inr []
          \<or> (\<exists>g. goal_lookup (board s) (uid (snd kp)) = Inr g))))
   \<and> ((\<exists>g. goal_lookup b0 u = Inr g) \<longleftrightarrow> (\<exists>gd. goal_board_dict b0 = Some gd \<and> u \<in> fst ` set gd))
   \<and> (Board_str (board node) \<notin> visited \<and> \<not> Board_eq (board node) (PyBoard goal_board)
        \<and> generate_successors node = Inl e \<and> heappop heap_lst = ((node_f, node), h1) \<longrightarrow>
          dfs_body goal_board (stack @ [node], visited) = Done (Inl e)
          \<and> astar_body goal_board (heap_lst, visited) = Done (Inl e))
   \<and> (read_lines file_lines = Inr st \<and> read_from_file file_lines = Inr (b, loaded_goal) \<longrightarrow>
          (goal_complete b \<longleftrightarrow> all_matched st)
          \<and> (all_matched st
               \<or> (\<exists>kp \<in> set (pieces b). goal_lookup b (uid (snd kp)) = Inl KeyError)))
   \<and> (goal_complete (board s') \<and> generate_successors s' = Inr ts' \<and> t \<in> set ts' \<longrightarrow>
          goal_complete (board t) \<and> goal_board_dict (board t) = goal_board_dict (board s')
          \<and> uid ` snd ` set (pieces (board t)) \<subseteq> uid ` snd ` set (pieces (board s')))
   \<and> (goal_complete b' \<and> kp' \<in> set (pieces b') \<longrightarrow>
          (\<exists>g. goal_lookup b' (uid (snd kp')) = Inr g))"
proof -
  have 1: "(\<exists>ts. generate_successors s = Inr ts) \<longleftrightarrow>
       (\<forall>kp \<in> set (pieces (board s)).
          piece_new_keys (board s) (snd kp) = Inr []
          \<or> (\<exists>g. goal_lookup (board s) (uid (snd kp)) = Inr g))"
    if "wf_board (board s)" using that by (rule wf_generates_iff)
  have 3: "dfs_body goal_board (stack @ [node], visited) = Done (Inl e)
          \<and> astar_body goal_board (heap_lst, visited) = Done (Inl e)"
    if a: "Board_str (board node) \<notin> visited \<and> \<not> Board_eq (board node) (PyBoard goal_board)
        \<and> generate_successors node = Inl e \<and> heappop heap_lst = ((node_f, node), h1)"
  proof -
    from a have x: "Board_str (board node) \<notin> visited"
      "\<not> Board_eq (board node) (PyBoard goal_board)" "generate_successors node = Inl e"
      "heappop heap_lst = ((node_f, node), h1)" by simp_all
    from body_raises(1)[OF x(1,2,3)] body_raises(2)[OF x(1,2,3,4)] show ?thesis by simp
  qed
  have 4: "(goal_complete b \<longleftrightarrow> all_matched st)
          \<and> (all_matched st
               \<or> (\<exists>kp \<in> set (pieces b). goal_lookup b (uid (snd kp)) = Inl KeyError))"
    if a: "read_lines file_lines = Inr st \<and> read_from_file file_lines = Inr (b, loaded_goal)"
  proof -
    from a have x: "read_lines file_lines = Inr st"
      "read_from_file file_lines = Inr (b, loaded_goal)" by simp_all
    from loaded_board_complete_iff[OF x] show ?thesis by blast
  qed
  have 5: "goal_complete (board t) \<and> goal_board_dict (board t) = goal_board_dict (board s')
          \<and> uid ` snd ` set (pieces (board t)) \<subseteq> uid ` snd ` set (pieces (board s'))"
    if a: "goal_complete (board s') \<and> generate_successors s' = Inr ts' \<and> t \<in> set ts'"
  proof -
    from a have x: "goal_complete (board s')" "generate_successors s' = Inr ts'" "t \<in> set ts'"
      by simp_all
    from goal_complete_successor[OF x] show ?thesis by simp
  qed
  have 6: "\<exists>g. goal_lookup b' (uid (snd kp')) = Inr g"
    if a: "goal_complete b' \<and> kp' \<in> set (pieces b')"
  proof -
    from a have x: "goal_complete b'" "kp' \<in> set (pieces b')" by simp_all
    from x show ?thesis by (rule goal_complete_lookup)
  qed
  show ?thesis
    by (rule conjI[OF impI[OF 1] conjI[OF goal_lookup_defined
          conjI[OF impI[OF 3] conjI[OF impI[OF 4] conjI[OF impI[OF 5] impI[OF 6]]]]]])
qed

theorem goal_lookup_defined_when_all_matched_witness:
  "\<exists>b loaded_goal st ts u unmatched_goal.
     read_lines ex_file_match = Inr st \<and> all_matched st
     \<and> read_from_file ex_file_match = Inr (b, loaded_goal)
     \<and> wf_board b \<and> goal_complete b \<and> length (pieces b) = 3
     \<and> generate_successors (State b 0 0 0 None) = Inr ts \<and> length ts = 7
     \<and> goal_complete (board (hd ts))
     \<and> goal_board_dict (board (hd ts)) = goal_board_dict b
     \<and> (\<exists>g. goal_lookup (board (hd ts)) (uid (snd (hd (pieces (board (hd ts)))))) = Inr g)
     \<and> read_from_file ex_file_unmatched = Inr (u, unmatched_goal)
     \<and> \<not> goal_complete u
     \<and> generate_successors (State u 0 0 0 None) = Inl KeyError
     \<and> dfs_body unmatched_goal ([] @ [State u 0 0 0 None], {}) = Done (Inl KeyError)
     \<and> astar_body unmatched_goal (heappush [] (0, State u 0 0 0 None), {}) = Done (Inl KeyError)"
proof -
  have "case read_lines ex_file_match of
          Inl e \<Rightarrow> False
        | Inr st \<Rightarrow>
            all_matched st
            \<and> (case read_from_file ex_file_match of
                 Inl e \<Rightarrow> False
               | Inr (b, loaded_goal) \<Rightarrow>
                   wf_board b \<and> length (pieces b) = 3
                   \<and> (case generate_successors (State b 0 0 0 None) of
                        Inl e \<Rightarrow> True
                      | Inr ts \<Rightarrow> length ts = 7 \<and> pieces (board (hd ts)) \<noteq> []))"
    by code_simp
  then obtain st b loaded_goal where rl: "read_lines ex_file_match = Inr st"
    and am: "all_matched st" and rf: "read_from_file ex_file_match = Inr (b, loaded_goal)"
    and wf: "wf_board b" and l3: "length (pieces b) = 3"
    and tl: "case generate_successors (State b 0 0 0 None) of
               Inl e \<Rightarrow> True | Inr ts \<Rightarrow> length ts = 7 \<and> pieces (board (hd ts)) \<noteq> []"
    by (auto split: sum.splits)
  have "case read_from_file ex_file_unmatched of
          Inl e \<Rightarrow> False
        | Inr (u, unmatched_goal) \<Rightarrow>
            (case read_lines ex_file_unmatched of Inl e \<Rightarrow> False | Inr su \<Rightarrow> \<not> all_matched su)
            \<and> generate_successors (State u 0 0 0 None) = Inl KeyError
            \<and> \<not> Board_eq u (PyBoard unmatched_goal)
            \<and> heappop (heappush [] (0, State u 0 0 0 None)) = ((0, State u 0 0 0 None), [])"
    by code_simp
  then obtain u unmatched_goal su where ru: "read_from_file ex_file_unmatched = Inr (u, unmatched_goal)"
    and rlu: "read_lines ex_file_unmatched = Inr su" and nam: "\<not> all_matched su"
    and gu: "generate_successors (State u 0 0 0 None) = Inl KeyError"
    and ng: "\<not> Board_eq (board (State u 0 0 0 None)) (PyBoard unmatched_goal)"
    and hp: "heappop (heappush [] (0, State u 0 0 0 None)) = ((0, State u 0 0 0 None), [])"
    by (auto split: sum.splits)
  have nv: "Board_str (board (State u 0 0 0 None)) \<notin> {}" by simp
  note t = goal_lookup_defined_when_all_matched[where s = "State b 0 0 0 None"
      and file_lines = ex_file_match and st = st and b = b and loaded_goal = loaded_goal
      and s' = "State b 0 0 0 None" and node = "State u 0 0 0 None" and visited = "{}"
      and goal_board = unmatched_goal and e = KeyError
      and heap_lst = "heappush [] (0, State u 0 0 0 None)" and node_f = 0 and ?h1.0 = "[]"
      and stack = "[]"]
  note t1 = t[THEN conjunct1]
  note t3 = t[THEN conjunct2, THEN conjunct2, THEN conjunct1]
  note t4 = t[THEN conjunct2, THEN conjunct2, THEN conjunct2, THEN conjunct1]
  note t5 = t[THEN conjunct2, THEN conjunct2, THEN conjunct2, THEN conjunct2, THEN conjunct1]
  note t6 = t[THEN conjunct2, THEN conjunct2, THEN conjunct2, THEN conjunct2, THEN conjunct2]
  from t4[THEN mp, OF conjI[OF rl rf]] am have gc: "goal_complete b" by simp
  have look: "\<exists>g. goal_lookup b (uid (snd kp)) = Inr g" if "kp \<in> set (pieces b)" for kp
    using t6[THEN mp, OF conjI[OF gc that]] .
  have wfs: "wf_board (board (State b 0 0 0 None))" using wf by simp
  from t1[THEN mp, OF wfs] look obtain ts where ts: "generate_successors (State b 0 0 0 None) = Inr ts"
    by auto
  with tl have l7: "length ts = 7" and pne: "pieces (board (hd ts)) \<noteq> []" by simp_all
  from l7 have m: "hd ts \<in> set ts" by (cases ts) auto
  have gcs: "goal_complete (board (State b 0 0 0 None))" using gc by simp
  from t5[THEN mp, OF conjI[OF gcs conjI[OF ts m]]]
  have gt: "goal_complete (board (hd ts))"
    and gd: "goal_board_dict (board (hd ts)) = goal_board_dict b" by simp_all
  from pne have "hd (pieces (board (hd ts))) \<in> set (pieces (board (hd ts)))" by simp
  from t6[THEN mp, OF conjI[OF gt this]]
  have lk: "\<exists>g. goal_lookup (board (hd ts)) (uid (snd (hd (pieces (board (hd ts)))))) = Inr g" .
  from t3[THEN mp, OF conjI[OF nv conjI[OF ng conjI[OF gu hp]]]]
  have db: "dfs_body unmatched_goal ([] @ [State u 0 0 0 None], {}) = Done (Inl KeyError)"
    and ab: "astar_body unmatched_goal (heappush [] (0, State u 0 0 0 None), {}) = Done (Inl KeyError)"
    by simp_all
  from goal_lookup_defined_when_all_matched[where file_lines = ex_file_unmatched and st = su
      and b = u and loaded_goal = unmatched_goal, THEN conjunct2, THEN conjunct2, THEN conjunct2,
      THEN conjunct1, THEN mp, OF conjI[OF rlu ru]] nam
  have ngc: "\<not> goal_complete u" by simp
  show ?thesis
    by (intro exI[of _ b] exI[of _ loaded_goal] exI[of _ st] exI[of _ ts] exI[of _ u]
          exI[of _ unmatched_goal] conjI)
       (rule rl am rf wf gc l3 ts l7 gt gd lk ru ngc gu db ab)+
qed

text \<open>
  C10 as stated fails: for a file with a 2x2 block and a single in the initial layout and
  the block alone in the goal layout, \<^verbatim>\<open>read_from_file\<close> returns a well-formed board whose
  goal dictionary has no entry for the single; the single has two legal destinations, the
  lookup raises \<^verbatim>\<open>KeyError\<close>, and so do \<^verbatim>\<open>generate_successors\<close>, \<^verbatim>\<open>dfs\<close> and \<^verbatim>\<open>astar\<close>.
\<close>

theorem unmatched_piece_lookup_counterexample:
  "\<exists>b goal_board.
     read_from_file ex_file_unmatched = Inr (b, goal_board) \<and> wf_board b
     \<and> map snd (pieces b) = [Piece_init True False 0 0 None 0, Piece_init False True 3 1 None 1]
     \<and> piece_new_keys b (Piece_init False True 3 1 None 1) = Inr [(2, 1), (3, 0)]
     \<and> goal_lookup b 1 = Inl KeyError
     \<and> generate_successors (State b 0 0 0 None) = Inl KeyError
     \<and> dfs (State b 0 0 0 None) goal_board = Some (Inl KeyError)
     \<and> astar (State b (init_manhattan_distance b goal_board) (init_manhattan_distance b goal_board) 0 None)
          goal_board = Some (Inl KeyError)"
proof -
  have "case read_from_file ex_file_unmatched of
          Inl e \<Rightarrow> False
        | Inr (b, goal_board) \<Rightarrow>
            wf_board b
            \<and> map snd (pieces b) = [Piece_init True False 0 0 None 0, Piece_init False True 3 1 None 1]
            \<and> piece_new_keys b (Piece_init False True 3 1 None 1) = Inr [(2, 1), (3, 0)]
            \<and> goal_lookup b 1 = Inl KeyError
            \<and> generate_successors (State b 0 0 0 None) = Inl KeyError
            \<and> dfs (State b 0 0 0 None) goal_board = Some (Inl KeyError)
            \<and> astar (State b (init_manhattan_distance b goal_board)
                        (init_manhattan_distance b goal_board) 0 None)
                 goal_board = Some (Inl KeyError)"
    by code_simp
  then show ?thesis by (auto split: sum.splits)
qed

end
